(* ===== verification/Kfd_Prelude.thy ===== *)
theory Kfd_Prelude
  imports Main "HOL-Library.Word" "HOL-Library.Multiset"
begin

text \<open>
  What every component of the model shares: the machine integers, the error values and the
  early-return combinators of \<open>error.h\<close>, the integer helpers of \<open>detail/utility.h\<close>,
  and the list and word lemmas the component theories use.
\<close>

unbundle bit_operations_syntax

section \<open>Types\<close>

type_synonym u8 = "8 word"
type_synonym u16 = "16 word"
type_synonym u32 = "32 word"
type_synonym u64 = "64 word"
type_synonym bytes = "u8 list"

text \<open>
  The \<open>code\<close> of a \<^verbatim>\<open>kfd::Error\<close>; the formatted message carries no behaviour and is left
  out. \<open>EOTHER\<close> is any other errno the kernel may return. \<open>UB\<close> is not an errno: it is the
  model's value of an operation C++ leaves undefined (an access outside an object, a division by
  zero), so that a lemma of the form \<open>f x \<noteq> Inl UB\<close> is a safety statement.
  \<open>ABORT\<close> is the process ending in \<^verbatim>\<open>KFD_ASSERT\<close>, \<open>HANGS\<close> a loop that
  has used up the fuel of its model: \<open>f x \<noteq> Inl HANGS\<close> states termination.
\<close>

datatype error =
    EINVAL | ENOMEM | ERANGE | ENOEXEC | ENOENT | ENOTSUP | ENODEV | EFAULT | EAGAIN
  | EMSGSIZE | ETIMEDOUT | EIO | EFBIG | EINTR | EOTHER nat | UB | ABORT | HANGS

type_synonym 'a res = "error + 'a"

section \<open>Early return\<close>

named_theorems res_simps \<open>evaluation of the early-return combinators\<close>

definition kfd_try :: "'a res \<Rightarrow> ('a \<Rightarrow> 'b res) \<Rightarrow> 'b res" where
  "kfd_try e k = (case e of Inl x \<Rightarrow> Inl x | Inr v \<Rightarrow> k v)"

definition kfd_check :: "'a res \<Rightarrow> 'b res \<Rightarrow> 'b res" where
  "kfd_check e k = (case e of Inl x \<Rightarrow> Inl x | Inr _ \<Rightarrow> k)"

text \<open>\<^verbatim>\<open>KFD_ASSERT\<close>: the process aborts on an error.\<close>

definition kfd_assert :: "'a res \<Rightarrow> 'b res \<Rightarrow> 'b res" where
  "kfd_assert e k = (case e of Inl _ \<Rightarrow> Inl ABORT | Inr _ \<Rightarrow> k)"

text \<open>A guard of the form \<^verbatim>\<open>if (c) return kfd::unexpected(x);\<close>.\<close>

definition fail_if :: "bool \<Rightarrow> error \<Rightarrow> 'a res \<Rightarrow> 'a res" where
  "fail_if c x k = (if c then Inl x else k)"

lemma kfd_try_simps [simp, res_simps]:
  "kfd_try (Inl x) k = Inl x" "kfd_try (Inr v) k = k v"
  by (simp_all add: kfd_try_def)

lemma kfd_check_simps [simp, res_simps]:
  "kfd_check (Inl x) r = Inl x" "kfd_check (Inr v) r = r"
  by (simp_all add: kfd_check_def)

lemma kfd_assert_simps [simp, res_simps]:
  "kfd_assert (Inl x) r = Inl ABORT" "kfd_assert (Inr v) r = r"
  by (simp_all add: kfd_assert_def)

lemma fail_if_simps [simp, res_simps]:
  "fail_if True x r = Inl x" "fail_if False x r = r"
  by (simp_all add: fail_if_def)

lemma kfd_try_eq_Inr [res_simps]: "kfd_try e k = Inr b \<longleftrightarrow> (\<exists>a. e = Inr a \<and> k a = Inr b)"
  by (cases e) simp_all

lemma kfd_check_eq_Inr [res_simps]: "kfd_check e r = Inr b \<longleftrightarrow> (\<exists>a. e = Inr a) \<and> r = Inr b"
  by (cases e) simp_all

lemma fail_if_eq_Inr [res_simps]: "fail_if c x r = Inr b \<longleftrightarrow> \<not> c \<and> r = Inr b"
  by (cases c) simp_all

lemma kfd_try_eq_Inl:
  "kfd_try e k = Inl x \<longleftrightarrow> e = Inl x \<or> (\<exists>a. e = Inr a \<and> k a = Inl x)"
  by (cases e) simp_all

lemma kfd_check_eq_Inl:
  "kfd_check e r = Inl x \<longleftrightarrow> e = Inl x \<or> ((\<exists>a. e = Inr a) \<and> r = Inl x)"
  by (cases e) simp_all

lemma fail_if_eq_Inl: "fail_if c x r = Inl y \<longleftrightarrow> (c \<and> x = y) \<or> (\<not> c \<and> r = Inl y)"
  by (cases c) simp_all

lemma kfd_try_no_ub:
  "e \<noteq> Inl UB \<Longrightarrow> (\<And>a. e = Inr a \<Longrightarrow> k a \<noteq> Inl UB) \<Longrightarrow> kfd_try e k \<noteq> Inl UB"
  by (auto simp: kfd_try_eq_Inl)

lemma fail_if_no_ub: "x \<noteq> UB \<Longrightarrow> (\<not> c \<Longrightarrow> r \<noteq> Inl UB) \<Longrightarrow> fail_if c x r \<noteq> Inl UB"
  by (auto simp: fail_if_eq_Inl)

section \<open>Words: halves, alignment, single bits\<close>

definition lo32 :: "u64 \<Rightarrow> u32" where
  "lo32 v = ucast v"

definition hi32 :: "u64 \<Rightarrow> u32" where
  "hi32 v = ucast (drop_bit 32 v)"

definition join32 :: "u32 \<Rightarrow> u32 \<Rightarrow> u64" where
  "join32 l h = push_bit 32 (ucast h) OR ucast l"

lemma join32_lo_hi [simp]: "join32 (lo32 v) (hi32 v) = v"
  by (rule bit_word_eqI) (auto simp: join32_def lo32_def hi32_def bit_simps)

lemma lo32_join32 [simp]: "lo32 (join32 l h) = l"
  by (rule bit_word_eqI) (auto simp: join32_def lo32_def bit_simps)

lemma hi32_join32 [simp]: "hi32 (join32 l h) = h"
  by (rule bit_word_eqI)
    (auto simp: join32_def hi32_def bit_simps dest: bit_imp_le_length)

text \<open>\<^verbatim>\<open>align_up\<close>, in the wrap-around arithmetic of its type.\<close>

definition align_up :: "'a::len word \<Rightarrow> 'a word \<Rightarrow> 'a word" where
  "align_up v a = (v + a - 1) AND NOT (a - 1)"

definition has_single_bit :: "'a::len word \<Rightarrow> bool" where
  "has_single_bit w \<longleftrightarrow> length (filter (bit w) [0..<LENGTH('a)]) = 1"

lemma has_single_bit_pow:
  fixes w :: "'a::len word"
  assumes "has_single_bit w"
  obtains k where "k < LENGTH('a)" "w = 2 ^ k"
proof -
  from assms obtain k where k: "filter (bit w) [0..<LENGTH('a)] = [k]"
    unfolding has_single_bit_def by (metis One_nat_def length_0_conv length_Suc_conv)
  from arg_cong [OF k, of set] have bits: "{n. n < LENGTH('a) \<and> bit w n} = {k}"
    by simp
  then have "bit w n \<longleftrightarrow> n = k" if "n < LENGTH('a)" for n
    using that by auto
  moreover have "k < LENGTH('a)" using bits by auto
  ultimately have "w = 2 ^ k"
    by (intro bit_word_eqI) (auto simp: bit_simps)
  with \<open>k < LENGTH('a)\<close> show ?thesis by (rule that)
qed

lemma unat64_less: "unat (w :: u64) < 2 ^ 64"
  by (rule order_less_le_trans [OF unsigned_less]) simp

lemma unat_max64: "unat (- 1 :: u64) = 2 ^ 64 - 1"
  by (simp add: unsigned_minus_1_eq_mask mask_eq_exp_minus_1)

lemma unat32_less: "unat (w :: u32) < 2 ^ 32"
  by (rule order_less_le_trans [OF unsigned_less]) simp

lemma unat_pow2 [simp]:
  assumes "k < LENGTH('a)"
  shows "unat (2 ^ k :: 'a::len word) = 2 ^ k"
proof -
  have "(2 ^ k :: 'a word) = word_of_nat (2 ^ k)" by simp
  then have "unat (2 ^ k :: 'a word) = take_bit LENGTH('a) (2 ^ k)"
    by (metis of_nat_id unsigned_of_nat)
  then show ?thesis using assms by (simp add: take_bit_nat_eq_self)
qed

lemma unat_and_not_mask:
  fixes w :: "'a::len word"
  shows "unat (w AND NOT (mask k)) = unat w div 2 ^ k * 2 ^ k"
proof -
  have "w AND NOT (mask k) = push_bit k (drop_bit k w)"
    by (rule bit_word_eqI) (auto simp: bit_simps)
  then have "unat (w AND NOT (mask k)) = take_bit LENGTH('a) (push_bit k (drop_bit k (unat w)))"
    by (simp only: unsigned_push_bit_eq unsigned_drop_bit_eq take_bit_nat_eq_self [OF unsigned_less])
  moreover have "push_bit k (drop_bit k (unat w)) < 2 ^ LENGTH('a)"
    by (metis div_times_less_eq_dividend drop_bit_eq_div le_less_trans push_bit_eq_mult unsigned_less)
  ultimately show ?thesis
    by (simp only: take_bit_nat_eq_self drop_bit_eq_div push_bit_eq_mult)
qed

lemma unat_sub_no_wrap:
  fixes x y :: "'a::len word"
  shows "unat y \<le> unat x \<Longrightarrow> unat (x - y) = unat x - unat y"
  by (simp add: unat_sub word_le_nat_alt)

lemma unat_mask:
  assumes "k < LENGTH('a)"
  shows "unat (mask k :: 'a::len word) = 2 ^ k - 1"
proof -
  have "unat (2 ^ k - 1 :: 'a word) = unat (2 ^ k :: 'a word) - unat (1 :: 'a word)"
    using assms by (intro unat_sub_no_wrap) simp
  then show ?thesis using assms by (simp add: mask_eq_exp_minus_1)
qed

text \<open>The rounded-up value over the natural numbers.\<close>

definition round_up :: "nat \<Rightarrow> nat \<Rightarrow> nat" where
  "round_up n a = (n + a - 1) div a * a"

lemma round_up_ge: "0 < a \<Longrightarrow> n \<le> round_up n a"
proof -
  assume "0 < a"
  then have "(n + a - 1) mod a < a" by simp
  moreover have "round_up n a + (n + a - 1) mod a = n + a - 1"
    by (simp add: round_up_def)
  ultimately show ?thesis by linarith
qed

lemma round_up_less: "0 < a \<Longrightarrow> round_up n a < n + a"
proof -
  assume "0 < a"
  have "round_up n a \<le> n + a - 1" by (simp add: round_up_def)
  with \<open>0 < a\<close> show ?thesis by linarith
qed

lemma round_up_dvd [simp]: "a dvd round_up n a"
  by (simp add: round_up_def)

lemma round_up_least: "0 < a \<Longrightarrow> a dvd m \<Longrightarrow> n \<le> m \<Longrightarrow> round_up n a \<le> m"
proof -
  assume a: "0 < a" and "a dvd m" and "n \<le> m"
  then obtain c where m: "m = a * c" by (auto elim: dvdE)
  have "(n + a - 1) div a \<le> (a * c + a - 1) div a"
    using \<open>n \<le> m\<close> m by (intro div_le_mono) simp
  also have "\<dots> = c"
    using a by (metis (no_types, lifting) add_diff_assoc add.commute diff_less div_less
        div_mult_self2 le_add1 less_numeral_extra(1) not_gr_zero order_less_le
        add.right_neutral One_nat_def Suc_leI)
  finally show ?thesis using m by (simp add: round_up_def mult.commute)
qed

lemma round_up_id: "0 < a \<Longrightarrow> a dvd n \<Longrightarrow> round_up n a = n"
  by (meson le_antisym order_refl round_up_ge round_up_least)

lemma round_up_pos: "0 < a \<Longrightarrow> 0 < n \<Longrightarrow> 0 < round_up n a"
  using round_up_ge [of a n] by linarith

text \<open>Without wrap-around \<open>align_up\<close> rounds up; with it, the sum is first reduced.\<close>

lemma unat_align_up_wrap:
  fixes v :: "'a::len word"
  assumes "k < LENGTH('a)"
  shows "unat (align_up v (2 ^ k)) = (unat v + 2 ^ k - 1) mod 2 ^ LENGTH('a) div 2 ^ k * 2 ^ k"
proof -
  have m: "(2 ^ k - 1 :: 'a word) = mask k" by (simp add: mask_eq_exp_minus_1)
  have e: "v + 2 ^ k - 1 = v + mask k" by (simp only: m [symmetric] add_diff_eq)
  have "unat (align_up v (2 ^ k)) = unat (v + mask k) div 2 ^ k * 2 ^ k"
    by (simp only: align_up_def m e unat_and_not_mask)
  also have "unat (v + mask k) = (unat v + (2 ^ k - 1)) mod 2 ^ LENGTH('a)"
    by (simp only: unat_word_ariths unat_mask [OF assms])
  finally show ?thesis by simp
qed

lemma unat_align_up:
  fixes v :: "'a::len word"
  assumes "k < LENGTH('a)" and "unat v + 2 ^ k \<le> 2 ^ LENGTH('a)"
  shows "unat (align_up v (2 ^ k)) = round_up (unat v) (2 ^ k)"
proof -
  have "0 < (2::nat) ^ k" by simp
  then have "unat v + 2 ^ k - 1 < 2 ^ LENGTH('a)" using assms(2) by linarith
  then show ?thesis using assms(1) by (simp add: unat_align_up_wrap round_up_def)
qed

lemma unat_add_no_wrap:
  fixes x y :: "'a::len word"
  shows "unat x + unat y < 2 ^ LENGTH('a) \<Longrightarrow> unat (x + y) = unat x + unat y"
  by (simp add: unat_word_ariths)

lemma unat_mult_no_wrap:
  fixes x y :: "'a::len word"
  shows "unat x * unat y < 2 ^ LENGTH('a) \<Longrightarrow> unat (x * y) = unat x * unat y"
  by (simp add: unat_word_ariths)

lemma unat_ucast_mod: "unat (ucast (w :: 'a::len word) :: 'b::len word) = unat w mod 2 ^ LENGTH('b)"
  by (simp only: unsigned_ucast_eq take_bit_eq_mod)

lemma unat_ucast_up [simp]:
  fixes w :: "'a::len word"
  shows "LENGTH('a) \<le> LENGTH('b) \<Longrightarrow> unat (ucast w :: 'b::len word) = unat w"
  by (simp add: unat_ucast_mod)
    (metis less_le_trans mod_less one_le_numeral power_increasing unsigned_less)

lemma unat_ucast_32: "unat (ucast (w :: u64) :: u32) = unat w mod 2 ^ 32"
  by (simp add: unat_ucast_mod)

lemma not_bit_above:
  fixes w :: "'a::len word"
  assumes "unat w < 2 ^ n" and "n \<le> m"
  shows "\<not> bit w m"
proof -
  have "(2::nat) ^ n \<le> 2 ^ m" using assms(2) by simp
  with assms(1) have "unat w div 2 ^ m = 0" by (meson div_less less_le_trans)
  then have "\<not> bit (unat w) m" by (simp add: bit_iff_odd)
  then show ?thesis by (simp add: bit_unsigned_iff)
qed

section \<open>Arrays\<close>

lemma set_drop_conv: "x \<in> set (drop n xs) \<longleftrightarrow> (\<exists>j. n \<le> j \<and> j < length xs \<and> x = xs ! j)"
proof
  assume "x \<in> set (drop n xs)"
  then obtain i where "i < length (drop n xs)" "drop n xs ! i = x" by (auto simp: in_set_conv_nth)
  then show "\<exists>j. n \<le> j \<and> j < length xs \<and> x = xs ! j" by (intro exI [of _ "n + i"]) auto
next
  assume "\<exists>j. n \<le> j \<and> j < length xs \<and> x = xs ! j"
  then obtain j where "n \<le> j" "j < length xs" "x = xs ! j" by blast
  then show "x \<in> set (drop n xs)" by (auto simp: in_set_conv_nth intro!: exI [of _ "j - n"])
qed

lemma Min_insert_min: "finite S \<Longrightarrow> Min (insert (min x y) S) = Min (insert x (insert y S))"
  by (cases "S = {}") (simp_all add: min.assoc)

lemma Max_insert_max: "finite S \<Longrightarrow> Max (insert (max x y) S) = Max (insert x (insert y S))"
  by (cases "S = {}") (simp_all add: max.assoc)

text \<open>
  The in-place shifts the code writes as loops over an array: \<open>erase_loop\<close> moves every later
  element one slot down from \<open>j\<close>, \<open>shift_up_loop\<close> moves the elements from \<open>pos\<close>
  one slot up, from the end.
\<close>

lemma replicate_numeral_unfold [simp]:
  "replicate (numeral k) x = x # replicate (pred_numeral k) x"
  by (simp add: numeral_eq_Suc)

lemma list_update_numeral [simp]:
  "(x # xs)[numeral k := v] = x # xs[pred_numeral k := v]"
  by (simp add: numeral_eq_Suc)

function erase_loop :: "nat \<Rightarrow> 'a list \<Rightarrow> 'a list" where
  "erase_loop j xs = (if j + 1 < length xs then erase_loop (j + 1) (xs[j := xs ! (j + 1)]) else xs)"
  by pat_completeness auto
termination
  by (relation "measure (\<lambda>(j, xs). length xs - j)") auto

fun shift_up_loop :: "nat \<Rightarrow> nat \<Rightarrow> 'a list \<Rightarrow> 'a list" where
  "shift_up_loop pos 0 xs = xs"
| "shift_up_loop pos (Suc i) xs =
     (if Suc i > pos then shift_up_loop pos i (xs[Suc i := xs ! i]) else xs)"

declare erase_loop.simps [simp del]

lemma erase_loop_eq:
  "j < length xs \<Longrightarrow> erase_loop j xs = take j xs @ drop (Suc j) xs @ [last xs]"
proof (induction j xs rule: erase_loop.induct)
  case (1 j xs)
  show ?case
  proof (cases "j + 1 < length xs")
    case True
    let ?ys = "xs[j := xs ! (j + 1)]"
    have "erase_loop j xs = erase_loop (j + 1) ?ys"
      using True by (simp add: erase_loop.simps [of j xs])
    also have "\<dots> = take (j + 1) ?ys @ drop (Suc (j + 1)) ?ys @ [last ?ys]"
      using True by (intro "1.IH") simp_all
    also have "take (j + 1) ?ys = take j xs @ [xs ! Suc j]"
      using True by (simp add: take_Suc_conv_app_nth)
    also have "drop (Suc (j + 1)) ?ys = drop (Suc (Suc j)) xs"
      by simp
    also have "last ?ys = last xs"
      using True by (subst last_list_update) auto
    finally show ?thesis
      using True by (simp add: Cons_nth_drop_Suc)
  next
    case False
    with "1.prems" have "length xs = Suc j" by simp
    then show ?thesis
      using False by (simp add: erase_loop.simps [of j xs])
        (metis append_butlast_last_id butlast_conv_take diff_Suc_1 length_0_conv nat.distinct(1))
  qed
qed

lemma length_erase_loop [simp]: "length (erase_loop j xs) = length xs"
  by (induction j xs rule: erase_loop.induct) (metis erase_loop.simps length_list_update)

lemma butlast_erase_loop:
  "j < length xs \<Longrightarrow> butlast (erase_loop j xs) = take j xs @ drop (Suc j) xs"
  by (simp add: erase_loop_eq butlast_append)

lemma length_shift_up_loop [simp]: "length (shift_up_loop pos i xs) = length xs"
  by (induction pos i xs rule: shift_up_loop.induct) auto

lemma nth_shift_up_loop:
  "i < length xs \<Longrightarrow> k < length xs \<Longrightarrow>
   shift_up_loop pos i xs ! k = (if pos < k \<and> k \<le> i then xs ! (k - 1) else xs ! k)"
proof (induction pos i xs arbitrary: k rule: shift_up_loop.induct)
  case (1 pos xs)
  then show ?case by simp
next
  case (2 pos i xs)
  then show ?case by (auto simp: nth_list_update le_Suc_eq)
qed

lemma shift_up_loop_insert:
  assumes "pos \<le> length xs"
  shows "(shift_up_loop pos (length xs) (xs @ [y]))[pos := x] = take pos xs @ x # drop pos xs"
proof (rule nth_equalityI)
  show "length ((shift_up_loop pos (length xs) (xs @ [y]))[pos := x])
      = length (take pos xs @ x # drop pos xs)"
    using assms by simp
next
  fix k assume "k < length ((shift_up_loop pos (length xs) (xs @ [y]))[pos := x])"
  then have k: "k < Suc (length xs)" by simp
  show "(shift_up_loop pos (length xs) (xs @ [y]))[pos := x] ! k
      = (take pos xs @ x # drop pos xs) ! k"
    using assms k
    by (cases "k = pos"; cases "k < pos")
      (auto simp: nth_shift_up_loop nth_append nth_list_update nth_Cons' min_def)
qed

text \<open>Removal by moving the last element into the freed slot, at the first match of a predicate.\<close>

definition swap_remove :: "nat \<Rightarrow> 'a list \<Rightarrow> 'a list" where
  "swap_remove i xs = butlast (xs[i := last xs])"

fun first_index :: "('a \<Rightarrow> bool) \<Rightarrow> 'a list \<Rightarrow> nat option" where
  "first_index p [] = None"
| "first_index p (x # xs) = (if p x then Some 0 else map_option Suc (first_index p xs))"

definition remove_first :: "('a \<Rightarrow> bool) \<Rightarrow> 'a list \<Rightarrow> 'a list" where
  "remove_first p xs = (case first_index p xs of None \<Rightarrow> xs | Some i \<Rightarrow> swap_remove i xs)"

lemma first_index_Some:
  "first_index p xs = Some i \<Longrightarrow> i < length xs \<and> p (xs ! i) \<and> (\<forall>j<i. \<not> p (xs ! j))"
  by (induction xs arbitrary: i) (auto split: if_splits simp: nth_Cons' less_Suc_eq_0_disj)

lemma first_index_None: "first_index p xs = None \<longleftrightarrow> (\<forall>x\<in>set xs. \<not> p x)"
  by (induction xs) auto

lemma swap_remove_perm:
  assumes "i < length xs"
  obtains ys where "swap_remove i xs = ys" "mset xs = add_mset (xs ! i) (mset ys)"
proof -
  define l where "l = last xs"
  obtain zs where xs: "xs = zs @ [l]"
    using assms by (metis append_butlast_last_id l_def length_greater_0_conv not_less_zero list.size(3))
  show ?thesis
  proof (cases "i < length zs")
    case True
    then have "swap_remove i xs = zs[i := l]"
      by (simp add: swap_remove_def xs list_update_append butlast_append)
    moreover have "mset (zs[i := l]) = add_mset l (mset zs - {#zs ! i#})" using True by (rule mset_update)
    moreover have "zs ! i \<in># mset zs" using True by simp
    ultimately show ?thesis using that True by (simp add: xs nth_append)
  next
    case False
    with assms have "i = length zs" by (simp add: xs)
    then show ?thesis using that by (simp add: swap_remove_def xs)
  qed
qed

lemma set_swap_remove:
  assumes "i < length xs" and "distinct xs"
  shows "set (swap_remove i xs) = set xs - {xs ! i}" "distinct (swap_remove i xs)"
proof -
  obtain ys where ys: "swap_remove i xs = ys" "mset xs = add_mset (xs ! i) (mset ys)"
    using assms(1) by (rule swap_remove_perm)
  from ys(2) have "distinct (xs ! i # ys)"
    using assms(2) by (metis mset.simps(2) mset_eq_imp_distinct_iff)
  moreover have "set xs = set (xs ! i # ys)" using ys(2) by (metis mset.simps(2) mset_eq_setD)
  ultimately show "set (swap_remove i xs) = set xs - {xs ! i}" "distinct (swap_remove i xs)"
    by (auto simp: ys(1))
qed

lemma length_swap_remove [simp]: "i < length xs \<Longrightarrow> length (swap_remove i xs) = length xs - 1"
  by (simp add: swap_remove_def)

lemma remove_first_eq:
  assumes "distinct xs"
  shows "set (remove_first (\<lambda>x. x = a) xs) = set xs - {a}" "distinct (remove_first (\<lambda>x. x = a) xs)"
proof -
  have "set (remove_first (\<lambda>x. x = a) xs) = set xs - {a} \<and> distinct (remove_first (\<lambda>x. x = a) xs)"
  proof (cases "first_index (\<lambda>x. x = a) xs")
    case None
    then have "a \<notin> set xs" by (auto simp: first_index_None)
    with None assms show ?thesis by (simp add: remove_first_def)
  next
    case (Some i)
    with first_index_Some [OF Some] set_swap_remove [of i xs] assms show ?thesis
      by (simp add: remove_first_def)
  qed
  then show "set (remove_first (\<lambda>x. x = a) xs) = set xs - {a}" "distinct (remove_first (\<lambda>x. x = a) xs)"
    by simp_all
qed

lemma length_remove_first: "length (remove_first p xs) \<le> length xs"
  by (auto simp: remove_first_def split: option.splits dest: first_index_Some)

end
