(* ===== verification/Small_Vector.thy ===== *)
theory Small_Vector
  imports Kfd_Prelude
begin

text \<open>
  \<^verbatim>\<open>detail/small_vector.h\<close>: the vector with inline storage that every component of the
  library keeps its sequences in. The template parameters \<open>N\<close> (inline capacity) and
  \<open>sizeof(T)\<close> are arguments, \<^verbatim>\<open>malloc\<close> is the argument \<open>mal\<close>: whether a
  request of so many bytes is granted. The record keeps the bytes the buffer really has, so that
  the capacity can be compared with it.
\<close>

section \<open>State and operations\<close>

record 'a svec =
  elems :: "'a list"
  capacity :: u64
  is_inline :: bool
  buf_bytes :: u64

definition sv_empty :: "u64 \<Rightarrow> u64 \<Rightarrow> 'a svec" where
  "sv_empty N sz = \<lparr>elems = [], capacity = N, is_inline = True, buf_bytes = N * sz\<rparr>"

definition grow :: "(u64 \<Rightarrow> bool) \<Rightarrow> u64 \<Rightarrow> 'a svec \<Rightarrow> 'a svec res" where
  "grow mal sz v =
     (let new_cap = (if capacity v \<noteq> 0 then capacity v * 2 else 4)
      in fail_if (new_cap < capacity v \<or> new_cap > (- 1) div sz) ENOMEM
        (fail_if (\<not> mal (new_cap * sz)) ENOMEM
          (Inr (v\<lparr>capacity := new_cap, is_inline := False, buf_bytes := new_cap * sz\<rparr>))))"

text \<open>
  The count is the length of \<open>elems\<close>. Appending constructs the element at index
  \<open>count\<close>: \<open>UB\<close> when that slot is not inside the buffer.
\<close>

definition room_for_one :: "u64 \<Rightarrow> 'a svec \<Rightarrow> bool" where
  "room_for_one sz v \<longleftrightarrow> (length (elems v) + 1) * unat sz \<le> unat (buf_bytes v)"

definition construct_back :: "u64 \<Rightarrow> 'a svec \<Rightarrow> 'a \<Rightarrow> 'a svec res" where
  "construct_back sz v x =
     fail_if (\<not> room_for_one sz v) UB (Inr (v\<lparr>elems := elems v @ [x]\<rparr>))"

definition push_back :: "(u64 \<Rightarrow> bool) \<Rightarrow> u64 \<Rightarrow> 'a svec \<Rightarrow> 'a \<Rightarrow> 'a svec res" where
  "push_back mal sz v x =
     (if length (elems v) = unat (capacity v)
      then kfd_try (grow mal sz v) (\<lambda>v'. construct_back sz v' x)
      else construct_back sz v x)"

text \<open>\<^verbatim>\<open>emplace_back\<close> also returns the address of the new element: its index.\<close>

definition emplace_back :: "(u64 \<Rightarrow> bool) \<Rightarrow> u64 \<Rightarrow> 'a svec \<Rightarrow> 'a \<Rightarrow> (nat \<times> 'a svec) res" where
  "emplace_back mal sz v x =
     kfd_try (push_back mal sz v x) (\<lambda>v'. Inr (length (elems v), v'))"

definition pop_back :: "'a svec \<Rightarrow> 'a svec res" where
  "pop_back v = fail_if (elems v = []) UB (Inr (v\<lparr>elems := butlast (elems v)\<rparr>))"

definition pop_front :: "'a svec \<Rightarrow> 'a svec res" where
  "pop_front v = fail_if (elems v = []) UB (Inr (v\<lparr>elems := butlast (erase_loop 0 (elems v))\<rparr>))"

definition reserve :: "(u64 \<Rightarrow> bool) \<Rightarrow> u64 \<Rightarrow> 'a svec \<Rightarrow> u64 \<Rightarrow> 'a svec res" where
  "reserve mal sz v n =
     (if n \<le> capacity v then Inr v
      else fail_if (\<not> mal (n * sz)) ENOMEM
        (Inr (v\<lparr>capacity := n, is_inline := False, buf_bytes := n * sz\<rparr>)))"

definition resize :: "(u64 \<Rightarrow> bool) \<Rightarrow> u64 \<Rightarrow> 'a \<Rightarrow> 'a svec \<Rightarrow> u64 \<Rightarrow> 'a svec res" where
  "resize mal sz d v n =
     kfd_try (if n > capacity v then reserve mal sz v n else Inr v)
       (\<lambda>v'. let k = unat n; xs = elems v'
             in fail_if (length xs < k \<and> k * unat sz > unat (buf_bytes v')) UB
                  (Inr (v'\<lparr>elems := take k xs @ replicate (k - length xs) d\<rparr>)))"

definition sv_clear :: "'a svec \<Rightarrow> 'a svec" where
  "sv_clear v = v\<lparr>elems := []\<rparr>"

definition sv_at :: "'a svec \<Rightarrow> nat \<Rightarrow> 'a res" where
  "sv_at v i = (if i < length (elems v) then Inr (elems v ! i) else Inl UB)"

definition sv_front :: "'a svec \<Rightarrow> 'a res" where
  "sv_front v = sv_at v 0"

definition sv_back :: "'a svec \<Rightarrow> 'a res" where
  "sv_back v = (if elems v = [] then Inl UB else sv_at v (length (elems v) - 1))"

text \<open>
  The move constructor and the move assignment: the new owner (with the previous value destroyed)
  and the emptied source. An inline source moves its elements into the target's inline storage.
\<close>

definition sv_move :: "u64 \<Rightarrow> u64 \<Rightarrow> 'a svec \<Rightarrow> 'a svec \<times> 'a svec" where
  "sv_move N sz other =
     (if is_inline other
      then (\<lparr>elems = elems other, capacity = N, is_inline = True, buf_bytes = N * sz\<rparr>, sv_empty N sz)
      else (other, sv_empty N sz))"

definition sv_move_assign :: "u64 \<Rightarrow> u64 \<Rightarrow> 'a svec \<Rightarrow> 'a svec \<Rightarrow> 'a svec \<times> 'a svec" where
  "sv_move_assign N sz this other = sv_move N sz other"

section \<open>Invariant\<close>

text \<open>
  The elements fit the capacity and the capacity fits the buffer; an inline vector has exactly
  the inline capacity.
\<close>

definition sv_inv :: "u64 \<Rightarrow> u64 \<Rightarrow> 'a svec \<Rightarrow> bool" where
  "sv_inv N sz v \<longleftrightarrow> 0 < sz \<and> unat N * unat sz < 2 ^ 64 \<and>
     length (elems v) \<le> unat (capacity v) \<and> unat (capacity v) * unat sz = unat (buf_bytes v) \<and>
     (is_inline v \<longrightarrow> capacity v = N)"

lemma sv_inv_empty: "0 < sz \<Longrightarrow> unat N * unat sz < 2 ^ 64 \<Longrightarrow> sv_inv N sz (sv_empty N sz)"
  by (simp add: sv_inv_def sv_empty_def unat_mult_no_wrap)

lemma div_max_no_wrap:
  fixes c sz :: u64
  assumes "c \<le> (- 1) div sz"
  shows "unat c * unat sz < 2 ^ 64"
proof -
  have "unat (- 1 :: u64) = 2 ^ 64 - 1"
    by (simp add: unsigned_minus_1_eq_mask mask_eq_exp_minus_1)
  then have "unat c \<le> (2 ^ 64 - 1) div unat sz"
    using assms by (simp add: word_le_nat_alt unat_div)
  then have "unat c * unat sz \<le> (2 ^ 64 - 1) div unat sz * unat sz"
    by (rule mult_le_mono1)
  also have "\<dots> \<le> 2 ^ 64 - 1" by simp
  finally show ?thesis by simp
qed

lemma grow_inv:
  assumes "sv_inv N sz v" and "grow mal sz v = Inr v'"
  shows "sv_inv N sz v' \<and> elems v' = elems v \<and> unat (capacity v) < unat (capacity v')"
proof -
  define c where "c = (if capacity v \<noteq> 0 then capacity v * 2 else 4)"
  from assms(2) have c: "\<not> c < capacity v" "c \<le> (- 1) div sz"
    and v': "v' = v\<lparr>capacity := c, is_inline := False, buf_bytes := c * sz\<rparr>"
    by (auto simp: grow_def c_def [symmetric] Let_def res_simps)
  from c(2) have nw: "unat c * unat sz < 2 ^ 64" by (rule div_max_no_wrap)
  have gt: "unat (capacity v) < unat c"
  proof (cases "capacity v = 0")
    case True then show ?thesis by (simp add: c_def)
  next
    case False
    have "c \<noteq> capacity v"
      using False by (simp add: c_def)
    with c(1) show ?thesis by (simp add: word_less_nat_alt) (metis linorder_neqE_nat unsigned_word_eqI)
  qed
  from assms(1) gt nw show ?thesis
    by (auto simp: sv_inv_def v' unat_mult_no_wrap)
qed

lemma construct_back_inv:
  assumes "sv_inv N sz v" and "length (elems v) < unat (capacity v)"
  shows "construct_back sz v x = Inr (v\<lparr>elems := elems v @ [x]\<rparr>)"
    and "sv_inv N sz (v\<lparr>elems := elems v @ [x]\<rparr>)"
proof -
  have "(length (elems v) + 1) * unat sz \<le> unat (capacity v) * unat sz"
    using assms(2) by (intro mult_le_mono1) simp
  with assms show "construct_back sz v x = Inr (v\<lparr>elems := elems v @ [x]\<rparr>)"
    by (simp add: construct_back_def room_for_one_def sv_inv_def)
  from assms show "sv_inv N sz (v\<lparr>elems := elems v @ [x]\<rparr>)"
    by (simp add: sv_inv_def)
qed

lemma push_back_inv:
  assumes "sv_inv N sz v" and "push_back mal sz v x = Inr v'"
  shows "sv_inv N sz v' \<and> elems v' = elems v @ [x]"
proof (cases "length (elems v) = unat (capacity v)")
  case True
  with assms(2) obtain w where w: "grow mal sz v = Inr w" "construct_back sz w x = Inr v'"
    by (auto simp: push_back_def res_simps)
  from grow_inv [OF assms(1) w(1)] True
  have "sv_inv N sz w" "elems w = elems v" "length (elems w) < unat (capacity w)" by auto
  then show ?thesis using construct_back_inv [of N sz w x] w(2) by auto
next
  case False
  with assms have "length (elems v) < unat (capacity v)" by (auto simp: sv_inv_def)
  with assms False show ?thesis
    using construct_back_inv [of N sz v x] by (auto simp: push_back_def)
qed

lemma push_back_no_ub: "sv_inv N sz v \<Longrightarrow> push_back mal sz v x \<noteq> Inl UB"
proof -
  assume inv: "sv_inv N sz v"
  show ?thesis
  proof (cases "length (elems v) = unat (capacity v)")
    case True
    have "grow mal sz v \<noteq> Inl UB" by (simp add: grow_def Let_def fail_if_def)
    moreover have "construct_back sz w x \<noteq> Inl UB" if "grow mal sz v = Inr w" for w
      using construct_back_inv [of N sz w x] grow_inv [OF inv that] True by auto
    ultimately show ?thesis using True by (simp add: push_back_def kfd_try_no_ub)
  next
    case False
    with inv have "length (elems v) < unat (capacity v)" by (auto simp: sv_inv_def)
    with inv False show ?thesis by (simp add: push_back_def construct_back_inv [of N])
  qed
qed

lemma pop_back_inv:
  "sv_inv N sz v \<Longrightarrow> pop_back v = Inr v' \<Longrightarrow> sv_inv N sz v' \<and> elems v' = butlast (elems v)"
  by (auto simp: pop_back_def sv_inv_def res_simps)

lemma pop_front_inv:
  assumes "sv_inv N sz v" and "pop_front v = Inr v'"
  shows "sv_inv N sz v' \<and> elems v' = tl (elems v)"
  using assms
  by (auto simp: pop_front_def sv_inv_def res_simps butlast_erase_loop drop_Suc)

lemma reserve_inv:
  assumes "sv_inv N sz v" and "reserve mal sz v n = Inr v'" and "unat n * unat sz < 2 ^ 64"
  shows "sv_inv N sz v' \<and> elems v' = elems v \<and> n \<le> capacity v'"
  using assms
  by (auto simp: reserve_def sv_inv_def res_simps unat_mult_no_wrap word_le_nat_alt split: if_splits)

lemma resize_inv:
  assumes "sv_inv N sz v" and "resize mal sz d v n = Inr v'" and "unat n * unat sz < 2 ^ 64"
  shows "sv_inv N sz v' \<and> length (elems v') = unat n"
proof -
  from assms(2) obtain w where w: "(if n > capacity v then reserve mal sz v n else Inr v) = Inr w"
    and v': "v' = w\<lparr>elems := take (unat n) (elems w) @ replicate (unat n - length (elems w)) d\<rparr>"
    by (auto simp: resize_def res_simps Let_def)
  from w assms have "sv_inv N sz w \<and> n \<le> capacity w"
    using reserve_inv [OF assms(1) _ assms(3)] by (auto split: if_splits simp: not_less)
  then show ?thesis by (auto simp: sv_inv_def v' word_le_nat_alt)
qed

lemma sv_move_inv:
  "sv_inv N sz v \<Longrightarrow> sv_move N sz v = (a, b) \<Longrightarrow>
   sv_inv N sz a \<and> sv_inv N sz b \<and> elems a = elems v \<and> elems b = []"
  by (auto simp: sv_move_def sv_empty_def sv_inv_def unat_mult_no_wrap split: if_splits)

section \<open>The interface the clients use\<close>

text \<open>
  What a component that only appends relies on: a successful append keeps the invariant and adds
  the element at the end of the sequence, and an append never leaves defined behaviour.
\<close>

fun push_all :: "('v \<Rightarrow> 'a \<Rightarrow> 'v res) \<Rightarrow> 'v \<Rightarrow> 'a list \<Rightarrow> 'v res" where
  "push_all push v [] = Inr v"
| "push_all push v (x # xs) = kfd_try (push v x) (\<lambda>v'. push_all push v' xs)"

locale appendable =
  fixes push :: "'v \<Rightarrow> 'a \<Rightarrow> 'v res"
    and seq :: "'v \<Rightarrow> 'a list"
    and inv :: "'v \<Rightarrow> bool"
  assumes push_inv: "inv v \<Longrightarrow> push v x = Inr v' \<Longrightarrow> inv v'"
    and push_seq: "inv v \<Longrightarrow> push v x = Inr v' \<Longrightarrow> seq v' = seq v @ [x]"
    and push_defined: "inv v \<Longrightarrow> push v x \<noteq> Inl UB"
begin

lemma push_all_seq:
  "inv v \<Longrightarrow> push_all push v xs = Inr v' \<Longrightarrow> inv v' \<and> seq v' = seq v @ xs"
proof (induction xs arbitrary: v)
  case Nil
  then show ?case by simp
next
  case (Cons x xs)
  from Cons.prems(2) obtain w where w: "push v x = Inr w" "push_all push w xs = Inr v'"
    by (auto simp: res_simps)
  with Cons.IH [of w] Cons.prems(1) push_inv push_seq show ?case by fastforce
qed

lemma push_all_defined: "inv v \<Longrightarrow> push_all push v xs \<noteq> Inl UB"
proof (induction xs arbitrary: v)
  case Nil
  then show ?case by simp
next
  case (Cons x xs)
  show ?case
    unfolding push_all.simps
  proof (rule kfd_try_no_ub)
    show "push v x \<noteq> Inl UB" using Cons.prems by (rule push_defined)
    show "push_all push w xs \<noteq> Inl UB" if "push v x = Inr w" for w
      using Cons.IH push_inv [OF Cons.prems that] .
  qed
qed

end

interpretation sv: appendable "push_back mal sz" elems "sv_inv N sz" for mal N sz
  by unfold_locales (auto dest: push_back_inv push_back_no_ub)

text \<open>
  The view of a vector the other components take: its elements, and an oracle for whether the
  append at the current length gets its memory. Every append of the detailed vector is one of these.
\<close>

definition vec_push :: "(nat \<Rightarrow> bool) \<Rightarrow> 'a list \<Rightarrow> 'a \<Rightarrow> 'a list res" where
  "vec_push granted xs x = (if granted (length xs) then Inr (xs @ [x]) else Inl ENOMEM)"

lemma push_back_only_enomem:
  assumes "sv_inv N sz v" and "push_back mal sz v x = Inl e"
  shows "e = ENOMEM"
proof (cases "length (elems v) = unat (capacity v)")
  case True
  have "construct_back sz w x \<noteq> Inl e'" if "grow mal sz v = Inr w" for w e'
    using construct_back_inv [of N sz w x] grow_inv [OF assms(1) that] True by auto
  then show ?thesis
    using assms(2) True
    by (auto simp: push_back_def kfd_try_eq_Inl grow_def Let_def fail_if_eq_Inl)
next
  case False
  with assms(1) have "length (elems v) < unat (capacity v)" by (auto simp: sv_inv_def)
  with assms False show ?thesis by (simp add: push_back_def construct_back_inv [of N])
qed

lemma push_back_refines:
  assumes "sv_inv N sz v"
  shows "\<exists>granted. map_sum id elems (push_back mal sz v x) = vec_push granted (elems v) x"
proof (cases "push_back mal sz v x")
  case (Inl e)
  then show ?thesis using push_back_only_enomem [OF assms Inl]
    by (intro exI [of _ "\<lambda>_. False"]) (simp add: vec_push_def)
next
  case (Inr w)
  then show ?thesis using push_back_inv [OF assms Inr]
    by (intro exI [of _ "\<lambda>_. True"]) (simp add: vec_push_def)
qed

interpretation vec: appendable "vec_push granted" "\<lambda>xs. xs" "\<lambda>_. True" for granted
  by unfold_locales (auto simp: vec_push_def split: if_splits)

text \<open>
  \<^verbatim>\<open>reserve\<close> multiplies without the overflow check \<^verbatim>\<open>grow\<close> has: with elements of 16 bytes, a
  request for \<open>2^60 + 1\<close> of them is granted a buffer of 16 bytes and a capacity beyond it.
\<close>

lemma reserve_wraps:
  "reserve (\<lambda>_. True) 16 (sv_empty 0 16) (2 ^ 60 + 1)
   = Inr \<lparr>elems = ([] :: nat list), capacity = 2 ^ 60 + 1, is_inline = False, buf_bytes = 16\<rparr>"
proof -
  have "\<not> (2 ^ 60 + 1 :: u64) \<le> 0" "(2 ^ 60 + 1) * 16 = (16 :: u64)" by code_simp+
  then show ?thesis by (simp add: reserve_def sv_empty_def)
qed

end
