(* ===== verification/Pool_Allocator.thy ===== *)
theory Pool_Allocator
  imports Small_Vector
begin

text \<open>
  \<^verbatim>\<open>detail/pool_allocator\<close>: the first-fit free-list allocator the device carves its
  scratch memory from. Offsets and sizes are 64-bit words, as in the code; the lemmas read them as
  naturals. The operations run under the pool's mutex, so each is one atomic step of the pool
  (\<open>Futex_Mutex\<close> has the lock itself).
\<close>

section \<open>State and operations\<close>

record block =
  offset :: u64
  bsize :: u64

record pool =
  managed :: u64
  managed_size :: u64
  align :: u64
  free_list :: "block svec"

definition sizeof_Block :: u64 where "sizeof_Block = 16"
definition sizeof_Mutex :: u64 where "sizeof_Mutex = 4"

text \<open>\<^verbatim>\<open>Box<T>::create\<close>: only the outcome of the allocation matters here.\<close>

definition box_create :: "(u64 \<Rightarrow> bool) \<Rightarrow> u64 \<Rightarrow> unit res" where
  "box_create mal sz = fail_if (\<not> mal sz) ENOMEM (Inr ())"

definition pool_create :: "(u64 \<Rightarrow> bool) \<Rightarrow> u64 \<Rightarrow> u64 \<Rightarrow> u64 \<Rightarrow> pool res" where
  "pool_create mal base len alignment =
     fail_if (len = 0 \<or> alignment = 0) EINVAL
      (fail_if (\<not> has_single_bit alignment) EINVAL
       (fail_if (base mod alignment \<noteq> 0) EINVAL
        (kfd_try (push_back mal sizeof_Block (sv_empty 8 sizeof_Block) \<lparr>offset = 0, bsize = len\<rparr>)
         (\<lambda>blocks. kfd_check (box_create mal sizeof_Mutex)
           (Inr \<lparr>managed = base, managed_size = len, align = alignment, free_list = blocks\<rparr>)))))"

text \<open>The scan of \<^verbatim>\<open>allocate\<close>: the index of the first block that is large enough.\<close>

fun first_fit :: "u64 \<Rightarrow> block list \<Rightarrow> nat option" where
  "first_fit rounded [] = None"
| "first_fit rounded (b # bs) =
     (if bsize b < rounded then map_option Suc (first_fit rounded bs) else Some 0)"

definition carve :: "u64 \<Rightarrow> nat \<Rightarrow> block list \<Rightarrow> block list" where
  "carve rounded i bs =
     (let blk = bs ! i
      in if bsize blk = rounded then butlast (erase_loop i bs)
         else bs[i := blk\<lparr>offset := offset blk + rounded, bsize := bsize blk - rounded\<rparr>])"

definition allocate :: "pool \<Rightarrow> u64 \<Rightarrow> (u64 \<times> pool) res" where
  "allocate p len =
     fail_if (len = 0) EINVAL
      (let rounded = (len + align p - 1) AND NOT (align p - 1); bs = elems (free_list p)
       in case first_fit rounded bs of
            None \<Rightarrow> Inl ENOMEM
          | Some i \<Rightarrow>
              Inr (managed p + offset (bs ! i),
                   p\<lparr>free_list := (free_list p)\<lparr>elems := carve rounded i bs\<rparr>\<rparr>))"

text \<open>The steps of \<^verbatim>\<open>deallocate\<close>: the insertion point, and the two merges.\<close>

fun insert_pos :: "u64 \<Rightarrow> block list \<Rightarrow> nat" where
  "insert_pos off [] = 0"
| "insert_pos off (b # bs) = (if offset b < off then Suc (insert_pos off bs) else 0)"

definition coalesce_right :: "nat \<Rightarrow> block list \<Rightarrow> block list" where
  "coalesce_right pos bs =
     (if pos + 1 < length bs \<and> offset (bs ! pos) + bsize (bs ! pos) = offset (bs ! (pos + 1))
      then butlast (erase_loop (pos + 1)
             (bs[pos := (bs ! pos)\<lparr>bsize := bsize (bs ! pos) + bsize (bs ! (pos + 1))\<rparr>]))
      else bs)"

definition coalesce_left :: "nat \<Rightarrow> block list \<Rightarrow> block list" where
  "coalesce_left pos bs =
     (if pos > 0 \<and> offset (bs ! (pos - 1)) + bsize (bs ! (pos - 1)) = offset (bs ! pos)
      then butlast (erase_loop pos
             (bs[pos - 1 := (bs ! (pos - 1))\<lparr>bsize := bsize (bs ! (pos - 1)) + bsize (bs ! pos)\<rparr>]))
      else bs)"

definition deallocate :: "(u64 \<Rightarrow> bool) \<Rightarrow> pool \<Rightarrow> u64 \<Rightarrow> u64 \<Rightarrow> pool res" where
  "deallocate mal p ptr len =
     (if ptr = 0 \<or> len = 0 then Inr p
      else fail_if (ptr < managed p \<or> ptr \<ge> managed p + managed_size p) EINVAL
       (let off = ptr - managed p;
            rounded = (len + align p - 1) AND NOT (align p - 1);
            pos = insert_pos off (elems (free_list p))
        in kfd_try (emplace_back mal sizeof_Block (free_list p) \<lparr>offset = 0, bsize = 0\<rparr>)
          (\<lambda>(_, fl).
            let bs = shift_up_loop pos (length (elems fl) - 1) (elems fl);
                bs = bs[pos := \<lparr>offset = off, bsize = rounded\<rparr>];
                bs = coalesce_right pos bs;
                bs = coalesce_left pos bs
            in Inr (p\<lparr>free_list := fl\<lparr>elems := bs\<rparr>\<rparr>))))"

section \<open>The free set and the invariant\<close>

definition bstart :: "block \<Rightarrow> nat" where "bstart b = unat (offset b)"
definition bend :: "block \<Rightarrow> nat" where "bend b = unat (offset b) + unat (bsize b)"

definition blocks_free :: "block list \<Rightarrow> nat set" where
  "blocks_free bs = (\<Union>b\<in>set bs. {bstart b..<bend b})"

text \<open>
  The list is sorted with a gap between neighbours (so everything mergeable is merged), its blocks
  are non-empty, start at multiples of the alignment and lie inside the region.
\<close>

definition blocks_ok :: "nat \<Rightarrow> nat \<Rightarrow> block list \<Rightarrow> bool" where
  "blocks_ok a len bs \<longleftrightarrow> sorted_wrt (\<lambda>b c. bend b < bstart c) bs \<and>
     (\<forall>b\<in>set bs. bstart b < bend b \<and> bend b \<le> len \<and> a dvd bstart b)"

definition pool_inv :: "pool \<Rightarrow> bool" where
  "pool_inv p \<longleftrightarrow> sv_inv 8 sizeof_Block (free_list p) \<and>
     (\<exists>k<64. align p = 2 ^ k) \<and> managed p \<noteq> 0 \<and>
     unat (managed p) + unat (managed_size p) < 2 ^ 64 \<and>
     unat (align p) dvd unat (managed p) \<and>
     blocks_ok (unat (align p)) (unat (managed_size p)) (elems (free_list p))"

text \<open>The free addresses, and the bytes a request really takes.\<close>

definition pool_free :: "pool \<Rightarrow> nat set" where
  "pool_free p = (+) (unat (managed p)) ` blocks_free (elems (free_list p))"

definition pool_footprint :: "nat \<Rightarrow> u64 \<Rightarrow> nat" where
  "pool_footprint a n = round_up (unat n) a"

lemma blocks_free_simps [simp]:
  "blocks_free [] = {}"
  "blocks_free (b # bs) = {bstart b..<bend b} \<union> blocks_free bs"
  "blocks_free (xs @ ys) = blocks_free xs \<union> blocks_free ys"
  by (auto simp: blocks_free_def)

lemma bend_word: "bend b < 2 ^ 64 \<Longrightarrow> unat (offset b + bsize b) = bend b"
  by (simp add: bend_def unat_add_no_wrap)

text \<open>A run of free bytes lies inside one block, because neighbours do not touch.\<close>

lemma run_in_one_block:
  assumes ok: "blocks_ok a len bs" and run: "{s..<e} \<subseteq> blocks_free bs" and "s < e"
  shows "\<exists>b\<in>set bs. bstart b \<le> s \<and> e \<le> bend b"
proof -
  from run \<open>s < e\<close> obtain b where b: "b \<in> set bs" "bstart b \<le> s" "s < bend b"
    by (auto simp: blocks_free_def subset_iff)
  have "e \<le> bend b"
  proof (rule ccontr)
    assume "\<not> e \<le> bend b"
    with b run obtain c where c: "c \<in> set bs" "bstart c \<le> bend b" "bend b < bend c"
      by (auto simp: blocks_free_def subset_iff) (meson less_imp_le order.trans not_le)
    have "b = c \<or> bend b < bstart c \<or> bend c < bstart b"
      using ok b(1) c(1) unfolding blocks_ok_def sorted_wrt_iff_nth_less
      by (metis in_set_conv_nth nat_neq_iff)
    with b c show False by auto
  qed
  with b show ?thesis by blast
qed

section \<open>Allocation\<close>

lemma first_fit_Some:
  "first_fit r bs = Some i \<Longrightarrow> i < length bs \<and> r \<le> bsize (bs ! i)"
  by (induction bs arbitrary: i) (auto simp: not_less split: if_splits)

lemma first_fit_None: "first_fit r bs = None \<longleftrightarrow> (\<forall>b\<in>set bs. bsize b < r)"
  by (induction bs) (auto simp: not_less)

lemma carve_exact:
  "bsize b = r \<Longrightarrow> carve r (length us) (us @ b # vs) = us @ vs"
  by (simp add: carve_def butlast_erase_loop)

lemma carve_split:
  "bsize b \<noteq> r \<Longrightarrow> carve r (length us) (us @ b # vs) =
     us @ b\<lparr>offset := offset b + r, bsize := bsize b - r\<rparr> # vs"
  by (simp add: carve_def)

lemma carve_ok:
  assumes ok: "blocks_ok a len (us @ b # vs)" and len: "len < 2 ^ 64"
    and r: "r \<le> bsize b" "a dvd unat r" "0 < unat r"
  shows "blocks_ok a len (carve r (length us) (us @ b # vs))"
    and "blocks_free (carve r (length us) (us @ b # vs))
      = blocks_free (us @ b # vs) - {bstart b..<bstart b + unat r}"
proof -
  have fit: "bend b \<le> len" "a dvd bstart b" "bstart b < bend b"
    and lo: "\<forall>c\<in>set us. bend c < bstart b" and hi: "\<forall>c\<in>set vs. bend b < bstart c"
    using ok by (auto simp: blocks_ok_def sorted_wrt_append)
  have rb: "unat r \<le> unat (bsize b)" using r(1) by (simp add: word_le_nat_alt)
  have disj: "blocks_free us \<inter> {bstart b..<bend b} = {}" "blocks_free vs \<inter> {bstart b..<bend b} = {}"
    using lo hi by (fastforce simp: blocks_free_def)+
  show "blocks_ok a len (carve r (length us) (us @ b # vs))"
    and "blocks_free (carve r (length us) (us @ b # vs))
      = blocks_free (us @ b # vs) - {bstart b..<bstart b + unat r}"
  proof (atomize(full), cases "bsize b = r")
    case True
    then have "bstart b + unat r = bend b" by (simp add: bstart_def bend_def)
    moreover have "blocks_ok a len (us @ vs)"
      using ok by (auto simp: blocks_ok_def sorted_wrt_append)
    ultimately show "blocks_ok a len (carve r (length us) (us @ b # vs)) \<and>
        blocks_free (carve r (length us) (us @ b # vs))
      = blocks_free (us @ b # vs) - {bstart b..<bstart b + unat r}"
      using disj by (auto simp: carve_exact [OF True])
  next
    case False
    let ?b = "b\<lparr>offset := offset b + r, bsize := bsize b - r\<rparr>"
    have "unat r < unat (bsize b)"
      using rb False by (metis le_neq_implies_less unsigned_word_eqI)
    then have b': "bstart ?b = bstart b + unat r" "bend ?b = bend b" "bstart ?b < bend ?b"
      using fit(1) len by (auto simp: bstart_def bend_def unat_add_no_wrap unat_sub_no_wrap)
    have "blocks_ok a len (us @ ?b # vs)"
      using ok b' fit r(2) lo by (fastforce simp: blocks_ok_def sorted_wrt_append)
    moreover have "blocks_free (us @ ?b # vs)
      = blocks_free (us @ b # vs) - {bstart b..<bstart b + unat r}"
      using disj b' by auto
    ultimately show "blocks_ok a len (carve r (length us) (us @ b # vs)) \<and>
        blocks_free (carve r (length us) (us @ b # vs))
      = blocks_free (us @ b # vs) - {bstart b..<bstart b + unat r}"
      by (simp add: carve_split [OF False])
  qed
qed

text \<open>
  The size of a request after rounding, when adding the alignment does not wrap. (When it does,
  the request is rounded down to a small size: see \<open>allocate_wraps\<close>.)
\<close>

lemma rounded_size:
  assumes "align p = 2 ^ k" "k < 64" "unat n + unat (align p) \<le> 2 ^ 64"
  shows "unat ((n + align p - 1) AND NOT (align p - 1)) = round_up (unat n) (unat (align p))"
  using assms unat_align_up [of k n] by (simp add: align_up_def)

lemma pool_invE:
  assumes "pool_inv p"
  obtains k where "align p = 2 ^ k" "k < 64" "unat (align p) = 2 ^ k"
    "unat (managed p) + unat (managed_size p) < 2 ^ 64"
    "blocks_ok (unat (align p)) (unat (managed_size p)) (elems (free_list p))"
    "sv_inv 8 sizeof_Block (free_list p)" "managed p \<noteq> 0" "unat (align p) dvd unat (managed p)"
  using assms by (auto simp: pool_inv_def)

lemma allocate_spec:
  assumes inv: "pool_inv p" and nw: "unat n + unat (align p) \<le> 2 ^ 64"
    and res: "allocate p n = Inr (addr, p')"
  defines "r \<equiv> pool_footprint (unat (align p)) n"
  shows "pool_inv p' \<and> align p' = align p \<and> managed p' = managed p \<and>
     managed_size p' = managed_size p \<and>
     unat (align p) dvd unat addr \<and> {unat addr..<unat addr + r} \<subseteq> pool_free p \<and>
     pool_free p' = pool_free p - {unat addr..<unat addr + r} \<and> 0 < r"
proof -
  obtain k where k: "align p = 2 ^ k" "k < 64" and mem: "unat (managed p) + unat (managed_size p) < 2 ^ 64"
    and ok: "blocks_ok (unat (align p)) (unat (managed_size p)) (elems (free_list p))"
    and sv: "sv_inv 8 sizeof_Block (free_list p)"
    and base: "managed p \<noteq> 0" "unat (align p) dvd unat (managed p)"
    using inv by (rule pool_invE)
  define bs where "bs = elems (free_list p)"
  define rr where "rr = (n + align p - 1) AND NOT (align p - 1)"
  have rr: "unat rr = r"
    unfolding rr_def r_def pool_footprint_def by (rule rounded_size [OF k nw])
  from res obtain i where n: "n \<noteq> 0" and i: "first_fit rr bs = Some i"
    and addr: "addr = managed p + offset (bs ! i)"
    and p': "p' = p\<lparr>free_list := (free_list p)\<lparr>elems := carve rr i bs\<rparr>\<rparr>"
    by (auto simp: allocate_def res_simps Let_def bs_def rr_def split: option.splits)
  have ap: "0 < unat (align p)" using k by simp
  have r0: "0 < r"
    using n ap unfolding r_def pool_footprint_def by (intro round_up_pos) (simp_all add: unat_gt_0)
  obtain us b vs where split: "bs = us @ b # vs" and len: "i = length us"
    using first_fit_Some [OF i] by (metis id_take_nth_drop length_take less_imp_le min.absorb2)
  have bi: "bs ! i = b" by (simp add: split len)
  have rb: "rr \<le> bsize b" using first_fit_Some [OF i] by (simp add: bi)
  have dv: "unat (align p) dvd unat rr" by (simp add: rr r_def pool_footprint_def)
  have okb: "blocks_ok (unat (align p)) (unat (managed_size p)) (us @ b # vs)"
    using ok by (simp add: bs_def [symmetric] split)
  have car: "blocks_ok (unat (align p)) (unat (managed_size p)) (carve rr i bs)"
    "blocks_free (carve rr i bs) = blocks_free bs - {bstart b..<bstart b + r}"
    unfolding split len rr [symmetric]
    by (rule carve_ok [OF okb unat64_less rb dv]; use r0 rr in simp)+
  have inb: "bend b \<le> unat (managed_size p)" "unat (align p) dvd bstart b"
    using okb by (auto simp: blocks_ok_def)
  have ua: "unat addr = unat (managed p) + bstart b"
    using mem inb(1) unfolding addr bi bstart_def bend_def
    by (intro unat_add_no_wrap) simp
  have within: "bstart b + r \<le> bend b"
    using rb rr by (simp add: bstart_def bend_def word_le_nat_alt)
  have "length (carve rr i bs) \<le> length bs"
    using first_fit_Some [OF i] by (auto simp: carve_def Let_def butlast_erase_loop)
  then have "sv_inv 8 sizeof_Block ((free_list p)\<lparr>elems := carve rr i bs\<rparr>)"
    using sv by (auto simp: sv_inv_def bs_def)
  then have "pool_inv p'"
    using inv car(1) by (auto simp: pool_inv_def p')
  moreover have "pool_free p' = pool_free p - {unat addr..<unat addr + r}"
    unfolding pool_free_def p' by (simp add: car(2) ua bs_def [symmetric] image_set_diff ac_simps)
  moreover have "{unat addr..<unat addr + r} \<subseteq> pool_free p"
    using within unfolding pool_free_def bs_def [symmetric] split ua
    by (simp add: image_Un) (fastforce simp: image_iff intro: le_add_diff_inverse [symmetric])
  ultimately show ?thesis
    using base(2) inb(2) r0 by (simp add: ua p')
qed

text \<open>
  C2. Out of memory is reported exactly when there is no run of free bytes as long as the rounded
  request: because releases merge neighbours, fragmentation of the list alone never fails a request.
\<close>

theorem allocate_complete:
  assumes inv: "pool_inv p" and nw: "unat n + unat (align p) \<le> 2 ^ 64" and n: "n \<noteq> 0"
  shows "allocate p n = Inl ENOMEM \<longleftrightarrow>
     \<not> (\<exists>a. {a..<a + pool_footprint (unat (align p)) n} \<subseteq> pool_free p)"
proof -
  obtain k where k: "align p = 2 ^ k" "k < 64"
    and ok: "blocks_ok (unat (align p)) (unat (managed_size p)) (elems (free_list p))"
    using inv by (rule pool_invE)
  define r where "r = pool_footprint (unat (align p)) n"
  define rr where "rr = (n + align p - 1) AND NOT (align p - 1)"
  have rr: "unat rr = r"
    unfolding rr_def r_def pool_footprint_def by (rule rounded_size [OF k nw])
  have "0 < r"
    using n k unfolding r_def pool_footprint_def by (intro round_up_pos) (simp_all add: unat_gt_0)
  have "allocate p n = Inl ENOMEM \<longleftrightarrow> (\<forall>b\<in>set (elems (free_list p)). bsize b < rr)"
    using n by (auto simp: allocate_def Let_def rr_def [symmetric] first_fit_None [symmetric]
        split: option.splits)
  also have "\<dots> \<longleftrightarrow> \<not> (\<exists>s. {s..<s + r} \<subseteq> blocks_free (elems (free_list p)))"
  proof (intro iffI notI ballI)
    fix b assume none: "\<not> (\<exists>s. {s..<s + r} \<subseteq> blocks_free (elems (free_list p)))"
      and b: "b \<in> set (elems (free_list p))"
    show "bsize b < rr"
    proof (rule ccontr)
      assume "\<not> bsize b < rr"
      then have "bstart b + r \<le> bend b"
        using rr by (simp add: bstart_def bend_def word_le_nat_alt not_less)
      then have "{bstart b..<bstart b + r} \<subseteq> blocks_free (elems (free_list p))"
        using b by (auto simp: blocks_free_def)
      with none show False by blast
    qed
  next
    assume small: "\<forall>b\<in>set (elems (free_list p)). bsize b < rr"
      and "\<exists>s. {s..<s + r} \<subseteq> blocks_free (elems (free_list p))"
    then obtain s b where "b \<in> set (elems (free_list p))" "bstart b \<le> s" "s + r \<le> bend b"
      using run_in_one_block [OF ok] \<open>0 < r\<close> by (metis less_add_same_cancel1)
    with small rr show False by (fastforce simp: bstart_def bend_def word_less_nat_alt)
  qed
  also have "(\<exists>s. {s..<s + r} \<subseteq> blocks_free (elems (free_list p))) \<longleftrightarrow>
     (\<exists>a. {a..<a + r} \<subseteq> pool_free p)"
  proof
    assume "\<exists>s. {s..<s + r} \<subseteq> blocks_free (elems (free_list p))"
    then obtain s where "{s..<s + r} \<subseteq> blocks_free (elems (free_list p))" by blast
    then have "(+) (unat (managed p)) ` {s..<s + r} \<subseteq> pool_free p"
      unfolding pool_free_def by (rule image_mono)
    then have "{unat (managed p) + s..<unat (managed p) + s + r} \<subseteq> pool_free p"
      by (simp add: ac_simps)
    then show "\<exists>a. {a..<a + r} \<subseteq> pool_free p" by blast
  next
    assume "\<exists>a. {a..<a + r} \<subseteq> pool_free p"
    then obtain a where a: "{a..<a + r} \<subseteq> pool_free p" by blast
    then have "a \<in> pool_free p" using \<open>0 < r\<close> by (auto simp: subset_iff)
    then obtain s where s: "a = unat (managed p) + s" by (auto simp: pool_free_def)
    have "(+) (unat (managed p)) ` {s..<s + r} \<subseteq> pool_free p"
      using a by (simp add: s ac_simps)
    then have "{s..<s + r} \<subseteq> blocks_free (elems (free_list p))"
      unfolding pool_free_def by (simp only: inj_image_subset_iff inj_on_add)
    then show "\<exists>s. {s..<s + r} \<subseteq> blocks_free (elems (free_list p))" by blast
  qed
  finally show ?thesis by (simp add: r_def)
qed

section \<open>Deallocation\<close>

definition merge :: "block \<Rightarrow> block \<Rightarrow> block" where
  "merge b c = b\<lparr>bsize := bsize b + bsize c\<rparr>"

lemma insert_pos_split:
  assumes "us = takeWhile (\<lambda>b. offset b < off) bs" and "vs = dropWhile (\<lambda>b. offset b < off) bs"
  shows "insert_pos off bs = length us \<and> bs = us @ vs"
proof -
  have "insert_pos off bs = length (takeWhile (\<lambda>b. offset b < off) bs)"
    by (induction bs) auto
  then show ?thesis by (simp add: assms)
qed

lemma coalesce_right_eq:
  "coalesce_right (length us) (us @ [x]) = us @ [x]"
  "coalesce_right (length us) (us @ x # c # vs) =
     (if offset x + bsize x = offset c then us @ merge x c # vs else us @ x # c # vs)"
  by (simp_all add: coalesce_right_def merge_def nth_append list_update_append butlast_erase_loop)

lemma coalesce_left_eq:
  "coalesce_left 0 (x # vs) = x # vs"
  "coalesce_left (length (us @ [w])) ((us @ [w]) @ x # vs) =
     (if offset w + bsize w = offset x then us @ merge w x # vs else us @ w # x # vs)"
  by (simp_all add: coalesce_left_def merge_def nth_append list_update_append butlast_erase_loop)

lemma merge_bounds:
  assumes "bend b = bstart c" "bend c < 2 ^ 64"
  shows "bstart (merge b c) = bstart b" "bend (merge b c) = bend c"
proof -
  show "bstart (merge b c) = bstart b" by (simp add: merge_def bstart_def)
  have "unat (bsize b) + unat (bsize c) < 2 ^ 64"
    using assms by (simp add: bend_def bstart_def)
  then show "bend (merge b c) = bend c"
    using assms(1) by (simp add: merge_def bend_def bstart_def unat_add_no_wrap)
qed

lemma touch_iff:
  assumes "bend b < 2 ^ 64"
  shows "offset b + bsize b = offset c \<longleftrightarrow> bend b = bstart c"
  unfolding word_unat_eq_iff bend_word [OF assms] by (simp add: bstart_def)

text \<open>
  A block \<open>x\<close> that fits between \<open>us\<close> and \<open>vs\<close>, possibly touching either: one merge
  to the right leaves a gap on that side, the merge to the left the gap on the other.
\<close>

definition fits :: "nat \<Rightarrow> nat \<Rightarrow> block list \<Rightarrow> block \<Rightarrow> block list \<Rightarrow> bool" where
  "fits a len us x vs \<longleftrightarrow> blocks_ok a len (us @ vs) \<and>
     bstart x < bend x \<and> bend x \<le> len \<and> a dvd bstart x \<and>
     (\<forall>c\<in>set us. bend c \<le> bstart x) \<and> (\<forall>c\<in>set vs. bend x \<le> bstart c)"

lemma coalesce_right_fits:
  assumes fit: "fits a len us x vs" and len: "len < 2 ^ 64"
  obtains y ws where "coalesce_right (length us) (us @ x # vs) = us @ y # ws"
    "fits a len us y ws" "\<forall>c\<in>set ws. bend y < bstart c"
    "blocks_free (us @ y # ws) = blocks_free (us @ vs) \<union> {bstart x..<bend x}"
proof (cases vs)
  case Nil
  with fit show ?thesis
    by (intro that [of x "[]"]) (auto simp: coalesce_right_eq)
next
  case (Cons c cs)
  have ok: "blocks_ok a len (us @ c # cs)" and xc: "bend x \<le> bstart c" "bstart x < bend x"
    and x: "bend x \<le> len" "a dvd bstart x" "\<forall>d\<in>set us. bend d \<le> bstart x"
    using fit by (auto simp: fits_def Cons)
  have c: "bstart c < bend c" "bend c \<le> len" "\<forall>d\<in>set cs. bend c < bstart d"
    using ok by (auto simp: blocks_ok_def sorted_wrt_append)
  have touch: "offset x + bsize x = offset c \<longleftrightarrow> bend x = bstart c"
    using x(1) len by (intro touch_iff) simp
  show ?thesis
  proof (cases "bend x = bstart c")
    case True
    have m: "bstart (merge x c) = bstart x" "bend (merge x c) = bend c"
      using merge_bounds [OF True] c(2) len by auto
    have "blocks_ok a len (us @ cs)"
      using ok by (auto simp: blocks_ok_def sorted_wrt_append)
    then have "fits a len us (merge x c) cs"
      using c x xc True by (auto simp: fits_def m less_imp_le)
    then show ?thesis
      using True touch c xc m
      by (intro that [of "merge x c" cs]) (auto simp: Cons coalesce_right_eq)
  next
    case False
    with xc(1) c have "\<forall>d\<in>set (c # cs). bend x < bstart d" by force
    with False touch fit show ?thesis
      by (intro that [of x vs]) (auto simp: Cons coalesce_right_eq)
  qed
qed

lemma coalesce_left_fits:
  assumes fit: "fits a len us x vs" and len: "len < 2 ^ 64" and gap: "\<forall>c\<in>set vs. bend x < bstart c"
  shows "blocks_ok a len (coalesce_left (length us) (us @ x # vs)) \<and>
     blocks_free (coalesce_left (length us) (us @ x # vs)) = blocks_free (us @ x # vs)"
proof (cases us rule: rev_cases)
  case Nil
  with fit gap show ?thesis by (auto simp: coalesce_left_eq fits_def blocks_ok_def)
next
  case (snoc ws w)
  have ok: "blocks_ok a len (ws @ w # vs)" and wx: "bend w \<le> bstart x" "bstart x < bend x"
    and x: "bend x \<le> len" "a dvd bstart x"
    using fit by (auto simp: fits_def snoc)
  have w: "bstart w < bend w" "bend w \<le> len" "a dvd bstart w" "\<forall>d\<in>set ws. bend d < bstart w"
    using ok by (auto simp: blocks_ok_def sorted_wrt_append)
  have touch: "offset w + bsize w = offset x \<longleftrightarrow> bend w = bstart x"
    using w(2) len by (intro touch_iff) simp
  show ?thesis
  proof (cases "bend w = bstart x")
    case True
    have m: "bstart (merge w x) = bstart w" "bend (merge w x) = bend x"
      using merge_bounds [OF True] x(1) len by auto
    have "blocks_ok a len (ws @ merge w x # vs)"
      using ok gap w x wx True by (auto simp: blocks_ok_def sorted_wrt_append m)
    moreover have "blocks_free (ws @ merge w x # vs) = blocks_free (us @ x # vs)"
      using True w wx m by (auto simp: snoc)
    ultimately show ?thesis using True touch coalesce_left_eq(2) [of ws w x vs] by (simp add: snoc)
  next
    case False
    with wx(1) w have "\<forall>d\<in>set (ws @ [w]). bend d < bstart x" by force
    then have "blocks_ok a len (us @ x # vs)"
      using fit gap by (auto simp: fits_def blocks_ok_def sorted_wrt_append snoc)
    with False touch coalesce_left_eq(2) [of ws w x vs] show ?thesis by (simp add: snoc)
  qed
qed

text \<open>The list \<open>deallocate\<close> leaves, as a function of the list before.\<close>

definition release_list :: "u64 \<Rightarrow> u64 \<Rightarrow> block list \<Rightarrow> block list" where
  "release_list off rounded bs =
     (let pos = insert_pos off bs
      in coalesce_left pos (coalesce_right pos
           (take pos bs @ \<lparr>offset = off, bsize = rounded\<rparr> # drop pos bs)))"

lemma deallocate_eq:
  assumes "sv_inv 8 sizeof_Block (free_list p)" and "\<not> (a = 0 \<or> n = 0)"
    and "\<not> (a < managed p \<or> a \<ge> managed p + managed_size p)"
  shows "deallocate mal p a n = Inr p' \<longleftrightarrow>
    (\<exists>fl. push_back mal sizeof_Block (free_list p) \<lparr>offset = 0, bsize = 0\<rparr> = Inr fl \<and>
      p' = p\<lparr>free_list := fl\<lparr>elems := release_list (a - managed p)
             ((n + align p - 1) AND NOT (align p - 1)) (elems (free_list p))\<rparr>\<rparr>)"
proof -
  have le: "insert_pos off bs \<le> length bs" for off bs
    by (induction bs) auto
  show ?thesis
    using assms(2,3) push_back_inv [OF assms(1)]
    by (auto simp: deallocate_def emplace_back_def res_simps Let_def release_list_def
        shift_up_loop_insert [OF le])
qed

lemma release_list_ok:
  assumes ok: "blocks_ok a len bs" and len: "len < 2 ^ 64"
    and r: "0 < unat r" and inside: "unat off + unat r \<le> len" and al: "a dvd unat off"
    and free: "{unat off..<unat off + unat r} \<inter> blocks_free bs = {}"
  shows "blocks_ok a len (release_list off r bs) \<and>
     blocks_free (release_list off r bs) = blocks_free bs \<union> {unat off..<unat off + unat r}"
proof -
  let ?x = "\<lparr>offset = off, bsize = r\<rparr>"
  define us where "us = takeWhile (\<lambda>b. offset b < off) bs"
  define vs where "vs = dropWhile (\<lambda>b. offset b < off) bs"
  have pos: "insert_pos off bs = length us" and bs: "bs = us @ vs"
    using insert_pos_split [OF us_def vs_def] by auto
  have x: "bstart ?x = unat off" "bend ?x = unat off + unat r"
    by (simp_all add: bstart_def bend_def)
  have blk: "bstart c < bend c \<and> {unat off..<unat off + unat r} \<inter> {bstart c..<bend c} = {}"
    if "c \<in> set bs" for c
    using ok free that unfolding blocks_ok_def blocks_free_def by blast
  have "bend c \<le> bstart ?x" if "c \<in> set us" for c
  proof -
    have "bstart c < unat off" "c \<in> set bs"
      using that by (auto simp: us_def bstart_def word_less_nat_alt dest: set_takeWhileD)
    then show ?thesis using blk [of c] r by (auto simp: x disjoint_iff not_le)
  qed
  moreover have "bend ?x \<le> bstart c" if "c \<in> set vs" for c
  proof -
    have "unat off \<le> bstart c"
    proof (cases vs)
      case Nil with that show ?thesis by simp
    next
      case (Cons d ds)
      then have "\<not> offset d < off"
        unfolding vs_def by (metis dropWhile_eq_Cons_conv)
      then have "unat off \<le> bstart d" by (simp add: bstart_def word_less_nat_alt)
      moreover have "c = d \<or> bend d < bstart c" "bstart d < bend d"
        using that ok by (auto simp: Cons bs blocks_ok_def sorted_wrt_append)
      ultimately show ?thesis by auto
    qed
    moreover have "c \<in> set bs" using that by (simp add: bs)
    ultimately show ?thesis using blk [of c] by (auto simp: x disjoint_iff not_le)
  qed
  ultimately have "fits a len us ?x vs"
    using ok r inside al by (auto simp: fits_def bs x)
  then obtain y ws where y: "coalesce_right (length us) (us @ ?x # vs) = us @ y # ws"
    "fits a len us y ws" "\<forall>c\<in>set ws. bend y < bstart c"
    "blocks_free (us @ y # ws) = blocks_free (us @ vs) \<union> {bstart ?x..<bend ?x}"
    by (rule coalesce_right_fits [OF _ len])
  have "release_list off r bs = coalesce_left (length us) (us @ y # ws)"
    using y(1) pos by (simp add: release_list_def bs)
  then show ?thesis
    using coalesce_left_fits [OF y(2) len y(3)] y(4) by (simp add: bs x)
qed

lemma length_release_list: "length (release_list off r bs) \<le> Suc (length bs)"
proof -
  have "insert_pos off bs \<le> length bs"
    by (induction bs) auto
  then have "length (take (insert_pos off bs) bs @ x # drop (insert_pos off bs) bs) = Suc (length bs)"
    for x by simp
  moreover have "length (coalesce_right pos cs) \<le> length cs" for pos cs
    by (auto simp: coalesce_right_def butlast_erase_loop)
  moreover have "length (coalesce_left pos cs) \<le> length cs" if "pos < length cs \<or> pos = 0" for pos cs
    using that by (auto simp: coalesce_left_def butlast_erase_loop)
  moreover have "pos < length (coalesce_right pos cs)" if "pos < length cs" for pos cs
    using that by (auto simp: coalesce_right_def butlast_erase_loop)
  ultimately show ?thesis
    unfolding release_list_def Let_def
    by (metis \<open>insert_pos off bs \<le> length bs\<close> le_imp_less_Suc le_trans)
qed

lemma deallocate_spec:
  assumes inv: "pool_inv p" and nw: "unat n + unat (align p) \<le> 2 ^ 64" and n: "n \<noteq> 0"
    and al: "unat (align p) dvd unat a"
    and inside: "unat (managed p) \<le> unat a"
      "unat a + pool_footprint (unat (align p)) n \<le> unat (managed p) + unat (managed_size p)"
    and used: "{unat a..<unat a + pool_footprint (unat (align p)) n} \<inter> pool_free p = {}"
    and res: "deallocate mal p a n = Inr p'"
  shows "pool_inv p' \<and> align p' = align p \<and> managed p' = managed p \<and>
     managed_size p' = managed_size p \<and>
     pool_free p' = pool_free p \<union> {unat a..<unat a + pool_footprint (unat (align p)) n}"
proof -
  obtain k where k: "align p = 2 ^ k" "k < 64" and mem: "unat (managed p) + unat (managed_size p) < 2 ^ 64"
    and ok: "blocks_ok (unat (align p)) (unat (managed_size p)) (elems (free_list p))"
    and sv: "sv_inv 8 sizeof_Block (free_list p)"
    and base: "managed p \<noteq> 0" "unat (align p) dvd unat (managed p)"
    using inv by (rule pool_invE)
  define r where "r = pool_footprint (unat (align p)) n"
  define rr where "rr = (n + align p - 1) AND NOT (align p - 1)"
  have rr: "unat rr = r"
    unfolding rr_def r_def pool_footprint_def by (rule rounded_size [OF k nw])
  have r0: "0 < r"
    using n k unfolding r_def pool_footprint_def by (intro round_up_pos) (simp_all add: unat_gt_0)
  have off: "unat (a - managed p) = unat a - unat (managed p)"
    using inside(1) by (rule unat_sub_no_wrap)
  have "a \<noteq> 0" using inside(1) base(1) by (auto simp: unat_eq_0)
  moreover have "\<not> (a < managed p \<or> a \<ge> managed p + managed_size p)"
    using inside mem r0 by (simp add: word_less_nat_alt word_le_nat_alt unat_add_no_wrap r_def)
  ultimately obtain fl where
    fl: "push_back mal sizeof_Block (free_list p) \<lparr>offset = 0, bsize = 0\<rparr> = Inr fl"
    and p': "p' = p\<lparr>free_list := fl\<lparr>elems := release_list (a - managed p) rr (elems (free_list p))\<rparr>\<rparr>"
    using res n by (auto simp: deallocate_eq [OF sv] rr_def)
  have free: "{unat (a - managed p)..<unat (a - managed p) + unat rr} \<inter> blocks_free (elems (free_list p)) = {}"
  proof -
    have "(+) (unat (managed p)) ` {unat (a - managed p)..<unat (a - managed p) + r}
        = {unat a..<unat a + r}"
      using inside(1) by (simp add: off)
    then have "(+) (unat (managed p)) ` {unat (a - managed p)..<unat (a - managed p) + r}
        \<inter> (+) (unat (managed p)) ` blocks_free (elems (free_list p)) = {}"
      using used by (simp add: r_def pool_free_def)
    then have "(+) (unat (managed p)) ` ({unat (a - managed p)..<unat (a - managed p) + r}
        \<inter> blocks_free (elems (free_list p))) = {}"
      by (simp only: image_Int [OF inj_on_add])
    then show ?thesis by (simp only: image_is_empty rr)
  qed
  have "unat (align p) dvd unat (a - managed p)"
    using al base(2) by (simp add: off dvd_diff_nat)
  then have rel: "blocks_ok (unat (align p)) (unat (managed_size p))
       (release_list (a - managed p) rr (elems (free_list p)))"
    "blocks_free (release_list (a - managed p) rr (elems (free_list p)))
      = blocks_free (elems (free_list p)) \<union> {unat (a - managed p)..<unat (a - managed p) + r}"
    using release_list_ok [OF ok unat64_less _ _ _ free] inside r0 by (auto simp: rr off r_def)
  have "length (elems fl) \<le> unat (capacity fl)" "length (elems fl) = Suc (length (elems (free_list p)))"
    and sv': "sv_inv 8 sizeof_Block fl"
    using push_back_inv [OF sv fl] by (auto simp: sv_inv_def)
  then have "sv_inv 8 sizeof_Block (free_list p')"
    using length_release_list [of "a - managed p" rr "elems (free_list p)"]
    by (auto simp: p' sv_inv_def)
  then have "pool_inv p'"
    using inv rel(1) by (auto simp: pool_inv_def p')
  moreover have "pool_free p' = pool_free p \<union> {unat a..<unat a + r}"
    using inside(1) by (simp add: pool_free_def p' rel(2) image_Un off)
  ultimately show ?thesis by (simp add: p' r_def)
qed

section \<open>Creation, canonical form\<close>

lemma pool_create_inv:
  assumes "pool_create mal base n a = Inr p" and "base \<noteq> 0" and "unat base + unat n < 2 ^ 64"
  shows "pool_inv p \<and> pool_free p = {unat base..<unat base + unat n} \<and>
     managed p = base \<and> managed_size p = n \<and> align p = a"
proof -
  from assms(1) obtain v where n: "n \<noteq> 0" and a: "has_single_bit a" "base mod a = 0"
    and v: "push_back mal sizeof_Block (sv_empty 8 sizeof_Block) \<lparr>offset = 0, bsize = n\<rparr> = Inr v"
    and p: "p = \<lparr>managed = base, managed_size = n, align = a, free_list = v\<rparr>"
    by (auto simp: pool_create_def res_simps)
  obtain k where "k < 64" "a = 2 ^ k"
    using has_single_bit_pow [OF a(1)] by auto
  moreover have "sv_inv 8 sizeof_Block v \<and> elems v = [\<lparr>offset = 0, bsize = n\<rparr>]"
    using push_back_inv [OF sv_inv_empty v] by (simp add: sizeof_Block_def sv_empty_def)
  moreover have "unat a dvd unat base"
    using a(2) by (metis dvd_eq_mod_eq_0 unat_0 unat_mod_distrib)
  ultimately show ?thesis
    using assms n
    by (auto simp: pool_inv_def p pool_free_def blocks_ok_def bstart_def bend_def unat_gt_0)
qed

lemma block_eqI:
  fixes b c :: block
  shows "bstart b = bstart c \<Longrightarrow> bend b = bend c \<Longrightarrow> b = c"
  by (simp add: bstart_def bend_def word_unat_eq_iff)

lemma blocks_free_ge: "blocks_ok a len (b # bs) \<Longrightarrow> x \<in> blocks_free bs \<Longrightarrow> bend b < x"
  by (auto simp: blocks_ok_def blocks_free_def)

text \<open>The free set determines the list: the representation is canonical.\<close>

lemma blocks_canonical:
  "blocks_ok a len xs \<Longrightarrow> blocks_ok a len ys \<Longrightarrow> blocks_free xs = blocks_free ys \<Longrightarrow> xs = ys"
proof (induction xs arbitrary: ys)
  case Nil
  then show ?case
    by (cases ys) (auto simp: blocks_ok_def)
next
  case (Cons b bs)
  obtain c cs where ys: "ys = c # cs"
    using Cons.prems by (cases ys) (auto simp: blocks_ok_def)
  have b: "bstart b < bend b" and c: "bstart c < bend c"
    using Cons.prems by (auto simp: blocks_ok_def ys)
  note gb = blocks_free_ge [OF Cons.prems(1)]
  note gc = blocks_free_ge [OF Cons.prems(2) [unfolded ys]]
  have eq: "x \<in> {bstart b..<bend b} \<union> blocks_free bs \<longleftrightarrow> x \<in> {bstart c..<bend c} \<union> blocks_free cs" for x
    using Cons.prems(3) by (simp add: ys set_eq_iff)
  have s: "bstart b = bstart c"
    using eq [of "bstart b"] eq [of "bstart c"] b c gb [of "bstart c"] gc [of "bstart b"] by auto
  have e: "bend b = bend c"
  proof (rule linorder_cases)
    assume "bend b < bend c"
    then show ?thesis using eq [of "bend b"] gb [of "bend b"] s b by auto
  next
    assume "bend c < bend b"
    then show ?thesis using eq [of "bend c"] gc [of "bend c"] s c by auto
  qed
  have "x \<in> blocks_free bs \<longleftrightarrow> x \<in> blocks_free cs" for x
    using eq [of x] gb [of x] gc [of x] s e by auto
  then have "bs = cs"
    using Cons.prems(1,2) by (intro Cons.IH) (auto simp: blocks_ok_def ys)
  with block_eqI [OF s e] show ?case by (simp add: ys)
qed

lemma pool_canonical:
  assumes "pool_inv p" "pool_inv q" "managed p = managed q" "managed_size p = managed_size q"
    "align p = align q" "pool_free p = pool_free q"
  shows "elems (free_list p) = elems (free_list q)"
  using assms
  by (intro blocks_canonical [of "unat (align p)" "unat (managed_size p)"])
    (auto simp: pool_inv_def pool_free_def inj_image_eq_iff)

section \<open>The allocator interface and its clients\<close>

text \<open>
  What a client of an allocator relies on: the addresses handed out were free, are no longer free,
  and come back when released. \<open>fp n\<close> is the number of bytes a request of \<open>n\<close> takes,
  \<open>ok n\<close> that the request can be rounded.
\<close>

type_synonym 's alloc_state = "'s \<times> (u64 \<times> u64) set"

inductive client_step ::
    "('s \<Rightarrow> u64 \<Rightarrow> (u64 \<times> 's) res) \<Rightarrow> ('s \<Rightarrow> u64 \<Rightarrow> u64 \<Rightarrow> 's res) \<Rightarrow> (u64 \<Rightarrow> bool) \<Rightarrow>
     's alloc_state \<Rightarrow> 's alloc_state \<Rightarrow> bool"
  for alloc :: "'s \<Rightarrow> u64 \<Rightarrow> (u64 \<times> 's) res"
    and dealloc :: "'s \<Rightarrow> u64 \<Rightarrow> u64 \<Rightarrow> 's res" and ok :: "u64 \<Rightarrow> bool"
where
  client_alloc: "ok n \<Longrightarrow> alloc s n = Inr (a, s') \<Longrightarrow>
     client_step alloc dealloc ok (s, live) (s', insert (a, n) live)"
| client_free: "(a, n) \<in> live \<Longrightarrow> dealloc s a n = Inr s' \<Longrightarrow>
     client_step alloc dealloc ok (s, live) (s', live - {(a, n)})"

inductive_cases client_stepE: "client_step alloc dealloc ok s t"

definition claim_of :: "(u64 \<Rightarrow> nat) \<Rightarrow> u64 \<times> u64 \<Rightarrow> nat set" where
  "claim_of fp c = {unat (fst c)..<unat (fst c) + fp (snd c)}"

definition live_ok :: "(u64 \<Rightarrow> nat) \<Rightarrow> nat set \<Rightarrow> nat set \<Rightarrow> (u64 \<times> u64) set \<Rightarrow> bool" where
  "live_ok fp region free live \<longleftrightarrow> free \<inter> (\<Union>c\<in>live. claim_of fp c) = {} \<and>
     free \<union> (\<Union>c\<in>live. claim_of fp c) = region \<and>
     (\<forall>c\<in>live. \<forall>d\<in>live. c \<noteq> d \<longrightarrow> claim_of fp c \<inter> claim_of fp d = {})"

locale range_allocator =
  fixes alloc :: "'s \<Rightarrow> u64 \<Rightarrow> (u64 \<times> 's) res"
    and dealloc :: "'s \<Rightarrow> u64 \<Rightarrow> u64 \<Rightarrow> 's res"
    and ok :: "u64 \<Rightarrow> bool"
    and fp :: "u64 \<Rightarrow> nat"
    and free :: "'s \<Rightarrow> nat set"
    and region :: "nat set"
    and placed :: "u64 \<Rightarrow> bool"
    and inv :: "'s \<Rightarrow> bool"
  assumes alloc_law: "inv s \<Longrightarrow> ok n \<Longrightarrow> alloc s n = Inr (a, s') \<Longrightarrow>
      inv s' \<and> placed a \<and> 0 < fp n \<and> claim_of fp (a, n) \<subseteq> free s \<and>
      free s' = free s - claim_of fp (a, n)"
    and dealloc_law: "inv s \<Longrightarrow> ok n \<Longrightarrow> placed a \<Longrightarrow> claim_of fp (a, n) \<subseteq> region \<Longrightarrow>
      claim_of fp (a, n) \<inter> free s = {} \<Longrightarrow> dealloc s a n = Inr s' \<Longrightarrow>
      inv s' \<and> free s' = free s \<union> claim_of fp (a, n)"
begin

definition client_inv :: "'s alloc_state \<Rightarrow> bool" where
  "client_inv st \<longleftrightarrow> inv (fst st) \<and> live_ok fp region (free (fst st)) (snd st) \<and>
     (\<forall>c\<in>snd st. ok (snd c) \<and> placed (fst c))"

lemma client_step_inv:
  assumes "client_step alloc dealloc ok s t" and "client_inv s"
  shows "client_inv t"
  using assms
proof (induction rule: client_step.induct)
  case (client_alloc n s a s' live)
  have "inv s" and live: "live_ok fp region (free s) live"
    and c: "\<forall>c\<in>live. ok (snd c) \<and> placed (fst c)"
    using client_alloc.prems by (auto simp: client_inv_def)
  have a: "inv s'" "placed a" "claim_of fp (a, n) \<subseteq> free s" "free s' = free s - claim_of fp (a, n)"
    using alloc_law [OF \<open>inv s\<close> client_alloc.hyps] by auto
  have other: "claim_of fp d \<inter> claim_of fp (a, n) = {}" if "d \<in> live" for d
    using live a(3) that unfolding live_ok_def by blast
  have "(free s - claim_of fp (a, n)) \<inter> (\<Union>c\<in>insert (a, n) live. claim_of fp c) = {}"
    using live unfolding live_ok_def by auto
  moreover have "(free s - claim_of fp (a, n)) \<union> (\<Union>c\<in>insert (a, n) live. claim_of fp c) = region"
    using live a(3) unfolding live_ok_def by auto
  moreover have "\<forall>c\<in>insert (a, n) live. \<forall>d\<in>insert (a, n) live. c \<noteq> d \<longrightarrow>
      claim_of fp c \<inter> claim_of fp d = {}"
    using live other unfolding live_ok_def by (metis Int_commute insert_iff)
  ultimately have "live_ok fp region (free s') (insert (a, n) live)"
    unfolding live_ok_def a(4) by simp
  then show ?case
    using a(1,2) c client_alloc.hyps(1) by (simp add: client_inv_def)
next
  case (client_free a n live s s')
  have "inv s" and live: "live_ok fp region (free s) live" and c: "ok n" "placed a"
    and cs: "\<forall>c\<in>live. ok (snd c) \<and> placed (fst c)"
    using client_free by (auto simp: client_inv_def)
  have cl: "claim_of fp (a, n) \<subseteq> region" "claim_of fp (a, n) \<inter> free s = {}"
    using live client_free.hyps(1) by (auto simp: live_ok_def)
  have fr: "inv s'" "free s' = free s \<union> claim_of fp (a, n)"
    using dealloc_law [OF \<open>inv s\<close> c cl client_free.hyps(2)] by auto
  have other: "claim_of fp d \<inter> claim_of fp (a, n) = {}" if "d \<in> live - {(a, n)}" for d
    using live client_free.hyps(1) that unfolding live_ok_def by blast
  have "live_ok fp region (free s') (live - {(a, n)})"
    using live client_free.hyps(1) other unfolding live_ok_def fr by blast
  then show ?case using fr(1) cs by (auto simp: client_inv_def)
qed

lemma client_run_inv:
  "(client_step alloc dealloc ok)\<^sup>*\<^sup>* s t \<Longrightarrow> client_inv s \<Longrightarrow> client_inv t"
  by (induction rule: rtranclp_induct) (auto intro: client_step_inv)

end

definition pool_request :: "u64 \<Rightarrow> u64 \<Rightarrow> bool" where
  "pool_request a n \<longleftrightarrow> n \<noteq> 0 \<and> unat n + unat a \<le> 2 ^ 64"

definition pool_at :: "u64 \<Rightarrow> u64 \<Rightarrow> u64 \<Rightarrow> pool \<Rightarrow> bool" where
  "pool_at base n a p \<longleftrightarrow> pool_inv p \<and> managed p = base \<and> managed_size p = n \<and> align p = a"

interpretation va: range_allocator allocate "deallocate mal" "pool_request a"
    "pool_footprint (unat a)" pool_free "{unat base..<unat base + unat n}"
    "\<lambda>x. unat a dvd unat x" "pool_at base n a"
  for mal base n a
proof
  fix s k x s'
  assume "pool_at base n a s" "pool_request a k" "allocate s k = Inr (x, s')"
  then show "pool_at base n a s' \<and> unat a dvd unat x \<and> 0 < pool_footprint (unat a) k \<and>
      claim_of (pool_footprint (unat a)) (x, k) \<subseteq> pool_free s \<and>
      pool_free s' = pool_free s - claim_of (pool_footprint (unat a)) (x, k)"
    using allocate_spec [of s k x s']
    by (auto simp: pool_at_def pool_request_def claim_of_def)
next
  fix s k x s'
  assume s: "pool_at base n a s" "pool_request a k" "unat a dvd unat x"
    and sub: "claim_of (pool_footprint (unat a)) (x, k) \<subseteq> {unat base..<unat base + unat n}"
    and used: "claim_of (pool_footprint (unat a)) (x, k) \<inter> pool_free s = {}"
    and res: "deallocate mal s x k = Inr s'"
  from s obtain i where "a = 2 ^ i" "i < 64"
    by (auto simp: pool_at_def elim: pool_invE)
  then have "0 < pool_footprint (unat a) k"
    using s(2) unfolding pool_footprint_def pool_request_def
    by (intro round_up_pos) (simp_all add: unat_gt_0)
  with sub have "unat base \<le> unat x \<and> unat x + pool_footprint (unat a) k \<le> unat base + unat n"
    by (simp add: claim_of_def ivl_subset)
  with s used res show "pool_at base n a s' \<and>
      pool_free s' = pool_free s \<union> claim_of (pool_footprint (unat a)) (x, k)"
    using deallocate_spec [of s k x mal s']
    by (auto simp: pool_at_def pool_request_def claim_of_def)
qed

section \<open>Properties\<close>

text \<open>
  C1. Whatever sequence of allocations and releases the users of a pool perform, the ranges that
  are live never overlap, all lie inside the managed region at aligned addresses, and the live and
  the free bytes together are always exactly the region: nothing is handed out twice and nothing
  is lost.
\<close>

theorem pool_clients_never_overlap:
  assumes "pool_create mal base n a = Inr p" and "base \<noteq> 0" and "unat base + unat n < 2 ^ 64"
    and "(client_step allocate (deallocate mal) (pool_request a))\<^sup>*\<^sup>* (p, {}) (q, live)"
  shows "pool_inv q \<and>
    (\<forall>c\<in>live. \<forall>d\<in>live. c \<noteq> d \<longrightarrow>
       claim_of (pool_footprint (unat a)) c \<inter> claim_of (pool_footprint (unat a)) d = {}) \<and>
    (\<forall>c\<in>live. unat a dvd unat (fst c)) \<and>
    pool_free q \<inter> (\<Union>c\<in>live. claim_of (pool_footprint (unat a)) c) = {} \<and>
    pool_free q \<union> (\<Union>c\<in>live. claim_of (pool_footprint (unat a)) c) = {unat base..<unat base + unat n}"
proof -
  have "va.client_inv a base n (p, {})"
    using pool_create_inv [OF assms(1-3)]
    by (auto simp: va.client_inv_def pool_at_def live_ok_def)
  then have "va.client_inv a base n (q, live)"
    by (rule va.client_run_inv [OF assms(4)])
  then show ?thesis
    unfolding va.client_inv_def live_ok_def pool_at_def by simp
qed

definition demo_pool :: pool where
  "demo_pool = \<lparr>managed = 0x10000, managed_size = 0x40000, align = 0x10000, free_list =
     \<lparr>elems = [\<lparr>offset = 0, bsize = 0x40000\<rparr>], capacity = 8, is_inline = True, buf_bytes = 128\<rparr>\<rparr>"

lemma demo_pool_create: "pool_create (\<lambda>_. True) 0x10000 0x40000 0x10000 = Inr demo_pool"
  by code_simp

lemma demo_pool_allocate:
  obtains q where "allocate demo_pool 0x8000 = Inr (0x10000, q)"
proof -
  have "map_sum id fst (allocate demo_pool 0x8000) = Inr 0x10000"
    by code_simp
  then show ?thesis using that by (cases "allocate demo_pool 0x8000") auto
qed

lemma pool_clients_never_overlap_witness:
  "\<exists>q live. (client_step allocate (deallocate (\<lambda>_. True)) (pool_request 0x10000))\<^sup>*\<^sup>*
       (demo_pool, {}) (q, live) \<and> live = {(0x10000, 0x8000)} \<and> pool_inv q \<and>
     pool_free q \<inter> claim_of (pool_footprint 0x10000) (0x10000, 0x8000) = {}"
proof -
  obtain q where q: "allocate demo_pool 0x8000 = Inr (0x10000, q)"
    by (rule demo_pool_allocate)
  have "client_step allocate (deallocate (\<lambda>_. True)) (pool_request 0x10000)
      (demo_pool, {}) (q, insert (0x10000, 0x8000) {})"
    by (intro client_alloc q) (simp add: pool_request_def)
  then have run: "(client_step allocate (deallocate (\<lambda>_. True)) (pool_request 0x10000))\<^sup>*\<^sup>*
      (demo_pool, {}) (q, {(0x10000, 0x8000)})" by blast
  with pool_clients_never_overlap [OF demo_pool_create _ _ run] show ?thesis by auto
qed

lemma demo_pool_inv: "pool_inv demo_pool \<and> align demo_pool = 0x10000 \<and>
    pool_free demo_pool = {0x10000..<0x50000} \<and> managed demo_pool = 0x10000 \<and>
    managed_size demo_pool = 0x40000"
  using pool_create_inv [OF demo_pool_create] by simp

lemma allocate_complete_witness: "allocate demo_pool 0x50000 = Inl ENOMEM"
proof -
  have "allocate demo_pool 0x50000 = Inl ENOMEM \<longleftrightarrow>
     \<not> (\<exists>a. {a..<a + pool_footprint (unat (align demo_pool)) 0x50000} \<subseteq> pool_free demo_pool)"
    using demo_pool_inv by (intro allocate_complete) auto
  moreover have "pool_footprint 0x10000 0x50000 = 0x50000"
    by (simp add: pool_footprint_def round_up_def)
  ultimately show ?thesis using demo_pool_inv by (simp add: atLeastLessThan_subset_iff)
qed

text \<open>
  C3. Releasing a block that was just allocated restores the free list exactly, block for block:
  the two merges undo whatever split the allocation made.
\<close>

theorem allocate_deallocate_restores:
  assumes inv: "pool_inv p" and nw: "unat n + unat (align p) \<le> 2 ^ 64"
    and alloc: "allocate p n = Inr (a, q)" and free: "deallocate mal q a n = Inr p'"
  shows "elems (free_list p') = elems (free_list p)"
proof -
  let ?c = "claim_of (pool_footprint (unat (align p))) (a, n)"
  have "n \<noteq> 0" using alloc by (auto simp: allocate_def res_simps)
  define A where "A = align p"
  define B where "B = managed p"
  define M where "M = managed_size p"
  have at: "pool_at B M A p" "pool_request A n"
    using inv nw \<open>n \<noteq> 0\<close> by (auto simp: pool_at_def pool_request_def A_def B_def M_def)
  have q: "pool_at B M A q" "unat A dvd unat a" "?c \<subseteq> pool_free p" "pool_free q = pool_free p - ?c"
    using va.alloc_law [OF at alloc] by (auto simp: A_def)
  have "pool_free p \<subseteq> {unat B..<unat B + unat M}"
    using inv by (auto simp: pool_inv_def pool_free_def blocks_ok_def blocks_free_def B_def M_def)
  with q(3) have "?c \<subseteq> {unat B..<unat B + unat M}" by blast
  then have "pool_at B M A p'" "pool_free p' = pool_free q \<union> ?c"
    using va.dealloc_law [OF q(1) at(2) q(2) _ _ free] q(4) by (auto simp: A_def)
  with at(1) q(3,4) show ?thesis
    by (intro pool_canonical) (auto simp: pool_at_def)
qed

lemma allocate_deallocate_restores_witness:
  "\<exists>q p'. allocate demo_pool 0x8000 = Inr (0x10000, q) \<and>
     deallocate (\<lambda>_. True) q 0x10000 0x8000 = Inr p' \<and>
     elems (free_list p') = [\<lparr>offset = 0, bsize = 0x40000\<rparr>]"
proof -
  have ev: "kfd_try (allocate demo_pool 0x8000) (\<lambda>(a, q).
     kfd_try (deallocate (\<lambda>_. True) q a 0x8000) (\<lambda>_. Inr a)) = Inr 0x10000"
    by code_simp
  then obtain q p' where q: "allocate demo_pool 0x8000 = Inr (0x10000, q)"
    "deallocate (\<lambda>_. True) q 0x10000 0x8000 = Inr p'"
    by (auto simp: kfd_try_eq_Inr)
  have "elems (free_list p') = elems (free_list demo_pool)"
    using demo_pool_inv by (intro allocate_deallocate_restores [OF _ _ q]) auto
  then show ?thesis using q by (auto simp: demo_pool_def)
qed

text \<open>
  The rounding wraps around: a request within one alignment of \<open>2 ^ 64\<close> rounds to zero
  bytes and succeeds, returning an address that is still free. C1 and C2 therefore ask for
  requests that can be rounded.
\<close>

lemma allocate_wraps:
  "map_sum id fst (allocate demo_pool (- 1)) = Inr 0x10000 \<and>
   map_sum id (\<lambda>(a, q). elems (free_list q)) (allocate demo_pool (- 1)) =
     Inr (elems (free_list demo_pool))"
  by code_simp

end
