(* ===== verification/Byte_Memory.thy ===== *)
theory Byte_Memory
  imports Kfd_Prelude
begin

text \<open>
  Objects as byte lists: the reads and copies the code does through pointers into a buffer. An
  access that does not lie inside the buffer is \<open>UB\<close>. Multi-byte integers are stored in the
  little-endian order of the hosts the library runs on.
\<close>

named_theorems mem_simps \<open>reads after writes\<close>

section \<open>Integers as bytes\<close>

definition le_bytes :: "nat \<Rightarrow> 'a::len word \<Rightarrow> bytes" where
  "le_bytes n w = map (\<lambda>i. ucast (drop_bit (8 * i) w)) [0..<n]"

fun le_word :: "bytes \<Rightarrow> 'a::len word" where
  "le_word [] = 0"
| "le_word (b # bs) = ucast b OR push_bit 8 (le_word bs)"

lemma length_le_bytes [simp]: "length (le_bytes n w) = n"
  by (simp add: le_bytes_def)

lemma bit_le_word:
  "bit (le_word bs :: 'a::len word) k \<longleftrightarrow>
     k < LENGTH('a) \<and> k div 8 < length bs \<and> bit (bs ! (k div 8)) (k mod 8)"
proof (induction bs arbitrary: k)
  case Nil
  then show ?case by simp
next
  case (Cons b bs)
  show ?case
  proof (cases "k < 8")
    case True
    then show ?thesis by (auto simp: bit_simps)
  next
    case False
    then have k: "k div 8 = Suc ((k - 8) div 8)" "k mod 8 = (k - 8) mod 8"
      by (simp_all add: le_div_geq le_mod_geq)
    have "\<not> bit b k" using False by (auto dest: bit_imp_le_length)
    then show ?thesis using False Cons.IH [of "k - 8"] k by (auto simp: bit_simps)
  qed
qed

lemma le_word_le_bytes [simp]:
  fixes w :: "'a::len word"
  assumes "LENGTH('a) \<le> 8 * n"
  shows "le_word (le_bytes n w) = w"
proof (rule bit_word_eqI)
  fix k assume k: "k < LENGTH('a)"
  then have "k div 8 < n" using assms by linarith
  moreover have "8 * (k div 8) + k mod 8 = k" by simp
  ultimately show "bit (le_word (le_bytes n w) :: 'a word) k = bit w k"
    using k by (simp add: bit_le_word le_bytes_def bit_simps)
qed

section \<open>Accesses\<close>

definition mem_read :: "bytes \<Rightarrow> nat \<Rightarrow> nat \<Rightarrow> bytes res" where
  "mem_read buf off n =
     (if off + n \<le> length buf then Inr (take n (drop off buf)) else Inl UB)"

definition mem_write :: "bytes \<Rightarrow> nat \<Rightarrow> bytes \<Rightarrow> bytes res" where
  "mem_write buf off bs =
     (if off + length bs \<le> length buf
      then Inr (take off buf @ bs @ drop (off + length bs) buf) else Inl UB)"

definition rd :: "nat \<Rightarrow> bytes \<Rightarrow> nat \<Rightarrow> 'a::len word res" where
  "rd n buf off = kfd_try (mem_read buf off n) (\<lambda>bs. Inr (le_word bs))"

text \<open>The same accesses as values, for states known to be in bounds.\<close>

definition peek :: "bytes \<Rightarrow> nat \<Rightarrow> nat \<Rightarrow> bytes" where
  "peek buf off n = take n (drop off buf)"

lemma mem_read_ok [mem_simps]: "off + n \<le> length buf \<Longrightarrow> mem_read buf off n = Inr (peek buf off n)"
  by (simp add: mem_read_def peek_def)

lemma rd_ok [mem_simps]: "off + n \<le> length buf \<Longrightarrow> rd n buf off = Inr (le_word (peek buf off n))"
  by (simp add: rd_def mem_read_ok)

lemma mem_write_length: "mem_write buf off bs = Inr buf' \<Longrightarrow> length buf' = length buf"
  by (auto simp: mem_write_def split: if_splits)

lemma mem_write_nth:
  assumes "mem_write buf off bs = Inr buf'" and "k < length buf"
  shows "buf' ! k = (if off \<le> k \<and> k < off + length bs then bs ! (k - off) else buf ! k)"
  using assms by (auto simp: mem_write_def nth_append not_less split: if_splits)

lemma length_peek [simp]: "off + n \<le> length buf \<Longrightarrow> length (peek buf off n) = n"
  by (simp add: peek_def)

lemma peek_nth: "off + n \<le> length buf \<Longrightarrow> k < n \<Longrightarrow> peek buf off n ! k = buf ! (off + k)"
  by (simp add: peek_def)

lemma peek_eqI:
  assumes "off + n \<le> length buf" and "length buf' = length buf"
    and "\<And>k. k < n \<Longrightarrow> buf' ! (off + k) = buf ! (off + k)"
  shows "peek buf' off n = peek buf off n"
  by (rule nth_equalityI) (use assms in \<open>auto simp: peek_nth\<close>)

lemma peek_written:
  assumes "mem_write buf off bs = Inr buf'" and "n = length bs"
  shows "peek buf' off n = bs"
proof (rule nth_equalityI)
  have le: "off + length bs \<le> length buf" and len: "length buf' = length buf"
    using assms by (auto simp: mem_write_def split: if_splits)
  then show "length (peek buf' off n) = length bs" using assms(2) by simp
  fix k assume "k < length (peek buf' off n)"
  then show "peek buf' off n ! k = bs ! k"
    using le len assms(2) mem_write_nth [OF assms(1), of "off + k"] by (simp add: peek_nth)
qed

lemma peek_elsewhere:
  assumes "mem_write buf off bs = Inr buf'" and "o' + n \<le> length buf"
    and "o' + n \<le> off \<or> off + length bs \<le> o'"
  shows "peek buf' o' n = peek buf o' n"
  using assms mem_write_length [OF assms(1)]
  by (intro peek_eqI) (auto simp: mem_write_nth [OF assms(1)])

text \<open>A sequence of stores into one buffer.\<close>

fun write_all :: "bytes \<Rightarrow> (nat \<times> bytes) list \<Rightarrow> bytes res" where
  "write_all buf [] = Inr buf"
| "write_all buf ((off, bs) # ws) = kfd_try (mem_write buf off bs) (\<lambda>buf'. write_all buf' ws)"

definition touches :: "nat \<times> bytes \<Rightarrow> nat \<Rightarrow> bool" where
  "touches w k \<longleftrightarrow> fst w \<le> k \<and> k < fst w + length (snd w)"

lemma write_all_length: "write_all buf ws = Inr buf' \<Longrightarrow> length buf' = length buf"
  by (induction ws arbitrary: buf) (auto simp: res_simps dest!: mem_write_length)

lemma write_all_defined:
  "\<forall>w\<in>set ws. fst w + length (snd w) \<le> length buf \<Longrightarrow> \<exists>buf'. write_all buf ws = Inr buf'"
proof (induction ws arbitrary: buf)
  case Nil
  then show ?case by simp
next
  case (Cons w ws)
  obtain b where b: "mem_write buf (fst w) (snd w) = Inr b"
    using Cons.prems by (auto simp: mem_write_def)
  with Cons mem_write_length [OF b] show ?case by (cases w) auto
qed

lemma write_all_untouched:
  "write_all buf ws = Inr buf' \<Longrightarrow> k < length buf \<Longrightarrow> \<forall>w\<in>set ws. \<not> touches w k \<Longrightarrow>
   buf' ! k = buf ! k"
proof (induction ws arbitrary: buf)
  case Nil
  then show ?case by simp
next
  case (Cons w ws)
  then obtain b where b: "mem_write buf (fst w) (snd w) = Inr b" "write_all b ws = Inr buf'"
    by (cases w) (auto simp: res_simps)
  have "buf' ! k = b ! k"
    using Cons b mem_write_length [OF b(1)] by (intro Cons.IH) auto
  also have "\<dots> = buf ! k"
    using Cons.prems mem_write_nth [OF b(1)] by (auto simp: touches_def)
  finally show ?case .
qed

lemma write_all_append:
  "write_all buf (ws @ vs) = kfd_try (write_all buf ws) (\<lambda>b. write_all b vs)"
  by (induction ws arbitrary: buf) (auto simp: kfd_try_def split: sum.splits)

text \<open>A store that no later store overlaps is what a later read finds.\<close>

lemma write_all_last:
  assumes "write_all buf (ws @ (off, bs) # vs) = Inr buf'"
    and "\<forall>v\<in>set vs. fst v + length (snd v) \<le> off \<or> off + length bs \<le> fst v"
  shows "peek buf' off (length bs) = bs"
proof -
  obtain b c where b: "write_all buf ws = Inr b" "mem_write b off bs = Inr c"
    and c: "write_all c vs = Inr buf'"
    using assms(1) by (auto simp: write_all_append res_simps)
  have le: "off + length bs \<le> length c"
    using b(2) by (auto simp: mem_write_def split: if_splits)
  have "peek buf' off (length bs) = peek c off (length bs)"
  proof (rule peek_eqI [OF le write_all_length [OF c]])
    fix k assume "k < length bs"
    then show "buf' ! (off + k) = c ! (off + k)"
      using assms(2) le by (intro write_all_untouched [OF c]) (auto simp: touches_def)
  qed
  with peek_written [OF b(2)] show ?thesis by simp
qed

definition apart :: "nat \<times> bytes \<Rightarrow> nat \<times> bytes \<Rightarrow> bool" where
  "apart v w \<longleftrightarrow> fst v + length (snd v) \<le> fst w \<or> fst w + length (snd w) \<le> fst v"

lemma write_all_apart:
  assumes "write_all buf ws = Inr buf'" and "sorted_wrt apart ws" and "(off, bs) \<in> set ws"
  shows "peek buf' off (length bs) = bs"
proof -
  obtain us vs where ws: "ws = us @ (off, bs) # vs"
    using split_list [OF assms(3)] by blast
  then have "\<forall>v\<in>set vs. fst v + length (snd v) \<le> off \<or> off + length bs \<le> fst v"
    using assms(2) by (auto simp: sorted_wrt_append apart_def)
  with assms(1) show ?thesis unfolding ws by (rule write_all_last)
qed

end
