(* ===== verification/Abi.thy ===== *)
theory Abi
  imports Byte_Memory
begin

text \<open>
  \<^verbatim>\<open>abi.h\<close>: the ISA version numbers, the kernel descriptor the compiler emits, the
  implicit kernel arguments and the dispatch packet the runtime places in a kernarg buffer.
\<close>

section \<open>ISA versions\<close>

named_theorems gfx_consts \<open>the ISA version numbers\<close>

definition GFX_VERSION_GFX9 :: u32 where [gfx_consts]: "GFX_VERSION_GFX9 = 90000"
definition GFX_VERSION_GFX9_8 :: u32 where [gfx_consts]: "GFX_VERSION_GFX9_8 = 90008"
definition GFX_VERSION_GFX9_A :: u32 where [gfx_consts]: "GFX_VERSION_GFX9_A = 90010"
definition GFX_VERSION_GFX942 :: u32 where [gfx_consts]: "GFX_VERSION_GFX942 = 90402"
definition GFX_VERSION_GFX950 :: u32 where [gfx_consts]: "GFX_VERSION_GFX950 = 90500"
definition GFX_VERSION_GFX10_1 :: u32 where [gfx_consts]: "GFX_VERSION_GFX10_1 = 100100"
definition GFX_VERSION_GFX11 :: u32 where [gfx_consts]: "GFX_VERSION_GFX11 = 110000"
definition GFX_VERSION_GFX12 :: u32 where [gfx_consts]: "GFX_VERSION_GFX12 = 120000"
definition GFX_VERSION_GFX1250 :: u32 where [gfx_consts]: "GFX_VERSION_GFX1250 = 120500"

definition gfx_version_major :: "u32 \<Rightarrow> u32" where "gfx_version_major v = (v div 10000) mod 100"
definition gfx_version_minor :: "u32 \<Rightarrow> u32" where "gfx_version_minor v = (v div 100) mod 100"
definition gfx_version_step :: "u32 \<Rightarrow> u32" where "gfx_version_step v = v mod 100"

definition COMPUTE_PGM_RSRC1_PRIV :: u32 where "COMPUTE_PGM_RSRC1_PRIV = push_bit 20 1"

definition needs_cwsr_priv_wa :: "u32 \<Rightarrow> bool" where
  "needs_cwsr_priv_wa gfx \<longleftrightarrow> gfx_version_major gfx = 11 \<and> gfx_version_minor gfx = 0"

definition PRIVATE_SEGMENT_ALIGN :: u64 where "PRIVATE_SEGMENT_ALIGN = 0x10000"

section \<open>Kernel code properties\<close>

text \<open>The bit masks of \<open>kernel_code_properties\<close>, one constructor per constant.\<close>

datatype code_property =
    ENABLE_SGPR_PRIVATE_SEGMENT_BUFFER | ENABLE_SGPR_DISPATCH_PTR | ENABLE_SGPR_QUEUE_PTR
  | ENABLE_SGPR_KERNARG_SEGMENT_PTR | ENABLE_SGPR_DISPATCH_ID | ENABLE_SGPR_FLAT_SCRATCH_INIT
  | ENABLE_SGPR_PRIVATE_SEGMENT_SIZE | ENABLE_WAVEFRONT_SIZE32 | USES_DYNAMIC_STACK

fun property_mask :: "code_property \<Rightarrow> u16" where
  "property_mask ENABLE_SGPR_PRIVATE_SEGMENT_BUFFER = push_bit 0 1"
| "property_mask ENABLE_SGPR_DISPATCH_PTR = push_bit 1 1"
| "property_mask ENABLE_SGPR_QUEUE_PTR = push_bit 2 1"
| "property_mask ENABLE_SGPR_KERNARG_SEGMENT_PTR = push_bit 3 1"
| "property_mask ENABLE_SGPR_DISPATCH_ID = push_bit 4 1"
| "property_mask ENABLE_SGPR_FLAT_SCRATCH_INIT = push_bit 5 1"
| "property_mask ENABLE_SGPR_PRIVATE_SEGMENT_SIZE = push_bit 6 1"
| "property_mask ENABLE_WAVEFRONT_SIZE32 = push_bit 10 1"
| "property_mask USES_DYNAMIC_STACK = push_bit 11 1"

definition has_prop :: "u16 \<Rightarrow> code_property \<Rightarrow> bool" where
  "has_prop props p \<longleftrightarrow> props AND property_mask p \<noteq> 0"

definition KERNARG_PRELOAD_LENGTH_MASK :: u16 where "KERNARG_PRELOAD_LENGTH_MASK = 0x007f"
definition KERNARG_PRELOAD_OFFSET_SHIFT :: nat where "KERNARG_PRELOAD_OFFSET_SHIFT = 7"
definition KERNARG_PRELOAD_PROLOG_SIZE :: u64 where "KERNARG_PRELOAD_PROLOG_SIZE = 256"

section \<open>The kernel descriptor\<close>

record kernel_descriptor =
  group_segment_fixed_size :: u32
  private_segment_fixed_size :: u32
  kernarg_size :: u32
  kernel_code_entry_byte_offset :: u64
  compute_pgm_rsrc3 :: u32
  compute_pgm_rsrc1 :: u32
  compute_pgm_rsrc2 :: u32
  kernel_code_properties :: u16
  kernarg_preload :: u16

definition sizeof_KernelDescriptor :: nat where "sizeof_KernelDescriptor = 64"

text \<open>Reading the 64 bytes of a descriptor at an offset of a buffer.\<close>

definition read_kernel_descriptor :: "bytes \<Rightarrow> nat \<Rightarrow> kernel_descriptor res" where
  "read_kernel_descriptor buf o' =
     kfd_try (mem_read buf o' sizeof_KernelDescriptor) (\<lambda>b.
       Inr \<lparr>group_segment_fixed_size = le_word (peek b 0 4),
            private_segment_fixed_size = le_word (peek b 4 4),
            kernarg_size = le_word (peek b 8 4),
            kernel_code_entry_byte_offset = le_word (peek b 16 8),
            compute_pgm_rsrc3 = le_word (peek b 44 4),
            compute_pgm_rsrc1 = le_word (peek b 48 4),
            compute_pgm_rsrc2 = le_word (peek b 52 4),
            kernel_code_properties = le_word (peek b 56 2),
            kernarg_preload = le_word (peek b 58 2)\<rparr>)"

lemma read_kernel_descriptor_defined:
  "o' + 64 \<le> length buf \<Longrightarrow> \<exists>kd. read_kernel_descriptor buf o' = Inr kd"
  by (simp add: read_kernel_descriptor_def sizeof_KernelDescriptor_def mem_simps)

section \<open>The implicit arguments\<close>

datatype implicit_arg =
    Block_count_x | Block_count_y | Block_count_z | Group_size_x | Group_size_y | Group_size_z
  | Remainder_x | Remainder_y | Remainder_z | Global_offset_x | Global_offset_y | Global_offset_z
  | Grid_dims | Printf_buffer | Hostcall_buffer | Multigrid_sync_arg | Heap_v1 | Default_queue
  | Completion_action | Dynamic_lds_size | Private_base | Shared_base | Queue_ptr

text \<open>\<^verbatim>\<open>offsetof\<close> and \<^verbatim>\<open>sizeof\<close> of the fields of \<^verbatim>\<open>ImplicitArgs\<close>.\<close>

fun arg_layout :: "implicit_arg \<Rightarrow> nat \<times> nat" where
  "arg_layout Block_count_x = (0, 4)"
| "arg_layout Block_count_y = (4, 4)"
| "arg_layout Block_count_z = (8, 4)"
| "arg_layout Group_size_x = (12, 2)"
| "arg_layout Group_size_y = (14, 2)"
| "arg_layout Group_size_z = (16, 2)"
| "arg_layout Remainder_x = (18, 2)"
| "arg_layout Remainder_y = (20, 2)"
| "arg_layout Remainder_z = (22, 2)"
| "arg_layout Global_offset_x = (40, 8)"
| "arg_layout Global_offset_y = (48, 8)"
| "arg_layout Global_offset_z = (56, 8)"
| "arg_layout Grid_dims = (64, 2)"
| "arg_layout Printf_buffer = (72, 8)"
| "arg_layout Hostcall_buffer = (80, 8)"
| "arg_layout Multigrid_sync_arg = (88, 8)"
| "arg_layout Heap_v1 = (96, 8)"
| "arg_layout Default_queue = (104, 8)"
| "arg_layout Completion_action = (112, 8)"
| "arg_layout Dynamic_lds_size = (120, 4)"
| "arg_layout Private_base = (192, 4)"
| "arg_layout Shared_base = (196, 4)"
| "arg_layout Queue_ptr = (200, 8)"

definition arg_offset :: "implicit_arg \<Rightarrow> nat" where "arg_offset f = fst (arg_layout f)"
definition arg_size :: "implicit_arg \<Rightarrow> nat" where "arg_size f = snd (arg_layout f)"

lemma arg_fits: "arg_offset f + arg_size f \<le> 256"
  by (cases f) (simp_all add: arg_offset_def arg_size_def)

lemma args_disjoint:
  "f \<noteq> g \<Longrightarrow> arg_offset f + arg_size f \<le> arg_offset g \<or> arg_offset g + arg_size g \<le> arg_offset f"
  by (cases f; cases g; simp add: arg_offset_def arg_size_def)

section \<open>Dispatch configuration and packet\<close>

record dim3 =
  dim_x :: u32
  dim_y :: u32
  dim_z :: u32

record dispatch_config =
  grid :: dim3
  block_dim :: dim3
  dynamic_lds :: u32
  cfg_private_segment_size :: u32

record dispatch_packet =
  pkt_header :: u16
  pkt_setup :: u16
  workgroup_size_x :: u16
  workgroup_size_y :: u16
  workgroup_size_z :: u16
  grid_size_x :: u32
  grid_size_y :: u32
  grid_size_z :: u32
  pkt_private_segment_size :: u32
  pkt_group_segment_size :: u32
  kernel_object :: u64
  kernarg_address :: u64
  completion_signal :: u64

definition sizeof_DispatchPacket :: nat where "sizeof_DispatchPacket = 64"

definition packet_bytes :: "dispatch_packet \<Rightarrow> bytes" where
  "packet_bytes p = le_bytes 2 (pkt_header p) @ le_bytes 2 (pkt_setup p) @
     le_bytes 2 (workgroup_size_x p) @ le_bytes 2 (workgroup_size_y p) @
     le_bytes 2 (workgroup_size_z p) @ replicate 2 0 @
     le_bytes 4 (grid_size_x p) @ le_bytes 4 (grid_size_y p) @ le_bytes 4 (grid_size_z p) @
     le_bytes 4 (pkt_private_segment_size p) @ le_bytes 4 (pkt_group_segment_size p) @
     le_bytes 8 (kernel_object p) @ le_bytes 8 (kernarg_address p) @ replicate 8 0 @
     le_bytes 8 (completion_signal p)"

lemma length_packet_bytes [simp]: "length (packet_bytes p) = 64"
  by (simp add: packet_bytes_def)

text \<open>The dimension count both fillers compute.\<close>

definition grid_dims_of :: "dim3 \<Rightarrow> dim3 \<Rightarrow> u16" where
  "grid_dims_of g b = 1 + of_bool (dim_y g > 1 \<or> dim_y b > 1) + of_bool (dim_z g > 1 \<or> dim_z b > 1)"

definition total_threads :: "u32 \<Rightarrow> u32 \<Rightarrow> u32" where
  "total_threads b g = ucast ((ucast b :: u64) * ucast g)"

definition fill_dispatch_packet :: "dim3 \<Rightarrow> dim3 \<Rightarrow> u32 \<Rightarrow> u32 \<Rightarrow> dispatch_packet" where
  "fill_dispatch_packet g b private_size group_size =
     \<lparr>pkt_header = 0, pkt_setup = grid_dims_of g b,
      workgroup_size_x = ucast (dim_x b), workgroup_size_y = ucast (dim_y b),
      workgroup_size_z = ucast (dim_z b),
      grid_size_x = total_threads (dim_x b) (dim_x g),
      grid_size_y = total_threads (dim_y b) (dim_y g),
      grid_size_z = total_threads (dim_z b) (dim_z g),
      pkt_private_segment_size = private_size, pkt_group_segment_size = group_size,
      kernel_object = 0, kernarg_address = 0, completion_signal = 0\<rparr>"

lemma grid_size_exact:
  "unat b * unat g < 2 ^ 32 \<Longrightarrow> unat (total_threads b g) = unat b * unat g"
proof -
  assume less: "unat b * unat g < 2 ^ 32"
  have "unat ((ucast b :: u64) * ucast g) = unat b * unat g"
    using less by (subst unat_mult_no_wrap) simp_all
  with less show ?thesis
    by (simp add: total_threads_def unat_ucast_mod)
qed

section \<open>Filling the kernarg buffer\<close>

definition kernarg_alloc_size :: "u32 \<Rightarrow> u64" where
  "kernarg_alloc_size kd_kernarg_size =
     align_up (ucast kd_kernarg_size) 64 + of_nat sizeof_DispatchPacket"

text \<open>The fields written, in the order of the calls, each only when it fits \<open>avail\<close> bytes.\<close>

definition implicit_fields :: "dispatch_config \<Rightarrow> (implicit_arg \<times> bytes) list" where
  "implicit_fields cfg =
     [(Block_count_x, le_bytes 4 (dim_x (grid cfg))),
      (Block_count_y, le_bytes 4 (dim_y (grid cfg))),
      (Block_count_z, le_bytes 4 (dim_z (grid cfg))),
      (Group_size_x, le_bytes 2 (ucast (dim_x (block_dim cfg)) :: u16)),
      (Group_size_y, le_bytes 2 (ucast (dim_y (block_dim cfg)) :: u16)),
      (Group_size_z, le_bytes 2 (ucast (dim_z (block_dim cfg)) :: u16)),
      (Grid_dims, le_bytes 2 (grid_dims_of (grid cfg) (block_dim cfg)))]"

definition implicit_avail :: "u64 \<Rightarrow> u32 \<Rightarrow> u64" where
  "implicit_avail implicit_offset ksize =
     (if ucast ksize > implicit_offset then ucast ksize - implicit_offset else 0)"

definition implicit_writes :: "u64 \<Rightarrow> u32 \<Rightarrow> dispatch_config \<Rightarrow> (nat \<times> bytes) list" where
  "implicit_writes explicit_size ksize cfg =
     (let implicit_offset = align_up explicit_size 8;
          avail = implicit_avail implicit_offset ksize
      in map (\<lambda>(f, bs). (unat implicit_offset + arg_offset f, bs))
           (filter (\<lambda>(f, bs). arg_offset f + length bs \<le> unat avail) (implicit_fields cfg)))"

definition fill_implicit_args ::
    "bytes \<Rightarrow> u64 \<Rightarrow> kernel_descriptor \<Rightarrow> dispatch_config \<Rightarrow> bytes res" where
  "fill_implicit_args buf explicit_size kd cfg =
     (let pkt_offset = align_up (ucast (kernarg_size kd)) (64 :: u64);
          pkt = fill_dispatch_packet (grid cfg) (block_dim cfg)
                  (private_segment_fixed_size kd) (group_segment_fixed_size kd)
      in write_all buf (implicit_writes explicit_size (kernarg_size kd) cfg @
                        [(unat pkt_offset, packet_bytes pkt)]))"

section \<open>Properties of the kernarg fill\<close>

lemma pkt_offset: "unat (align_up (ucast (k :: u32)) (64 :: u64)) = round_up (unat k) 64"
proof -
  have "unat k + 2 ^ 6 \<le> 2 ^ LENGTH(64)" using unat32_less [of k] by simp
  then show ?thesis using unat_align_up [of 6 "ucast k :: u64"] by simp
qed

lemma explicit_end:
  fixes n :: u64
  shows "unat n + 8 \<le> 2 ^ 64 \<Longrightarrow> unat (align_up n 8) = round_up (unat n) 8"
  using unat_align_up [of 3 n] by simp

lemma unat_kernarg_alloc_size: "unat (kernarg_alloc_size k) = round_up (unat k) 64 + 64"
proof -
  have "round_up (unat k) 64 < 2 ^ 33"
    using round_up_less [of 64 "unat k"] unat32_less [of k] by simp
  then show ?thesis
    unfolding kernarg_alloc_size_def sizeof_DispatchPacket_def
    by (subst unat_add_no_wrap) (simp_all add: pkt_offset)
qed

lemma implicit_field_size:
  "(f, bs) \<in> set (implicit_fields cfg) \<Longrightarrow> length bs = arg_size f \<and> 0 < arg_size f"
  by (auto simp: implicit_fields_def arg_size_def)

lemma implicit_writes_range:
  assumes "w \<in> set (implicit_writes es k cfg)"
  shows "unat (align_up es 8) \<le> fst w \<and> fst w + length (snd w) \<le> unat k"
proof -
  define ao where "ao = align_up es 8"
  from assms obtain f bs where w: "w = (unat ao + arg_offset f, bs)"
    and f: "(f, bs) \<in> set (implicit_fields cfg)" "arg_offset f + length bs \<le> unat (implicit_avail ao k)"
    by (auto simp: implicit_writes_def Let_def ao_def)
  from implicit_field_size [OF f(1)] have "0 < length bs" by simp
  with f(2) have "implicit_avail ao k \<noteq> 0" by (auto simp: unat_eq_0)
  then have gt: "ao < ucast k" and av: "implicit_avail ao k = ucast k - ao"
    by (auto simp: implicit_avail_def split: if_splits)
  have "unat (ucast k - ao :: u64) = unat k - unat ao"
    using gt by (subst unat_sub_no_wrap) (simp_all add: word_less_nat_alt)
  then show ?thesis using f(2) gt by (simp add: w av ao_def [symmetric] word_less_nat_alt)
qed

lemma implicit_fields_apart:
  "sorted_wrt (\<lambda>v w. arg_offset (fst v) + length (snd v) \<le> arg_offset (fst w)) (implicit_fields cfg)"
  by (simp add: implicit_fields_def arg_offset_def)

lemma implicit_writes_apart: "sorted_wrt apart (implicit_writes es k cfg)"
proof -
  have "sorted_wrt apart (map (\<lambda>(f, bs). (n + arg_offset f, bs)) (filter P (implicit_fields cfg)))" for n P
    unfolding sorted_wrt_map
    by (rule sorted_wrt_mono_rel [OF _ sorted_wrt_filter [OF implicit_fields_apart]])
      (auto simp: apart_def)
  then show ?thesis by (simp add: implicit_writes_def Let_def)
qed

lemma implicit_field_written:
  assumes "(f, bs) \<in> set (implicit_fields cfg)"
    and "unat (align_up es 8) + arg_offset f + length bs \<le> unat k"
  shows "(unat (align_up es 8) + arg_offset f, bs) \<in> set (implicit_writes es k cfg)"
proof -
  define ao where "ao = align_up es 8"
  from implicit_field_size [OF assms(1)] have "0 < length bs" by simp
  with assms(2) have "unat ao < unat k" unfolding ao_def by linarith
  then have gt: "ao < ucast k" by (simp add: word_less_nat_alt)
  then have "unat (implicit_avail ao k) = unat k - unat ao"
    by (simp add: implicit_avail_def) (subst unat_sub_no_wrap, simp_all add: word_less_nat_alt)
  with assms show ?thesis
    by (force simp: implicit_writes_def Let_def ao_def [symmetric])
qed

lemma fill_implicit_args_value:
  assumes nw: "unat es + 8 \<le> 2 ^ 64" and len: "unat (kernarg_alloc_size (kernarg_size kd)) \<le> length buf"
  shows "\<exists>buf'. fill_implicit_args buf es kd cfg = Inr buf' \<and> length buf' = length buf \<and>
     (\<forall>k. k < length buf \<and> (k < unat es \<and> k < unat (kernarg_size kd) \<or>
            unat (kernarg_alloc_size (kernarg_size kd)) \<le> k) \<longrightarrow> buf' ! k = buf ! k) \<and>
     (\<forall>(f, bs)\<in>set (implicit_fields cfg).
        round_up (unat es) 8 + arg_offset f + length bs \<le> unat (kernarg_size kd) \<longrightarrow>
        peek buf' (round_up (unat es) 8 + arg_offset f) (length bs) = bs) \<and>
     peek buf' (round_up (unat (kernarg_size kd)) 64) 64 =
       packet_bytes (fill_dispatch_packet (grid cfg) (block_dim cfg)
         (private_segment_fixed_size kd) (group_segment_fixed_size kd))"
proof -
  define k where "k = kernarg_size kd"
  define pkt where "pkt = (round_up (unat k) 64, packet_bytes (fill_dispatch_packet (grid cfg)
     (block_dim cfg) (private_segment_fixed_size kd) (group_segment_fixed_size kd)))"
  define ws where "ws = implicit_writes es k cfg @ [pkt]"
  have fill: "fill_implicit_args buf es kd cfg = write_all buf ws"
    by (simp add: fill_implicit_args_def Let_def ws_def pkt_def k_def pkt_offset)
  have k64: "unat k \<le> round_up (unat k) 64" by (rule round_up_ge) simp
  have inside: "\<forall>w\<in>set ws. fst w + length (snd w) \<le> length buf"
    using implicit_writes_range [of _ es k cfg] k64 len
    by (fastforce simp: ws_def pkt_def unat_kernarg_alloc_size k_def)
  then obtain buf' where buf': "write_all buf ws = Inr buf'"
    using write_all_defined by blast
  have ap: "sorted_wrt apart ws"
    using implicit_writes_apart [of es k cfg] implicit_writes_range [of _ es k cfg] k64
    by (fastforce simp: ws_def sorted_wrt_append apart_def pkt_def)
  have beyond: "buf' ! i = buf ! i" if "i < length buf" "unat (kernarg_alloc_size k) \<le> i" for i
  proof (rule write_all_untouched [OF buf' that(1)])
    show "\<forall>w\<in>set ws. \<not> touches w i"
      using implicit_writes_range [of _ es k cfg] k64 that(2)
      by (fastforce simp: ws_def touches_def pkt_def unat_kernarg_alloc_size)
  qed
  have "buf' ! i = buf ! i" if "i < unat es" "i < unat k" for i
  proof (rule write_all_untouched [OF buf'])
    show "i < length buf"
      using that k64 len by (simp add: unat_kernarg_alloc_size k_def)
    have "i < unat (align_up es 8)"
      using that(1) round_up_ge [of 8 "unat es"] by (simp add: explicit_end [OF nw])
    then show "\<forall>w\<in>set ws. \<not> touches w i"
      using implicit_writes_range [of _ es k cfg] k64 that(2)
      by (fastforce simp: ws_def touches_def pkt_def)
  qed
  moreover have "peek buf' (round_up (unat es) 8 + arg_offset f) (length bs) = bs"
    if "(f, bs) \<in> set (implicit_fields cfg)"
      "round_up (unat es) 8 + arg_offset f + length bs \<le> unat k" for f bs
    using implicit_field_written [of f bs cfg es k] that
    by (intro write_all_apart [OF buf' ap]) (simp add: explicit_end [OF nw] ws_def)
  moreover have "peek buf' (fst pkt) (length (snd pkt)) = snd pkt"
    by (rule write_all_apart [OF buf' ap]) (simp add: ws_def)
  ultimately show ?thesis
    using buf' write_all_length [OF buf'] beyond by (fastforce simp: fill k_def pkt_def)
qed


definition demo_kd :: kernel_descriptor where
  "demo_kd = \<lparr>group_segment_fixed_size = 0, private_segment_fixed_size = 0, kernarg_size = 96,
     kernel_code_entry_byte_offset = 0, compute_pgm_rsrc3 = 0, compute_pgm_rsrc1 = 0,
     compute_pgm_rsrc2 = 0, kernel_code_properties = 0, kernarg_preload = 0\<rparr>"

definition demo_cfg :: dispatch_config where
  "demo_cfg = \<lparr>grid = \<lparr>dim_x = 7, dim_y = 1, dim_z = 1\<rparr>,
     block_dim = \<lparr>dim_x = 256, dim_y = 1, dim_z = 1\<rparr>, dynamic_lds = 0,
     cfg_private_segment_size = 0\<rparr>"


text \<open>
  A launch that extends in z only is counted as two-dimensional: the count adds one per extended
  axis, not the index of the last one.
\<close>

lemma z_only_launch_counts_two_dims:
  "grid_dims_of \<lparr>dim_x = 1, dim_y = 1, dim_z = 4\<rparr> \<lparr>dim_x = 64, dim_y = 1, dim_z = 1\<rparr> = 2"
  by (simp add: grid_dims_of_def)

end
