(* ===== verification/Topology_Types.thy ===== *)
theory Topology_Types
  imports Small_Vector
begin

text \<open>
  \<^verbatim>\<open>topology.h\<close>: the properties of a node and of its memory banks, caches and links, as
  the sysfs snapshot fills them. A value-initialised structure has every field zero.
\<close>

record node_properties =
  gpu_id :: u32
  vendor_id :: u32
  device_id :: u32
  location_id :: u32
  pci_domain :: u32
  gfx_target_version :: u32
  drm_render_minor :: u32
  cpu_cores_count :: u32
  simd_count :: u32
  array_count :: u32
  simd_arrays_per_engine :: u32
  cu_per_simd_array :: u32
  simd_per_cu :: u32
  max_waves_per_simd :: u32
  wave_front_size :: u32
  max_slots_scratch_cu :: u32
  mem_banks_count :: u32
  caches_count :: u32
  io_links_count :: u32
  num_sdma_engines :: u32
  num_sdma_xgmi_engines :: u32
  num_sdma_queues_per_engine :: u32
  num_cp_queues :: u32
  num_xcc :: u32
  num_gws :: u32
  max_engine_clk_fcompute :: u32
  max_engine_clk_ccompute :: u32
  lds_size_in_kb :: u32
  gds_size_in_kb :: u32
  local_mem_size :: u64
  family_id :: u32
  fw_version :: u32
  sdma_fw_version :: u32
  capability_bits :: u32
  capability2 :: u32
  debug_prop :: u32
  cwsr_size :: u32
  ctl_stack_size :: u32
  unique_id :: u64
  hive_id :: u64

definition empty_properties :: node_properties where
  "empty_properties = \<lparr>gpu_id = 0, vendor_id = 0, device_id = 0, location_id = 0,
     pci_domain = 0, gfx_target_version = 0, drm_render_minor = 0, cpu_cores_count = 0,
     simd_count = 0, array_count = 0, simd_arrays_per_engine = 0, cu_per_simd_array = 0,
     simd_per_cu = 0, max_waves_per_simd = 0, wave_front_size = 0, max_slots_scratch_cu = 0,
     mem_banks_count = 0, caches_count = 0, io_links_count = 0, num_sdma_engines = 0,
     num_sdma_xgmi_engines = 0, num_sdma_queues_per_engine = 0, num_cp_queues = 0, num_xcc = 0,
     num_gws = 0, max_engine_clk_fcompute = 0, max_engine_clk_ccompute = 0, lds_size_in_kb = 0,
     gds_size_in_kb = 0, local_mem_size = 0, family_id = 0, fw_version = 0, sdma_fw_version =
     0, capability_bits = 0, capability2 = 0, debug_prop = 0, cwsr_size = 0, ctl_stack_size =
     0, unique_id = 0, hive_id = 0\<rparr>"

definition NODE_CAP_SRAM_EDCSUPPORTED :: u32 where "NODE_CAP_SRAM_EDCSUPPORTED = 0x04000000"
definition NODE_CAP_SVMAPI_SUPPORTED :: u32 where "NODE_CAP_SVMAPI_SUPPORTED = 0x08000000"

record memory_bank =
  heap_type :: u32
  size_in_bytes :: u64
  bank_flags :: u32
  width :: u32
  mem_clk_max :: u32

record cache_info =
  processor_id_low :: u32
  level :: u32
  cache_size :: u32
  line_size :: u32
  lines_per_tag :: u32
  associativity :: u32
  latency :: u32
  cache_type :: u32

record io_link =
  link_type :: u32
  node_from :: u32
  node_to :: u32
  weight :: u32
  min_latency :: u32
  max_latency :: u32
  min_bandwidth :: u32
  max_bandwidth :: u32
  link_flags :: u32

record node_info =
  props :: node_properties
  memory_banks :: "memory_bank list"
  caches :: "cache_info list"
  io_links :: "io_link list"

end
