(* ===== verification/Scratch.thy ===== *)
theory Scratch
  imports Topology_Types Abi
begin

text \<open>
  \<^verbatim>\<open>detail/scratch\<close>: how much backing memory the private segments of a dispatch need, and
  the value of \<^verbatim>\<open>COMPUTE_TMPRING_SIZE\<close> that divides it among the waves. The functions read
  the device only through its node properties. A division by zero is \<open>UB\<close>.
\<close>

section \<open>Definitions\<close>

definition SCRATCH_LANES_PER_WAVE :: u32 where "SCRATCH_LANES_PER_WAVE = 64"

definition scratch_alignment_unit :: "u32 \<Rightarrow> u32" where
  "scratch_alignment_unit gfx = (if gfx \<ge> GFX_VERSION_GFX11 then 256 else 1024)"

definition max_wave_scratch :: "u32 \<Rightarrow> u32" where
  "max_wave_scratch gfx =
     (if gfx \<ge> GFX_VERSION_GFX12 then (push_bit 18 1 - 1) * 256
      else if gfx \<ge> GFX_VERSION_GFX11 then (push_bit 15 1 - 1) * 256
      else (push_bit 13 1 - 1) * 1024)"

definition nonzero_or_one :: "u32 \<Rightarrow> u32" where
  "nonzero_or_one x = (if x \<noteq> 0 then x else 1)"

definition scratch_num_se :: "node_properties \<Rightarrow> u32" where
  "scratch_num_se p =
     (if simd_arrays_per_engine p = 0 then 1
      else nonzero_or_one (array_count p div simd_arrays_per_engine p))"

definition scratch_per_wave :: "u32 \<Rightarrow> u32 \<Rightarrow> u64" where
  "scratch_per_wave gfx per_thread =
     align_up (ucast SCRATCH_LANES_PER_WAVE * ucast per_thread) (ucast (scratch_alignment_unit gfx))"

definition div_u32 :: "u32 \<Rightarrow> u32 \<Rightarrow> u32 res" where
  "div_u32 a b = (if b = 0 then Inl UB else Inr (a div b))"

definition compute_tmpring_size :: "node_properties \<Rightarrow> u32 \<Rightarrow> u64 \<Rightarrow> u32 \<Rightarrow> u32 res" where
  "compute_tmpring_size p per_thread region_size num_xcc0 =
     (if per_thread = 0 \<or> region_size = 0 then Inr 0
      else let gfx = gfx_target_version p;
               align = scratch_alignment_unit gfx;
               per_wave = scratch_per_wave gfx per_thread
      in if per_wave > ucast (max_wave_scratch gfx) then Inr 0
      else let num_cus = simd_count p div nonzero_or_one (simd_per_cu p);
               num_se = scratch_num_se p;
               num_xcc = (if num_xcc0 = 0 then nonzero_or_one (num_xcc p) else num_xcc0);
               se_per_xcc = nonzero_or_one (num_se div num_xcc);
               cus_per_xcc = num_cus div num_xcc;
               wavesize = ucast (per_wave div ucast align);
               device_max = cus_per_xcc * max_slots_scratch_cu p
      in if gfx \<ge> GFX_VERSION_GFX11
         then kfd_try (div_u32 (ucast (region_size div per_wave)) (num_se div num_xcc))
                (\<lambda>max_waves.
                   let max_waves = (if max_waves > device_max then device_max else max_waves);
                       waves = nonzero_or_one max_waves
                   in Inr (push_bit 12 wavesize OR waves))
         else let max_waves = ucast (region_size div ucast num_xcc div per_wave);
                  max_waves = (if max_waves > device_max then device_max else max_waves);
                  max_waves = max_waves div se_per_xcc * se_per_xcc;
                  waves = (if max_waves = 0 then se_per_xcc else max_waves)
              in Inr (push_bit 12 wavesize OR waves))"

definition scratch_device_slots :: "node_properties \<Rightarrow> u32 \<Rightarrow> u32" where
  "scratch_device_slots p num_xcc0 =
     (let num_cus = simd_count p div nonzero_or_one (simd_per_cu p);
          num_xcc = (if num_xcc0 = 0 then nonzero_or_one (num_xcc p) else num_xcc0);
          num_cus = num_cus div num_xcc;
          num_se = nonzero_or_one (scratch_num_se p div num_xcc);
          slots = align_up num_cus num_se * max_slots_scratch_cu p
      in if slots \<noteq> 0 then slots else num_se)"

definition scratch_alloc_size :: "u32 \<Rightarrow> u32 \<Rightarrow> u32 \<Rightarrow> u64" where
  "scratch_alloc_size gfx per_thread slots =
     (if per_thread = 0 \<or> slots = 0 then 0
      else align_up (scratch_per_wave gfx per_thread * ucast slots) PRIVATE_SEGMENT_ALIGN)"

section \<open>Sizes without wrap-around\<close>

lemma scratch_num_se_pos: "0 < unat (scratch_num_se p)"
  by (simp add: scratch_num_se_def nonzero_or_one_def unat_gt_0)

lemma nonzero_or_one_id: "0 < unat x \<Longrightarrow> nonzero_or_one x = x"
  by (auto simp: nonzero_or_one_def)

lemma alignment_unit_pow:
  obtains k where "scratch_alignment_unit gfx = 2 ^ k" "8 \<le> k" "k \<le> 10"
proof (cases "gfx \<ge> GFX_VERSION_GFX11")
  case True
  then show ?thesis using that [of 8] by (simp add: scratch_alignment_unit_def)
next
  case False
  then show ?thesis using that [of 10] by (simp add: scratch_alignment_unit_def)
qed

definition wave_bytes :: "u32 \<Rightarrow> u32 \<Rightarrow> nat" where
  "wave_bytes gfx per_thread = round_up (64 * unat per_thread) (unat (scratch_alignment_unit gfx))"

lemma unat_scratch_per_wave: "unat (scratch_per_wave gfx pt) = wave_bytes gfx pt"
proof -
  obtain k where k: "scratch_alignment_unit gfx = 2 ^ k" "8 \<le> k" "k \<le> 10"
    by (rule alignment_unit_pow)
  have a: "(ucast (scratch_alignment_unit gfx) :: u64) = 2 ^ k"
    using k by (simp add: word_unat_eq_iff)
  have m: "unat (ucast SCRATCH_LANES_PER_WAVE * ucast pt :: u64) = 64 * unat pt"
    using unat32_less [of pt]
    by (subst unat_mult_no_wrap) (simp_all add: SCRATCH_LANES_PER_WAVE_def)
  have "(2::nat) ^ k \<le> 2 ^ 10" using k by (intro power_increasing) simp_all
  then have "unat (ucast SCRATCH_LANES_PER_WAVE * ucast pt :: u64) + 2 ^ k \<le> 2 ^ LENGTH(64)"
    unfolding m using unat32_less [of pt] by simp
  then show ?thesis
    using unat_align_up [of k "ucast SCRATCH_LANES_PER_WAVE * ucast pt :: u64"] k
    by (simp add: scratch_per_wave_def a m wave_bytes_def k(1)) (metis a k(1))
qed

lemma wave_bytes_pos: "pt \<noteq> 0 \<Longrightarrow> 0 < wave_bytes gfx pt"
proof -
  assume "pt \<noteq> 0"
  moreover obtain k where "scratch_alignment_unit gfx = 2 ^ k" "k \<le> 10"
    by (rule alignment_unit_pow)
  ultimately show ?thesis
    unfolding wave_bytes_def by (intro round_up_pos) (simp_all add: unat_gt_0)
qed

lemma max_wave_scratch_bound: "unat (max_wave_scratch gfx) < 2 ^ 26"
  by (simp add: max_wave_scratch_def)

lemma scratch_alloc_size_exact:
  assumes "pt \<noteq> 0" and "slots \<noteq> 0" and "wave_bytes gfx pt \<le> unat (max_wave_scratch gfx)"
  shows "unat (scratch_alloc_size gfx pt slots) = round_up (wave_bytes gfx pt * unat slots) 65536"
proof -
  have "wave_bytes gfx pt * unat slots \<le> 2 ^ 26 * 2 ^ 32"
    using assms(3) max_wave_scratch_bound [of gfx] unat32_less [of slots]
    by (intro mult_le_mono) simp_all
  then have p: "unat (scratch_per_wave gfx pt * ucast slots) = wave_bytes gfx pt * unat slots"
    and "wave_bytes gfx pt * unat slots + 2 ^ 16 \<le> 2 ^ LENGTH(64)"
    by (auto simp: unat_mult_no_wrap unat_scratch_per_wave)
  moreover have "PRIVATE_SEGMENT_ALIGN = 2 ^ 16" by (simp add: PRIVATE_SEGMENT_ALIGN_def)
  ultimately show ?thesis
    using assms(1,2) unat_align_up [of 16 "scratch_per_wave gfx pt * ucast slots"]
    by (simp add: scratch_alloc_size_def)
qed

section \<open>The ring size against the backing memory\<close>

text \<open>The two fields of the register value.\<close>

definition tmpring_waves :: "u32 \<Rightarrow> nat" where "tmpring_waves r = unat (r AND 0xFFF)"
definition tmpring_wavesize :: "u32 \<Rightarrow> nat" where "tmpring_wavesize r = unat (drop_bit 12 r)"

lemma tmpring_fields:
  fixes ws w :: u32
  assumes "unat w < 2 ^ 12" and "unat ws < 2 ^ 20"
  shows "tmpring_waves (push_bit 12 ws OR w) = unat w"
    and "tmpring_wavesize (push_bit 12 ws OR w) = unat ws"
proof -
  have w: "n < 12" if "bit w n" for n
    using not_bit_above [OF assms(1), of n] that by (metis leI)
  have ws: "n < 20" if "bit ws n" for n
    using not_bit_above [OF assms(2), of n] that by (metis leI)
  have "(push_bit 12 ws OR w) AND 0xFFF = w"
  proof -
    have "(push_bit 12 ws OR w) AND mask 12 = w"
      by (rule bit_word_eqI) (use w in \<open>auto simp: bit_simps\<close>)
    then show ?thesis by (simp add: mask_numeral)
  qed
  then show "tmpring_waves (push_bit 12 ws OR w) = unat w" by (simp add: tmpring_waves_def)
  have "drop_bit 12 (push_bit 12 ws OR w) = ws"
    by (rule bit_word_eqI)
      (use ws in \<open>auto simp: bit_simps dest: w bit_imp_le_length\<close>)
  then show "tmpring_wavesize (push_bit 12 ws OR w) = unat ws"
    by (simp add: tmpring_wavesize_def)
qed


lemma nonzero_or_one_pos: "0 < unat (nonzero_or_one x)"
  by (simp add: nonzero_or_one_def unat_gt_0)

lemma nonzero_or_one_eq: "x \<noteq> 0 \<Longrightarrow> nonzero_or_one x = x"
  by (simp add: nonzero_or_one_def)

lemma unat_nonzero_or_one: "unat (nonzero_or_one x) = max 1 (unat x)"
  by (auto simp: nonzero_or_one_def unat_eq_0 max_def) (metis One_nat_def Suc_leI unat_gt_0)

text \<open>The wave size always fits its register field.\<close>

lemma wavesize_field:
  assumes "wave_bytes gfx pt \<le> unat (max_wave_scratch gfx)"
  shows "wave_bytes gfx pt div unat (scratch_alignment_unit gfx) < 2 ^ 18"
proof -
  have "unat (max_wave_scratch gfx) div unat (scratch_alignment_unit gfx) < 2 ^ 18"
    by (simp add: max_wave_scratch_def scratch_alignment_unit_def GFX_VERSION_GFX12_def
        GFX_VERSION_GFX11_def)
  then show ?thesis using div_le_mono [OF assms, of "unat (scratch_alignment_unit gfx)"] by linarith
qed


text \<open>
  How many wave slots the register value promises, over the natural numbers: per shader engine
  from GFX11 on, for each XCC before it.
\<close>

definition ring_waves :: "node_properties \<Rightarrow> nat \<Rightarrow> nat \<Rightarrow> nat \<Rightarrow> nat" where
  "ring_waves p region B x =
     (let S = max 1 (unat (scratch_num_se p) div x);
          dm = unat (simd_count p div nonzero_or_one (simd_per_cu p)) div x
               * unat (max_slots_scratch_cu p)
      in if gfx_target_version p \<ge> GFX_VERSION_GFX11
         then max 1 (min dm (region div B mod 2 ^ 32 div S))
         else let m = min dm (region div x div B mod 2 ^ 32) div S * S
              in if m = 0 then S else m)"

lemma compute_tmpring_size_waves:
  assumes "pt \<noteq> 0" and "region \<noteq> 0" and "x \<noteq> 0" and "unat x \<le> unat (scratch_num_se p)"
    and fits: "wave_bytes (gfx_target_version p) pt \<le> unat (max_wave_scratch (gfx_target_version p))"
    and dm: "unat (simd_count p div nonzero_or_one (simd_per_cu p)) div unat x
             * unat (max_slots_scratch_cu p) < 2 ^ 32"
  shows "\<exists>w. compute_tmpring_size p pt region x
        = Inr (push_bit 12 (ucast (scratch_per_wave (gfx_target_version p) pt
                                   div ucast (scratch_alignment_unit (gfx_target_version p)))) OR w)
      \<and> unat w = ring_waves p (unat region) (wave_bytes (gfx_target_version p) pt) (unat x)"
proof -
  let ?g = "gfx_target_version p"
  let ?se = "scratch_num_se p div x"
  let ?d = "simd_count p div nonzero_or_one (simd_per_cu p) div x * max_slots_scratch_cu p"
  have pw: "\<not> scratch_per_wave ?g pt > ucast (max_wave_scratch ?g)"
    using fits by (simp add: word_less_nat_alt unat_scratch_per_wave)
  have x: "0 < unat x" using assms(3) by (simp add: unat_gt_0)
  have se: "unat ?se = unat (scratch_num_se p) div unat x" by (simp add: unat_div)
  have "1 \<le> unat (scratch_num_se p) div unat x"
    using assms(4) x by (simp add: Suc_leI div_greater_zero_iff)
  then have se0: "?se \<noteq> 0" "max 1 (unat (scratch_num_se p) div unat x) = unat ?se"
    unfolding se [symmetric] by (auto simp: max_def)
  have d: "unat ?d = unat (simd_count p div nonzero_or_one (simd_per_cu p)) div unat x
      * unat (max_slots_scratch_cu p)"
    using dm by (subst unat_mult_no_wrap) (simp_all add: unat_div)
  have mn: "unat (if a > b then b else a) = min (unat b) (unat a)" for a b :: u32
    by (simp add: word_less_nat_alt min_def)
  show ?thesis
  proof (cases "?g \<ge> GFX_VERSION_GFX11")
    case True
    let ?m = "ucast (region div scratch_per_wave ?g pt) div ?se"
    let ?w = "nonzero_or_one (if ?m > ?d then ?d else ?m)"
    have "unat ?w = ring_waves p (unat region) (wave_bytes ?g pt) (unat x)"
      using True unfolding unat_nonzero_or_one mn d ring_waves_def se0(2) Let_def
      by (simp add: unat_div unat_ucast_32 unat_scratch_per_wave)
    then show ?thesis
      using True assms(1-3) pw se0(1)
      by (intro exI [of _ ?w]) (simp add: compute_tmpring_size_def Let_def div_u32_def)
  next
    case False
    let ?m = "ucast (region div ucast x div scratch_per_wave ?g pt)"
    let ?n = "(if ?m > ?d then ?d else ?m) div ?se * ?se"
    let ?w = "if ?n = 0 then ?se else ?n"
    have m: "unat ?n = unat (if ?m > ?d then ?d else ?m) div unat ?se * unat ?se"
      using unat32_less [of "if ?m > ?d then ?d else ?m"]
      by (subst unat_mult_no_wrap) (simp_all only: unat_div, simp add: le_less_trans [OF div_times_less_eq_dividend])
    have "unat ?w = (if unat ?n = 0 then unat ?se else unat ?n)" by (simp add: unat_eq_0)
    also have "\<dots> = ring_waves p (unat region) (wave_bytes ?g pt) (unat x)"
      using False unfolding m mn d ring_waves_def se0(2) Let_def
      by (simp add: unat_div unat_ucast_32 unat_scratch_per_wave)
    finally show ?thesis
      using False assms(1-3) pw se0(1)
      by (intro exI [of _ ?w]) (simp add: compute_tmpring_size_def Let_def nonzero_or_one_eq)
  qed
qed

lemma ring_waves_fits:
  assumes x: "0 < x" "x \<le> unat (scratch_num_se p)" and B: "0 < B"
    and room: "unat (scratch_num_se p) * B \<le> region"
  shows "(if gfx_target_version p \<ge> GFX_VERSION_GFX11 then unat (scratch_num_se p) div x else x)
         * ring_waves p region B x * B \<le> region"
proof -
  let ?n = "unat (scratch_num_se p)"
  let ?S = "?n div x"
  let ?d = "unat (simd_count p div nonzero_or_one (simd_per_cu p)) div x
               * unat (max_slots_scratch_cu p)"
  have S: "1 \<le> ?S" "max 1 ?S = ?S" using x by (simp_all add: Suc_leI div_greater_zero_iff)
  have one: "?S * x * B \<le> region"
    using room mult_le_mono1 [OF div_times_less_eq_dividend [of ?n x], of B] by linarith
  show ?thesis
  proof (cases "gfx_target_version p \<ge> GFX_VERSION_GFX11")
    case True
    let ?m = "min ?d (region div B mod 2 ^ 32 div ?S)"
    have w: "ring_waves p region B x = max 1 ?m"
      using True by (simp only: ring_waves_def Let_def S(2) if_True)
    have "?m * ?S \<le> region div B"
      by (rule order_trans [OF mult_le_mono1 [OF min.cobounded2]],
          rule order_trans [OF div_times_less_eq_dividend mod_less_eq_dividend])
    then have "?m * ?S * B \<le> region" by (meson div_times_less_eq_dividend mult_le_mono1 order_trans)
    moreover have "?S * B \<le> region"
      using mult_le_mono1 [OF div_le_dividend [of ?n x], of B] room by linarith
    ultimately show ?thesis
      using True by (simp add: w max_def mult.commute mult.left_commute)
  next
    case False
    let ?m = "min ?d (region div x div B mod 2 ^ 32)"
    have w: "ring_waves p region B x = (if ?m div ?S * ?S = 0 then ?S else ?m div ?S * ?S)"
      using False by (simp only: ring_waves_def Let_def S(2) if_False)
    have "?m div ?S * ?S \<le> region div x div B"
      by (rule order_trans [OF div_times_less_eq_dividend],
          rule order_trans [OF min.cobounded2 mod_less_eq_dividend])
    then have "?m div ?S * ?S * B * x \<le> region"
      by (meson div_times_less_eq_dividend mult_le_mono1 order_trans)
    then show ?thesis
      using False one by (simp add: w mult.commute mult.left_commute split del: if_split)
       (simp add: mult.commute mult.left_commute)
  qed
qed

lemma ring_waves_range:
  assumes "0 < x" "x \<le> unat (scratch_num_se p)" and "unat (scratch_num_se p) < 2 ^ 12"
    and "unat (simd_count p div nonzero_or_one (simd_per_cu p)) div x
         * unat (max_slots_scratch_cu p) < 2 ^ 12"
  shows "0 < ring_waves p region B x \<and> ring_waves p region B x < 2 ^ 12"
proof -
  let ?n = "unat (scratch_num_se p)"
  let ?S = "?n div x"
  let ?d = "unat (simd_count p div nonzero_or_one (simd_per_cu p)) div x
               * unat (max_slots_scratch_cu p)"
  have S: "1 \<le> ?S" "max 1 ?S = ?S" "?S < 2 ^ 12"
    using assms(1-3) le_less_trans [OF div_le_dividend [of ?n x]]
    by (simp_all add: Suc_leI div_greater_zero_iff)
  have "min ?d k div ?S * ?S < 2 ^ 12" for k
    using assms(4) div_times_less_eq_dividend [of "min ?d k" ?S] by linarith
  then show ?thesis
    using S assms(4) unfolding ring_waves_def Let_def S(2)
    by (simp add: max_def min_less_iff_disj del: mult_is_0)
qed


definition demo_props :: node_properties where
  "demo_props = empty_properties\<lparr>simd_count := 192, simd_per_cu := 2, array_count := 12,
     simd_arrays_per_engine := 2, max_slots_scratch_cu := 32, gfx_target_version := 110000\<rparr>"


section \<open>Where the sizes do not behave\<close>

text \<open>
  A device with more XCCs than shader engines: the GFX11 branch divides by the unguarded
  quotient, although the same quotient is guarded a few lines above.
\<close>

lemma tmpring_divides_by_zero:
  "compute_tmpring_size (demo_props\<lparr>num_xcc := 8\<rparr>) 100 0x200000 0 = Inl UB"
  by (simp add: demo_props_def empty_properties_def scratch_num_se_def nonzero_or_one_def
      scratch_alignment_unit_def max_wave_scratch_def gfx_consts compute_tmpring_size_def Let_def
      div_u32_def scratch_per_wave_def align_up_def SCRATCH_LANES_PER_WAVE_def)

text \<open>
  The slot count is rounded up with \<^verbatim>\<open>align_up\<close>, which is meant for powers of two: with six
  shader engines and one compute unit more than a multiple, the rounded number is not a multiple
  of the engines.
\<close>

lemma slots_not_engine_aligned:
  "scratch_device_slots (demo_props\<lparr>simd_count := 194, max_slots_scratch_cu := 1\<rparr>) 1 = 98
   \<and> \<not> (6 dvd unat (98 :: u32))"
  by (simp add: demo_props_def empty_properties_def scratch_num_se_def nonzero_or_one_def
      scratch_device_slots_def Let_def align_up_def)

end
