(* ===== verification/Pm4_Exec.thy ===== *)
theory Pm4_Exec
  imports Pm4
begin

text \<open>
  What the command processor does with a buffer: \<open>walk\<close> splits it into packets by the length
  in each header, \<open>run_pm4\<close> applies the register writes among them. This is the contract the
  builders of \<^verbatim>\<open>pm4.h\<close> are written against, stated from the layout comments of that header;
  a header whose count field is all ones is the one-dword no-op of \<^verbatim>\<open>CMD_NOP\<close>.
\<close>

section \<open>Header fields\<close>

definition hdr_type :: "u32 \<Rightarrow> nat" where "hdr_type h = unat (drop_bit 30 h)"
definition hdr_op :: "u32 \<Rightarrow> u8" where "hdr_op h = ucast (drop_bit 8 h)"
definition hdr_count :: "u32 \<Rightarrow> nat" where "hdr_count h = unat (drop_bit 16 h AND mask 14)"

lemma bit_3: "bit (3 :: u32) m \<longleftrightarrow> m = 0 \<or> m = 1"
proof -
  have "(3 :: u32) = mask 2" by (simp add: mask_eq_exp_minus_1)
  then show ?thesis by (auto simp only: bit_mask_iff) (auto simp: possible_bit_word)
qed

lemma bit_header:
  "bit (header opc cnt) n \<longleftrightarrow>
     n = 1 \<or> (8 \<le> n \<and> bit opc (n - 8)) \<or> (16 \<le> n \<and> bit cnt (n - 16)) \<or> n = 30 \<or> n = 31"
proof -
  have "1 \<le> n \<and> n < 32 \<and> n - 1 = 0 \<longleftrightarrow> n = 1" by arith
  moreover have "8 \<le> n \<and> n < 32 \<and> n - 8 < 32 \<and> bit opc (n - 8) \<longleftrightarrow> 8 \<le> n \<and> bit opc (n - 8)"
    using bit_imp_le_length [of opc "n - 8"] by auto
  moreover have "16 \<le> n \<and> n < 32 \<and> n - 16 < 32 \<and> bit cnt (n - 16)
      \<longleftrightarrow> 16 \<le> n \<and> bit cnt (n - 16)"
    using bit_imp_le_length [of cnt "n - 16"] by auto
  moreover have "30 \<le> n \<and> n < 32 \<and> (n - 30 = 0 \<or> n - 30 = 1) \<longleftrightarrow> n = 30 \<or> n = 31" by arith
  moreover have "bit (1 :: u32) m \<longleftrightarrow> m = 0" for m by (simp add: bit_1_iff)
  ultimately show ?thesis
    by (simp only: header_def bit_or_iff bit_push_bit_iff bit_ucast_iff possible_bit_word bit_3
        len_num1 len_bit0 mult_1_right numeral_eq_iff semiring_norm disj_assoc conj_assoc mult_2
        numeral_plus_numeral)
qed

lemma hdr_type_header [simp]: "hdr_type (header opc cnt) = 3"
proof -
  have "bit (drop_bit 30 (header opc cnt)) n \<longleftrightarrow> bit (3 :: u32) n" for n
    unfolding bit_drop_bit_eq bit_header bit_3 comp_def
    using bit_imp_le_length [of opc "22 + n"] bit_imp_le_length [of cnt "14 + n"]
    by auto
  then have "drop_bit 30 (header opc cnt) = 3" by (rule bit_eqI)
  then show ?thesis by (simp add: hdr_type_def)
qed

lemma hdr_op_header [simp]: "hdr_op (header opc cnt) = opc"
  unfolding hdr_op_def
  by (rule bit_word_eqI)
    (auto simp: bit_ucast_iff bit_drop_bit_eq bit_header)

lemma hdr_count_header:
  assumes "unat cnt < 2 ^ 14"
  shows "hdr_count (header opc cnt) = unat cnt"
proof -
  have c: "n < 14" if "bit cnt n" for n
    using not_bit_above [OF assms, of n] that by (metis leI)
  have "drop_bit 16 (header opc cnt) AND mask 14 = ucast cnt"
    by (rule bit_word_eqI)
      (auto simp: bit_and_iff bit_mask_iff bit_ucast_iff bit_drop_bit_eq bit_header
        dest: c bit_imp_le_length)
  then show ?thesis by (simp add: hdr_count_def)
qed

lemma header_inj:
  "header opc cnt = header opc' cnt' \<Longrightarrow> unat cnt < 2 ^ 14 \<Longrightarrow> unat cnt' < 2 ^ 14 \<Longrightarrow> cnt = cnt'"
  by (metis hdr_count_header word_unat_eq_iff)

section \<open>Splitting a buffer into packets\<close>

type_synonym pm4_packet = "u8 \<times> u32 list"

function walk :: "u32 list \<Rightarrow> pm4_packet list option" where
  "walk [] = Some []"
| "walk (h # xs) =
     (if h = CMD_NOP then map_option (Cons (op_code NOP, [])) (walk xs)
      else if hdr_type h \<noteq> 3 \<or> length xs < hdr_count h + 1 then None
      else map_option (Cons (hdr_op h, take (hdr_count h + 1) xs))
             (walk (drop (hdr_count h + 1) xs)))"
  by pat_completeness auto
termination
  by (relation "measure length") auto

text \<open>\<open>emits xs ps\<close>: wherever it stands, \<open>xs\<close> is exactly the whole packets \<open>ps\<close>.\<close>

definition emits :: "u32 list \<Rightarrow> pm4_packet list \<Rightarrow> bool" where
  "emits xs ps \<longleftrightarrow> (\<forall>rest. walk (xs @ rest) = map_option ((@) ps) (walk rest))"

named_theorems emits_intros \<open>buffers made of whole packets\<close>

lemma emits_walk: "emits xs ps \<Longrightarrow> walk xs = Some ps"
  unfolding emits_def by (drule spec [of _ "[]"]) simp

lemma emits_Nil [emits_intros, simp]: "emits [] []"
  by (simp add: emits_def map_option_case split: option.splits)

lemma emits_append [emits_intros]: "emits xs ps \<Longrightarrow> emits ys qs \<Longrightarrow> emits (xs @ ys) (ps @ qs)"
  by (simp add: emits_def map_option_case split: option.splits)

lemma emits_packet:
  assumes "body \<noteq> []" and "length body < 2 ^ 14" and "cnt = of_nat (length body - 1)"
  shows "emits (header opc cnt # body) [(opc, body)]"
proof -
  have c: "unat cnt = length body - 1" "unat cnt < 2 ^ 14"
    using assms by (simp_all add: unat_of_nat)
  then have h: "hdr_count (header opc cnt) + 1 = length body"
    using assms(1) by (simp add: hdr_count_header)
  have "header opc cnt \<noteq> CMD_NOP"
  proof
    assume "header opc cnt = CMD_NOP"
    then have "cnt = 0x3FFF" using c unfolding CMD_NOP_def by (intro header_inj) simp_all
    with c assms show False by simp
  qed
  with h show ?thesis
    by (auto simp: emits_def map_option_case split: option.splits)
qed

lemma emits_cmd_nop [emits_intros]: "emits [CMD_NOP] [(op_code NOP, [])]"
  by (simp add: emits_def map_option_case split: option.splits)

section \<open>Every builder emits one whole packet\<close>

lemma emits_builders [emits_intros]:
  "emits (write_data a v d p w) [(op_code WRITE_DATA, tl (write_data a v d p w))]"
  "emits (dma_data ctl sa da n fl) [(op_code DMA_DATA, tl (dma_data ctl sa da n fl))]"
  "emits (release_mem o2 ds is a v64 cid) [(op_code RELEASE_MEM, tl (release_mem o2 ds is a v64 cid))]"
  "emits (wait_reg_mem gfx a c v msk opt) [(op_code WAIT_REG_MEM, tl (wait_reg_mem gfx a c v msk opt))]"
  "emits (atomic_mem aop a sd cd cmd p) [(op_code ATOMIC_MEM, tl (atomic_mem aop a sd cd cmd p))]"
  "emits (dispatch_direct x y z i) [(op_code DISPATCH_DIRECT, [x, y, z, i])]"
  "emits (indirect_buffer ib ln p) [(op_code INDIRECT_BUFFER, tl (indirect_buffer ib ln p))]"
  unfolding write_data_def dma_data_def release_mem_def wait_reg_mem_def atomic_mem_def
    dispatch_direct_def indirect_buffer_def list.sel
  by (intro emits_packet; simp)+

lemma emits_dma [emits_intros]:
  "emits (dma_data_copy d s n) [(op_code DMA_DATA, tl (dma_data_copy d s n))]"
  "emits (dma_data_fill d v n) [(op_code DMA_DATA, tl (dma_data_fill d v n))]"
  unfolding dma_data_copy_def dma_data_fill_def by (rule emits_builders)+

lemma emits_release [emits_intros]:
  "emits (release_mem_fence gfx a v) [(op_code RELEASE_MEM, tl (release_mem_fence gfx a v))]"
  "emits (release_mem_event gfx a v32 cid) [(op_code RELEASE_MEM, tl (release_mem_event gfx a v32 cid))]"
  "emits (release_mem_flush gfx) [(op_code RELEASE_MEM, tl (release_mem_flush gfx))]"
  unfolding release_mem_fence_def release_mem_event_def release_mem_flush_def
  by (rule emits_builders)+

lemma emits_acquire [emits_intros]:
  "emits (acquire_mem gfx fl) [(op_code ACQUIRE_MEM, tl (acquire_mem gfx fl))]"
  by (cases "gfx \<ge> GFX_VERSION_GFX10_1")
    (simp_all add: acquire_mem_def Let_def emits_packet)

lemma emits_set_sh_reg [emits_intros]:
  assumes "length vs < 2 ^ 13"
  shows "emits (set_sh_reg a vs) [(op_code SET_SH_REG, (a - SH_BASE) # vs)]"
  unfolding set_sh_reg_def using assms by (intro emits_packet) simp_all

lemma emits_nop_fill [emits_intros]:
  assumes "1 < unat n" and "unat n \<le> 2 ^ 14"
  shows "emits (nop_fill n) [(op_code NOP, replicate (unat n - 1) 0)]"
proof -
  have n: "n \<noteq> 0" "n \<noteq> 1" using assms(1) by auto
  have m: "unat (n - 2) = unat n - 2" "unat (n - 1) = unat n - 1"
    using assms(1) by (simp_all add: unat_sub_no_wrap)
  then have "(ucast (n - 2) :: u16) = of_nat (unat n - 2)"
    by (simp add: word_unat_eq_iff unat_ucast_mod unat_of_nat)
  with n m show ?thesis
    using assms by (auto simp: nop_fill_def intro!: emits_packet)
qed

section \<open>Executing the register writes\<close>

type_synonym regs = "u32 \<Rightarrow> u32"

fun load_regs :: "u32 \<Rightarrow> u32 list \<Rightarrow> regs \<Rightarrow> regs" where
  "load_regs a [] r = r"
| "load_regs a (v # vs) r = load_regs (a + 1) vs (r(a := v))"

fun exec_packet :: "pm4_packet \<Rightarrow> regs \<Rightarrow> regs" where
  "exec_packet (opc, []) r = r"
| "exec_packet (opc, off # vs) r =
     (if opc = op_code SET_SH_REG then load_regs (SH_BASE + off) vs r else r)"

definition run_pm4 :: "u32 list \<Rightarrow> regs \<Rightarrow> regs option" where
  "run_pm4 xs r = map_option (\<lambda>ps. fold exec_packet ps r) (walk xs)"

text \<open>\<open>runs xs f\<close>: wherever it stands, \<open>xs\<close> is whole packets whose effect is \<open>f\<close>.\<close>

definition runs :: "u32 list \<Rightarrow> (regs \<Rightarrow> regs) \<Rightarrow> bool" where
  "runs xs f \<longleftrightarrow> (\<exists>ps. emits xs ps \<and> fold exec_packet ps = f)"

named_theorems runs_intros \<open>effect of the builders on the registers\<close>

lemma runs_run: "runs xs f \<Longrightarrow> run_pm4 xs r = Some (f r)"
  by (auto simp: runs_def run_pm4_def dest: emits_walk)

lemma runs_Nil [runs_intros]: "runs [] id"
  unfolding runs_def by (rule exI [of _ "[]"]) (simp add: id_def)

lemma runs_append [runs_intros]: "runs xs f \<Longrightarrow> runs ys g \<Longrightarrow> runs (xs @ ys) (g \<circ> f)"
  unfolding runs_def by (metis emits_append fold_append)

lemma runs_set_sh_reg [runs_intros]:
  "length vs < 2 ^ 13 \<Longrightarrow> runs (set_sh_reg a vs) (load_regs a vs)"
  unfolding runs_def
  by (rule exI [of _ "[(op_code SET_SH_REG, (a - SH_BASE) # vs)]"])
    (simp add: emits_set_sh_reg fun_eq_iff del: op_code.simps)

lemma runs_other:
  "emits xs [(opc, body)] \<Longrightarrow> opc \<noteq> op_code SET_SH_REG \<Longrightarrow> runs xs id"
  unfolding runs_def
  by (rule exI [of _ "[(opc, body)]"]) (cases body; simp add: fun_eq_iff)

lemma runs_inert [runs_intros]:
  "runs (release_mem_fence gfx a v) id" "runs (release_mem_event gfx a v32 cid) id"
  "runs (wait_reg_mem gfx a c v32 msk opt) id" "runs (indirect_buffer ib ln p) id"
  "runs (acquire_mem gfx fl) id" "runs (dispatch_direct x y z i) id"
  by (rule runs_other, rule emits_intros, simp)+

lemma load_regs_Nil [simp]: "load_regs a [] = id"
  by (simp add: fun_eq_iff)

lemma load_regs_apply:
  assumes "unat a + length vs < 2 ^ 32"
  shows "load_regs a vs r x =
     (if unat a \<le> unat x \<and> unat x < unat a + length vs then vs ! (unat x - unat a) else r x)"
  using assms
proof (induction vs arbitrary: a r)
  case Nil
  then show ?case by auto
next
  case (Cons v vs)
  have a: "unat (a + 1) = unat a + 1"
    using Cons.prems by (subst unat_add_no_wrap) simp_all
  have "x = a \<longleftrightarrow> unat x = unat a" by (simp add: word_unat_eq_iff)
  moreover have "unat (a + 1) + length vs < 2 ^ 32" using Cons.prems by (simp add: a)
  ultimately show ?case
    unfolding load_regs.simps Cons.IH [OF \<open>unat (a + 1) + length vs < 2 ^ 32\<close>]
    by (auto simp: a nth_Cons')
qed

declare load_regs.simps [simp del]

text \<open>A later write of a part of a range is one write of the range with that part replaced.\<close>

definition overwrite :: "nat \<Rightarrow> 'a list \<Rightarrow> 'a list \<Rightarrow> 'a list" where
  "overwrite p vs us = take p us @ vs @ drop (p + length vs) us"

lemma load_regs_overwrite:
  assumes "p + length vs \<le> length us" and "unat a + length us < 2 ^ 32"
  shows "load_regs (a + of_nat p) vs (load_regs a us r) = load_regs a (overwrite p vs us) r"
proof
  fix x
  have p: "unat (a + of_nat p) = unat a + p"
    using assms by (subst unat_add_no_wrap) (simp_all add: unat_of_nat)
  have "length (overwrite p vs us) = length us" using assms(1) by (simp add: overwrite_def)
  then show "load_regs (a + of_nat p) vs (load_regs a us r) x = load_regs a (overwrite p vs us) r x"
    using assms by (auto simp: load_regs_apply p overwrite_def nth_append)
qed

lemma load_regs_commute:
  assumes "unat a + length us \<le> unat b \<or> unat b + length vs \<le> unat a"
    and "unat a + length us < 2 ^ 32" and "unat b + length vs < 2 ^ 32"
  shows "load_regs a us (load_regs b vs r) = load_regs b vs (load_regs a us r)"
  by (rule ext) (use assms in \<open>auto simp: load_regs_apply\<close>)

lemma load_regs_again:
  "length us = length vs \<Longrightarrow> unat a + length us < 2 ^ 32 \<Longrightarrow>
   load_regs a us (load_regs a vs r) = load_regs a us r"
  by (rule ext) (auto simp: load_regs_apply)

section \<open>The dispatch set-up, executed\<close>

lemma runs_set_scratch_base [runs_intros]:
  "runs (set_scratch_base gfx sb t)
     (load_regs (reg_addr COMPUTE_TMPRING_SIZE) [t] \<circ>
      (if gfx \<ge> GFX_VERSION_GFX9
       then load_regs (reg_addr COMPUTE_DISPATCH_SCRATCH_BASE_LO)
              [lo32 (drop_bit 8 sb), hi32 (drop_bit 8 sb)]
       else id))"
  unfolding set_scratch_base_def
  by (intro runs_append runs_set_sh_reg) (auto intro: runs_intros)

lemma runs_fixed_setup [runs_intros]:
  "runs (fixed_setup gfx kd entry block dyn)
     (load_regs (reg_addr COMPUTE_RESTART_X) [0, 0, 0, 0] \<circ>
      load_regs (reg_addr COMPUTE_STATIC_THREAD_MGMT_SE2) [0xFFFFFFFF, 0xFFFFFFFF] \<circ>
      load_regs (reg_addr COMPUTE_RESOURCE_LIMITS) [0, 0xFFFFFFFF, 0xFFFFFFFF] \<circ>
      load_regs (reg_addr COMPUTE_PGM_RSRC3) [compute_pgm_rsrc3 kd] \<circ>
      load_regs (reg_addr COMPUTE_PGM_RSRC1)
        [if needs_cwsr_priv_wa gfx then compute_pgm_rsrc1 kd OR COMPUTE_PGM_RSRC1_PRIV
         else compute_pgm_rsrc1 kd,
         compute_pgm_rsrc2 kd OR push_bit 15 (lds_blocks kd dyn)] \<circ>
      load_regs (reg_addr COMPUTE_PGM_LO)
        ([lo32 (entry_shifted gfx kd entry), hi32 (entry_shifted gfx kd entry)] @
         (if gfx \<ge> GFX_VERSION_GFX9 then [0, 0] else [])) \<circ>
      load_regs (reg_addr COMPUTE_START_X)
        [0, 0, 0, dim_x block, dim_y block, dim_z block, 0, 0])"
  unfolding fixed_setup_def by (intro runs_append runs_set_sh_reg) simp_all

lemma runs_build_dispatch_setup:
  assumes "runs (fixed_setup gfx kd entry block dyn) f" and "runs (set_scratch_base gfx sb t) g"
  shows "runs (build_dispatch_setup load gfx kd entry block ka dp sb t dyn ps)
     (g \<circ> load_regs (reg_addr COMPUTE_USER_DATA_0) (user_sgprs load gfx kd ka dp sb t ps) \<circ> f)"
proof -
  let ?us = "user_sgprs load gfx kd ka dp sb t ps"
  have "length ?us < 2 ^ 13"
    using user_sgprs_bound(2) [of load gfx kd ka dp sb t ps] by (simp add: MAX_USER_SGPRS_def)
  then have "runs (if length ?us > 0 then set_sh_reg (reg_addr COMPUTE_USER_DATA_0) ?us else [])
      (load_regs (reg_addr COMPUTE_USER_DATA_0) ?us)"
    using runs_Nil
    by (cases "?us = []") (simp_all add: runs_set_sh_reg)
  then show ?thesis
    using assms by (simp add: build_dispatch_setup_def Let_def runs_append flip: comp_assoc)
qed



end
