(* ===== verification/Scratch_Ib.thy ===== *)
theory Scratch_Ib
  imports Pm4_Exec
begin

text \<open>
  The indirect buffer of \<^verbatim>\<open>queue.cpp\<close> with which the watcher thread replaces the scratch
  registers of a dispatch that was encoded before its scratch memory existed.
\<close>

section \<open>Building the buffer\<close>

definition MAX_SCRATCH_IB_DWORDS :: nat where "MAX_SCRATCH_IB_DWORDS = 20"

definition flat_scratch_pos :: "u16 \<Rightarrow> nat" where
  "flat_scratch_pos kprops =
     (if has_prop kprops ENABLE_SGPR_PRIVATE_SEGMENT_BUFFER then 4 else 0) +
     (if has_prop kprops ENABLE_SGPR_DISPATCH_PTR then 2 else 0) +
     (if has_prop kprops ENABLE_SGPR_QUEUE_PTR then 2 else 0) +
     (if has_prop kprops ENABLE_SGPR_KERNARG_SEGMENT_PTR then 2 else 0) +
     (if has_prop kprops ENABLE_SGPR_DISPATCH_ID then 2 else 0)"

definition set_scratch_sgprs :: "u32 \<Rightarrow> u64 \<Rightarrow> u32 \<Rightarrow> u16 \<Rightarrow> u32 list" where
  "set_scratch_sgprs gfx base tmpring kprops =
     (if has_prop kprops ENABLE_SGPR_PRIVATE_SEGMENT_BUFFER
      then set_sh_reg (reg_addr COMPUTE_USER_DATA_0) (build_scratch_srd gfx base tmpring kprops)
      else []) @
     (if has_prop kprops ENABLE_SGPR_FLAT_SCRATCH_INIT
      then set_sh_reg (reg_addr COMPUTE_USER_DATA_0 + of_nat (flat_scratch_pos kprops))
             [lo32 base, hi32 base]
      else [])"

text \<open>The stores of the handler into the buffer \<open>ib\<close>, which keeps what they do not reach.\<close>

definition scratch_ib :: "u32 list \<Rightarrow> u32 \<Rightarrow> u64 \<Rightarrow> u32 \<Rightarrow> u16 \<Rightarrow> u32 list" where
  "scratch_ib ib gfx va tmpring kprops =
     (let out = set_scratch_base gfx va tmpring @ set_scratch_sgprs gfx va tmpring kprops;
          n = length out;
          ib' = out @ drop n ib
      in if n + 2 \<le> MAX_SCRATCH_IB_DWORDS
         then ib'[n := header (op_code NOP) (of_nat (MAX_SCRATCH_IB_DWORDS - n - 2))]
         else ib')"

text \<open>The buffer after a failed allocation: one no-op over its whole length.\<close>

definition failed_ib :: "u32 list \<Rightarrow> u32 list" where
  "failed_ib ib = ib[0 := header (op_code NOP) (of_nat (MAX_SCRATCH_IB_DWORDS - 2))]"

section \<open>Its effect\<close>

lemma set_scratch_sgprs_length: "length (set_scratch_sgprs gfx va t kp) \<le> 10"
  by (simp add: set_scratch_sgprs_def)

lemma scratch_ib_fits:
  "length (set_scratch_base gfx va t @ set_scratch_sgprs gfx va t kp) \<le> 17"
  using set_scratch_base_length [of gfx va t] set_scratch_sgprs_length [of gfx va t kp] by simp

lemma runs_set_scratch_sgprs [runs_intros]:
  "runs (set_scratch_sgprs gfx va t kp)
     ((if has_prop kp ENABLE_SGPR_FLAT_SCRATCH_INIT
       then load_regs (reg_addr COMPUTE_USER_DATA_0 + of_nat (flat_scratch_pos kp))
              [lo32 va, hi32 va] else id) \<circ>
      (if has_prop kp ENABLE_SGPR_PRIVATE_SEGMENT_BUFFER
       then load_regs (reg_addr COMPUTE_USER_DATA_0) (build_scratch_srd gfx va t kp) else id))"
  unfolding set_scratch_sgprs_def
  by (intro runs_append) (auto intro: runs_intros)

lemma runs_nop_packet:
  assumes "length body < 2 ^ 14" and "0 < length body"
  shows "runs (header (op_code NOP) (of_nat (length body - 1)) # body) id"
  by (rule runs_other, rule emits_packet) (use assms in simp_all)

lemma runs_scratch_ib:
  assumes "length ib = MAX_SCRATCH_IB_DWORDS"
    and "runs (set_scratch_base gfx va t) f" and "runs (set_scratch_sgprs gfx va t kp) g"
  shows "runs (scratch_ib ib gfx va t kp) (g \<circ> f)"
proof -
  let ?out = "set_scratch_base gfx va t @ set_scratch_sgprs gfx va t kp"
  let ?n = "length ?out"
  have n: "?n \<le> 17" by (rule scratch_ib_fits)
  then obtain h body where d: "drop ?n ib = h # body"
    using assms(1) by (cases "drop ?n ib") (auto simp: MAX_SCRATCH_IB_DWORDS_def)
  have "length (drop ?n ib) = 20 - ?n"
    unfolding length_drop assms(1) MAX_SCRATCH_IB_DWORDS_def ..
  then have "length (h # body) = 20 - ?n" by (simp only: d)
  then have body: "length body = 19 - ?n" by simp
  have "scratch_ib ib gfx va t kp
      = ?out @ header (op_code NOP) (of_nat (length body - 1)) # body"
    using n unfolding scratch_ib_def Let_def d body
    by (simp only: MAX_SCRATCH_IB_DWORDS_def list_update_append length_drop)
      (simp add: diff_diff_left)
  moreover have "runs (?out @ header (op_code NOP) (of_nat (length body - 1)) # body) (id \<circ> (g \<circ> f))"
    using n body assms(2,3) by (intro runs_append runs_nop_packet) simp_all
  ultimately show ?thesis by simp
qed

text \<open>The user SGPRs of a fresh encoding are those of the stale one with the scratch pairs replaced.\<close>

lemma abi_sgprs_override:
  fixes gfx va t kp kd ka dp sb0 t0 ps
  defines "kp \<equiv> kernel_code_properties kd"
  defines "old \<equiv> abi_sgprs gfx kd ka dp sb0 t0 ps"
  defines "mid \<equiv> (if has_prop kp ENABLE_SGPR_PRIVATE_SEGMENT_BUFFER
                  then overwrite 0 (build_scratch_srd gfx va t kp) old else old)"
  shows "abi_sgprs gfx kd ka dp va t ps =
      (if has_prop kp ENABLE_SGPR_FLAT_SCRATCH_INIT
       then overwrite (flat_scratch_pos kp) [lo32 va, hi32 va] mid else mid)"
    and "has_prop kp ENABLE_SGPR_PRIVATE_SEGMENT_BUFFER \<Longrightarrow> 4 \<le> length old"
    and "has_prop kp ENABLE_SGPR_FLAT_SCRATCH_INIT \<Longrightarrow> flat_scratch_pos kp + 2 \<le> length old"
  unfolding mid_def old_def kp_def abi_sgprs_def Let_def flat_scratch_pos_def overwrite_def
  by (simp_all split: if_split)

lemma overwrite_append:
  "p + length vs \<le> length us \<Longrightarrow> overwrite p vs us @ ws = overwrite p vs (us @ ws)"
  by (simp add: overwrite_def)

lemma length_overwrite [simp]:
  "p + length vs \<le> length us \<Longrightarrow> length (overwrite p vs us) = length us"
  by (simp add: overwrite_def)

lemma user_sgprs_override:
  fixes gfx va t kd ka dp sb0 t0 ps load
  defines "kp \<equiv> kernel_code_properties kd"
  defines "old \<equiv> user_sgprs load gfx kd ka dp sb0 t0 ps"
  defines "mid \<equiv> (if has_prop kp ENABLE_SGPR_PRIVATE_SEGMENT_BUFFER
                  then overwrite 0 (build_scratch_srd gfx va t kp) old else old)"
  shows "user_sgprs load gfx kd ka dp va t ps =
      (if has_prop kp ENABLE_SGPR_FLAT_SCRATCH_INIT
       then overwrite (flat_scratch_pos kp) [lo32 va, hi32 va] mid else mid)"
    and "has_prop kp ENABLE_SGPR_PRIVATE_SEGMENT_BUFFER \<Longrightarrow> 4 \<le> length old"
    and "has_prop kp ENABLE_SGPR_FLAT_SCRATCH_INIT \<Longrightarrow> flat_scratch_pos kp + 2 \<le> length old"
proof -
  note a1 = abi_sgprs_override(1) [where gfx = gfx and kd = kd and ka = ka and dp = dp and va = va
    and t = t and ps = ps and ?sb0.0 = sb0 and ?t0.0 = t0, folded kp_def]
  note a2 = abi_sgprs_override(2,3) [where gfx = gfx and kd = kd and ka = ka and dp = dp
    and ps = ps and ?sb0.0 = sb0 and ?t0.0 = t0, folded kp_def]
  have len: "length (abi_sgprs gfx kd ka dp va t ps) = length (abi_sgprs gfx kd ka dp sb0 t0 ps)"
    by (simp add: abi_sgprs_def Let_def)
  show "has_prop kp ENABLE_SGPR_PRIVATE_SEGMENT_BUFFER \<Longrightarrow> 4 \<le> length old"
    "has_prop kp ENABLE_SGPR_FLAT_SCRATCH_INIT \<Longrightarrow> flat_scratch_pos kp + 2 \<le> length old"
    using a2 by (simp_all add: old_def user_sgprs_def Let_def trans_le_add1)
  show "user_sgprs load gfx kd ka dp va t ps =
      (if has_prop kp ENABLE_SGPR_FLAT_SCRATCH_INIT
       then overwrite (flat_scratch_pos kp) [lo32 va, hi32 va] mid else mid)"
    unfolding user_sgprs_def Let_def len mid_def old_def
    unfolding a1 using a2
    by (simp add: overwrite_append split del: if_split)
      (simp add: overwrite_append split: if_split)
qed

definition user_effect ::
    "u32 \<Rightarrow> u64 \<Rightarrow> u32 \<Rightarrow> u16 \<Rightarrow> u32 list \<Rightarrow> u32 list" where
  "user_effect gfx va t kp us =
     (let mid = (if has_prop kp ENABLE_SGPR_PRIVATE_SEGMENT_BUFFER
                 then overwrite 0 (build_scratch_srd gfx va t kp) us else us)
      in if has_prop kp ENABLE_SGPR_FLAT_SCRATCH_INIT
         then overwrite (flat_scratch_pos kp) [lo32 va, hi32 va] mid else mid)"

lemma sgpr_loads:
  assumes "length us \<le> 32"
    and "has_prop kp ENABLE_SGPR_PRIVATE_SEGMENT_BUFFER \<Longrightarrow> 4 \<le> length us"
    and "has_prop kp ENABLE_SGPR_FLAT_SCRATCH_INIT \<Longrightarrow> flat_scratch_pos kp + 2 \<le> length us"
  shows "((if has_prop kp ENABLE_SGPR_FLAT_SCRATCH_INIT
       then load_regs (reg_addr COMPUTE_USER_DATA_0 + of_nat (flat_scratch_pos kp))
              [lo32 va, hi32 va] else id) \<circ>
      (if has_prop kp ENABLE_SGPR_PRIVATE_SEGMENT_BUFFER
       then load_regs (reg_addr COMPUTE_USER_DATA_0) (build_scratch_srd gfx va t kp) else id))
      (load_regs (reg_addr COMPUTE_USER_DATA_0) us r)
    = load_regs (reg_addr COMPUTE_USER_DATA_0) (user_effect gfx va t kp us) r"
  using assms load_regs_overwrite [of 0 "build_scratch_srd gfx va t kp" us "reg_addr COMPUTE_USER_DATA_0" r]
  by (auto simp: user_effect_def Let_def load_regs_overwrite)

text \<open>The scratch registers lie outside the user SGPRs.\<close>

definition scratch_effect :: "u32 \<Rightarrow> u64 \<Rightarrow> u32 \<Rightarrow> regs \<Rightarrow> regs" where
  "scratch_effect gfx sb t =
     load_regs (reg_addr COMPUTE_TMPRING_SIZE) [t] \<circ>
      (if gfx \<ge> GFX_VERSION_GFX9
       then load_regs (reg_addr COMPUTE_DISPATCH_SCRATCH_BASE_LO)
              [lo32 (drop_bit 8 sb), hi32 (drop_bit 8 sb)]
       else id)"

lemma scratch_effect_again: "scratch_effect gfx va t (scratch_effect gfx sb0 t0 r) = scratch_effect gfx va t r"
  by (rule ext) (simp add: scratch_effect_def load_regs_apply)

lemma scratch_effect_user:
  assumes "length us \<le> 32"
  shows "scratch_effect gfx va t (load_regs (reg_addr COMPUTE_USER_DATA_0) us r)
    = load_regs (reg_addr COMPUTE_USER_DATA_0) us (scratch_effect gfx va t r)"
  by (rule ext) (use assms in \<open>auto simp: scratch_effect_def load_regs_apply\<close>)

text \<open>
  C7. A dispatch encoded with stale scratch values followed by the watcher's indirect buffer
  leaves every register as the same dispatch encoded with the new values would: nothing of the
  stale encoding survives, and nothing else is disturbed.
\<close>

theorem scratch_ib_overrides:
  assumes "length ib = MAX_SCRATCH_IB_DWORDS"
  shows "run_pm4 (build_dispatch_setup load gfx kd entry block ka dp stale_va stale_t dyn ps @
            scratch_ib ib gfx va t (kernel_code_properties kd)) r
       = run_pm4 (build_dispatch_setup load gfx kd entry block ka dp va t dyn ps) r"
proof -
  let ?kp = "kernel_code_properties kd" and ?U = "reg_addr COMPUTE_USER_DATA_0"
  let ?us = "\<lambda>sb t. user_sgprs load gfx kd ka dp sb t ps"
  note se = runs_set_scratch_base [folded scratch_effect_def]
  obtain f where f: "runs (fixed_setup gfx kd entry block dyn) f"
    using runs_fixed_setup by blast
  obtain g where g: "runs (set_scratch_sgprs gfx va t ?kp) g"
    "\<And>us r. \<lbrakk>length us \<le> 32; has_prop ?kp ENABLE_SGPR_PRIVATE_SEGMENT_BUFFER \<Longrightarrow> 4 \<le> length us;
       has_prop ?kp ENABLE_SGPR_FLAT_SCRATCH_INIT \<Longrightarrow> flat_scratch_pos ?kp + 2 \<le> length us\<rbrakk>
     \<Longrightarrow> g (load_regs ?U us r) = load_regs ?U (user_effect gfx va t ?kp us) r"
    using runs_set_scratch_sgprs sgpr_loads by blast
  have len: "length (?us sb t') \<le> 32" for sb t'
    using user_sgprs_bound(2) [of load gfx kd ka dp sb t' ps] by (simp add: MAX_USER_SGPRS_def)
  have ov: "user_effect gfx va t ?kp (?us stale_va stale_t) = ?us va t"
    using user_sgprs_override(1) [of load gfx kd ka dp va t ps stale_va stale_t]
    by (simp add: user_effect_def Let_def)
  have step: "g (scratch_effect gfx va t (scratch_effect gfx stale_va stale_t
          (load_regs ?U (?us stale_va stale_t) q)))
      = scratch_effect gfx va t (load_regs ?U (?us va t) q)" for q
    by (simp only: scratch_effect_again scratch_effect_user [OF len]
        g(2) [OF len user_sgprs_override(2,3)] ov)
  show ?thesis
    using runs_run [OF runs_append [OF runs_build_dispatch_setup [OF f se]
          runs_scratch_ib [OF assms se g(1)]]]
      runs_run [OF runs_build_dispatch_setup [OF f se]]
    by (simp only: comp_def step)
qed

definition scratch_kd :: kernel_descriptor where
  "scratch_kd = demo_kd\<lparr>kernel_code_properties := 0x6B\<rparr>"

lemma scratch_ib_overrides_witness:
  "run_pm4 (build_dispatch_setup (\<lambda>_. 0) 100300 scratch_kd 0x10000
       \<lparr>dim_x = 64, dim_y = 1, dim_z = 1\<rparr> 0x2000 0 0 0 0 64 @
     scratch_ib (replicate 20 7) 100300 0x7F0000000000 0x4020 (kernel_code_properties scratch_kd)) (\<lambda>_. 0)
   = run_pm4 (build_dispatch_setup (\<lambda>_. 0) 100300 scratch_kd 0x10000
       \<lparr>dim_x = 64, dim_y = 1, dim_z = 1\<rparr> 0x2000 0 0x7F0000000000 0x4020 0 64) (\<lambda>_. 0)"
  by (rule scratch_ib_overrides) (simp add: MAX_SCRATCH_IB_DWORDS_def)

end
