(* ===== verification/Sdma.thy ===== *)
theory Sdma
  imports Pm4
begin

text \<open>
  \<^verbatim>\<open>packets/sdma.h\<close>: the packets of the SDMA engine, as lists of dwords. The names that also
  exist for PM4 carry the prefix \<open>sdma_\<close>, the C++ namespace. The engine finds the next packet
  by the opcode of the header (and the count of a no-op); \<open>sdma_walk\<close> is that rule, from the
  layout comments, and every builder is shown to emit one whole packet.
\<close>

section \<open>Opcodes and limits\<close>

datatype sdma_opcode =
    SDMA_NOP | SDMA_COPY | SDMA_FENCE | SDMA_TRAP | SDMA_POLL_REGMEM | SDMA_ATOMIC
  | SDMA_CONST_FILL | SDMA_TIMESTAMP | SDMA_GCR_REQ

fun sdma_code :: "sdma_opcode \<Rightarrow> u32" where
  "sdma_code SDMA_NOP = 0"
| "sdma_code SDMA_COPY = 1"
| "sdma_code SDMA_FENCE = 5"
| "sdma_code SDMA_TRAP = 6"
| "sdma_code SDMA_POLL_REGMEM = 8"
| "sdma_code SDMA_ATOMIC = 10"
| "sdma_code SDMA_CONST_FILL = 11"
| "sdma_code SDMA_TIMESTAMP = 13"
| "sdma_code SDMA_GCR_REQ = 17"

fun sdma_dwords :: "sdma_opcode \<Rightarrow> nat" where
  "sdma_dwords SDMA_NOP = 1"
| "sdma_dwords SDMA_COPY = 7"
| "sdma_dwords SDMA_FENCE = 4"
| "sdma_dwords SDMA_TRAP = 2"
| "sdma_dwords SDMA_POLL_REGMEM = 6"
| "sdma_dwords SDMA_ATOMIC = 8"
| "sdma_dwords SDMA_CONST_FILL = 5"
| "sdma_dwords SDMA_TIMESTAMP = 3"
| "sdma_dwords SDMA_GCR_REQ = 5"

definition MAX_COPY_LINEAR_22BIT :: u32 where "MAX_COPY_LINEAR_22BIT = 0x3fffe0"
definition MAX_COPY_LINEAR_30BIT :: u32 where "MAX_COPY_LINEAR_30BIT = 0x3ffffffe"

definition max_copy_linear_bytes :: "u32 \<Rightarrow> u32" where
  "max_copy_linear_bytes gfx =
     (let major = gfx div 10000; minor = (gfx div 100) mod 100; step = gfx mod 100
      in if major \<ge> 11 then MAX_COPY_LINEAR_30BIT
         else if major = 10 \<and> minor \<ge> 3 then MAX_COPY_LINEAR_30BIT
         else if major = 9 \<and> (minor \<ge> 4 \<or> step \<ge> 10) then MAX_COPY_LINEAR_30BIT
         else MAX_COPY_LINEAR_22BIT)"

section \<open>Packets\<close>

definition sdma_nop :: "u32 \<Rightarrow> u32 list" where
  "sdma_nop total_dwords = push_bit 16 (total_dwords - 1) # replicate (unat total_dwords - 1) 0"

definition copy_linear :: "u64 \<Rightarrow> u64 \<Rightarrow> u32 \<Rightarrow> u32 list" where
  "copy_linear dst src nbytes =
     [sdma_code SDMA_COPY, if nbytes > 0 then nbytes - 1 else 0, 0,
      lo32 src, hi32 src, lo32 dst, hi32 dst]"

definition sdma_fence :: "u32 \<Rightarrow> u64 \<Rightarrow> u32 \<Rightarrow> u32 list" where
  "sdma_fence gfx addr v =
     [if gfx \<ge> GFX_VERSION_GFX9_A
      then sdma_code SDMA_FENCE OR push_bit 16 3 OR push_bit 20 1 OR push_bit 22 1
      else sdma_code SDMA_FENCE,
      lo32 addr, hi32 addr, v]"

definition sdma_trap :: "u32 \<Rightarrow> u32 list" where
  "sdma_trap int_ctx = [sdma_code SDMA_TRAP, int_ctx AND 0x0FFFFFFF]"

definition const_fill :: "u32 \<Rightarrow> u64 \<Rightarrow> u32 \<Rightarrow> u32 \<Rightarrow> u32 list" where
  "const_fill gfx dst v nbytes =
     [sdma_code SDMA_CONST_FILL OR push_bit 30 2, lo32 dst, hi32 dst, v,
      if gfx \<ge> GFX_VERSION_GFX12 then (if nbytes > 4 then nbytes - 4 else 0)
      else (if nbytes > 0 then nbytes - 1 else 0)]"

definition poll_regmem :: "u64 \<Rightarrow> condition \<Rightarrow> u32 \<Rightarrow> u32 \<Rightarrow> u32 \<Rightarrow> u32 \<Rightarrow> u32 list" where
  "poll_regmem addr cond v msk interval retry_count =
     [sdma_code SDMA_POLL_REGMEM OR push_bit 28 (condition_bits cond) OR push_bit 31 1,
      lo32 addr, hi32 addr, v, msk,
      (interval AND 0xFFFF) OR push_bit 16 (retry_count AND 0xFFF)]"

datatype sdma_atomic_op =
    SDMA_SWAP_32 | SDMA_CMPSWAP_32 | SDMA_ADD_32 | SDMA_SWAP_64 | SDMA_ADD_64

fun sdma_atomic_bits :: "sdma_atomic_op \<Rightarrow> u32" where
  "sdma_atomic_bits SDMA_SWAP_32 = 0x07"
| "sdma_atomic_bits SDMA_CMPSWAP_32 = 0x08"
| "sdma_atomic_bits SDMA_ADD_32 = 0x0F"
| "sdma_atomic_bits SDMA_SWAP_64 = 0x27"
| "sdma_atomic_bits SDMA_ADD_64 = 0x2F"

definition sdma_atomic_mem :: "sdma_atomic_op \<Rightarrow> u64 \<Rightarrow> u64 \<Rightarrow> u64 \<Rightarrow> u32 list" where
  "sdma_atomic_mem aop addr src_data cmp_data =
     (let is_64_bit = (if sdma_atomic_bits aop \<ge> 0x20 then 1 else 0)
      in [sdma_code SDMA_ATOMIC OR push_bit 16 is_64_bit OR push_bit 25 (sdma_atomic_bits aop),
          lo32 addr, hi32 addr, lo32 src_data, hi32 src_data, lo32 cmp_data, hi32 cmp_data, 0])"

definition timestamp :: "u64 \<Rightarrow> u32 list" where
  "timestamp addr = [sdma_code SDMA_TIMESTAMP OR push_bit 8 2, lo32 addr, hi32 addr]"

definition GCR_FLUSH_ALL :: u32 where
  "GCR_FLUSH_ALL = push_bit 0 1 OR push_bit 5 1 OR push_bit 7 1 OR push_bit 8 1 OR push_bit 9 1 OR
     push_bit 14 1 OR push_bit 15 1"

definition gcr_req :: "u32 \<Rightarrow> u32 list" where
  "gcr_req cntl =
     [sdma_code SDMA_GCR_REQ, 0, push_bit 16 (cntl AND 0xFFFF), drop_bit 16 cntl AND 0x7, 0]"

section \<open>Every builder emits one whole packet\<close>

definition sdma_opcodes :: "sdma_opcode list" where
  "sdma_opcodes = [SDMA_NOP, SDMA_COPY, SDMA_FENCE, SDMA_TRAP, SDMA_POLL_REGMEM, SDMA_ATOMIC,
     SDMA_CONST_FILL, SDMA_TIMESTAMP, SDMA_GCR_REQ]"

definition sdma_op_of :: "u32 \<Rightarrow> sdma_opcode option" where
  "sdma_op_of h = find (\<lambda>opc. sdma_code opc = h AND 0xFF) sdma_opcodes"

definition sdma_size :: "u32 \<Rightarrow> nat option" where
  "sdma_size h =
     (case sdma_op_of h of None \<Rightarrow> None
      | Some SDMA_NOP \<Rightarrow> Some (unat (drop_bit 16 h AND 0x3FFF) + 1)
      | Some opc \<Rightarrow> Some (sdma_dwords opc))"

function sdma_walk :: "u32 list \<Rightarrow> u32 list list option" where
  "sdma_walk [] = Some []"
| "sdma_walk (h # xs) =
     (case sdma_size h of None \<Rightarrow> None
      | Some n \<Rightarrow> if length xs < n - 1 then None
                 else map_option (Cons (h # take (n - 1) xs)) (sdma_walk (drop (n - 1) xs)))"
  by pat_completeness auto
termination
  by (relation "measure length") auto

definition sdma_packet :: "u32 list \<Rightarrow> bool" where
  "sdma_packet xs \<longleftrightarrow> xs \<noteq> [] \<and> sdma_size (hd xs) = Some (length xs)"

lemma sdma_walk_packet:
  "sdma_packet xs \<Longrightarrow> sdma_walk (xs @ rest) = map_option (Cons xs) (sdma_walk rest)"
  by (cases xs) (auto simp: sdma_packet_def)

lemma sdma_walk_packets:
  "\<forall>p\<in>set ps. sdma_packet p \<Longrightarrow> sdma_walk (concat ps) = Some ps"
  by (induction ps) (simp_all add: sdma_walk_packet)

lemma sdma_op_of_code:
  assumes "h AND 0xFF = sdma_code opc"
  shows "sdma_op_of h = Some opc"
  by (cases opc) (simp_all add: sdma_op_of_def sdma_opcodes_def assms)

lemma low_byte_push:
  fixes b :: u32
  assumes "8 \<le> n"
  shows "push_bit n b AND 0xFF = 0"
proof -
  have m: "(0xFF :: u32) = mask 8" by (simp add: mask_eq_exp_minus_1)
  show ?thesis unfolding m
    by (rule bit_word_eqI)
      (use assms in \<open>auto simp: bit_simps\<close>)
qed

lemma low_byte_or: "(a OR b) AND (0xFF :: u32) = (a AND 0xFF) OR (b AND 0xFF)"
  by (rule bit.conj_disj_distrib2)

lemma sdma_packets:
  "sdma_packet (copy_linear d s n)"
  "sdma_packet (sdma_fence gfx a v)"
  "sdma_packet (sdma_trap ctx)"
  "sdma_packet (const_fill gfx d v n)"
  "sdma_packet (poll_regmem a c v msk iv rc)"
  "sdma_packet (sdma_atomic_mem aop a sd cd)"
  "sdma_packet (timestamp a)"
  "sdma_packet (gcr_req cntl)"
proof -
  have *: "sdma_packet xs"
    if "xs = h # t" "h AND 0xFF = sdma_code opc" "length xs = sdma_dwords opc" "opc \<noteq> SDMA_NOP"
    for xs h t opc
    using that sdma_op_of_code [OF that(2)]
    by (cases opc) (simp_all add: sdma_packet_def sdma_size_def)
  have low: "sdma_code opc AND 0xFF = sdma_code opc" for opc
    by (cases opc; simp only: sdma_code.simps; code_simp)
  show "sdma_packet (copy_linear d s n)"
    unfolding copy_linear_def by (rule * [OF refl low]) simp_all
  show "sdma_packet (sdma_fence gfx a v)"
    by (rule * [of _ _ _ SDMA_FENCE]) (auto simp: sdma_fence_def)
  show "sdma_packet (sdma_trap ctx)"
    unfolding sdma_trap_def by (rule * [OF refl low]) simp_all
  show "sdma_packet (const_fill gfx d v n)"
    unfolding const_fill_def
    by (rule * [of _ _ _ SDMA_CONST_FILL], rule refl) (code_simp, simp_all)
  show "sdma_packet (poll_regmem a c v msk iv rc)"
    unfolding poll_regmem_def
    by (rule * [of _ _ _ SDMA_POLL_REGMEM], rule refl)
      (simp only: low_byte_or low low_byte_push [of 28, simplified] low_byte_push [of 31, simplified]
        or.right_neutral, simp_all)
  show "sdma_packet (sdma_atomic_mem aop a sd cd)"
    unfolding sdma_atomic_mem_def Let_def
    by (rule * [of _ _ _ SDMA_ATOMIC], rule refl)
      (simp only: low_byte_or low low_byte_push [of 16, simplified] low_byte_push [of 25, simplified]
        or.right_neutral, simp_all)
  show "sdma_packet (timestamp a)"
    unfolding timestamp_def
    by (rule * [of _ _ _ SDMA_TIMESTAMP], rule refl) (code_simp, simp_all)
  show "sdma_packet (gcr_req cntl)"
    unfolding gcr_req_def by (rule * [OF refl low]) simp_all
qed

lemma sdma_packet_nop:
  assumes "0 < unat n" and "unat n \<le> 2 ^ 14"
  shows "sdma_packet (sdma_nop n)"
proof -
  have u: "unat (n - 1) = unat n - 1" using assms(1) by (simp add: unat_sub_no_wrap)
  have m: "(0x3FFF :: u32) = mask 14" by (simp add: mask_eq_exp_minus_1)
  have b: "k < 14" if "bit (n - 1) k" for k
    using not_bit_above [of "n - 1" 14 k] u assms that by (metis (no_types, lifting) leI
        One_nat_def Suc_pred less_eq_Suc_le)
  have "push_bit 16 (n - 1) AND 0xFF = 0"
    by (rule low_byte_push) simp
  moreover have "drop_bit 16 (push_bit 16 (n - 1)) AND 0x3FFF = n - 1"
    unfolding m by (rule bit_word_eqI)
      (auto simp only: bit_and_iff bit_mask_iff bit_push_bit_iff bit_drop_bit_eq comp_def
        possible_bit_word, auto dest: b)
  ultimately show ?thesis
    using u assms(1) sdma_op_of_code [of "push_bit 16 (n - 1)" SDMA_NOP]
    by (simp add: sdma_packet_def sdma_nop_def sdma_size_def)
qed

end
