(* ===== verification/Queue_Ring.thy ===== *)
theory Queue_Ring
  imports Sdma Scratch_Ib
begin

text \<open>
  The ring buffer of \<^verbatim>\<open>QueueBase\<close>: waiting for room, padding the end of the ring, publishing
  the write pointer. The device is the environment: a poll is what the loop reads from it, the low
  half of the read pointer and the clock. \<open>None\<close> means that the loop is still spinning after
  the polls it was given; that a poll past the deadline ends it is proved below.
\<close>

section \<open>State and operations\<close>

datatype queue_type = COMPUTE | SDMA | SDMA_XGMI

record ring_queue =
  q_type :: queue_type
  ring :: "u32 list"
  pending_wptr :: u64
  write_ptr :: u64
  doorbell :: u64

text \<open>What the clock shows when the wait starts, and the read pointer and clock of each poll.\<close>

type_synonym room_env = "u64 \<times> (u32 \<times> u64) list"

definition ring_dwords :: "ring_queue \<Rightarrow> nat" where
  "ring_dwords q = length (ring q)"

definition cap_of :: "ring_queue \<Rightarrow> u32" where
  "cap_of q = of_nat (ring_dwords q)"

definition pos_of :: "ring_queue \<Rightarrow> u32" where
  "pos_of q = ucast (pending_wptr q AND ucast (cap_of q - 1))"

definition to_hw :: "queue_type \<Rightarrow> u64 \<Rightarrow> u64" where
  "to_hw ty wptr = (if ty = SDMA then wptr * 4 else wptr)"

definition in_flight :: "ring_queue \<Rightarrow> u32 \<Rightarrow> u32" where
  "in_flight q rp =
     (let rp = (if q_type q = SDMA then rp div 4 else rp)
      in (pos_of q + cap_of q - rp) mod cap_of q)"

fun room_loop :: "ring_queue \<Rightarrow> u32 \<Rightarrow> u64 \<Rightarrow> (u32 \<times> u64) list \<Rightarrow> unit res option" where
  "room_loop q dwords deadline [] = None"
| "room_loop q dwords deadline ((rp, now) # polls) =
     (if in_flight q rp + dwords < cap_of q then Some (Inr ())
      else if now \<ge> deadline then Some (Inl ETIMEDOUT)
      else room_loop q dwords deadline polls)"

definition TIMEOUT_US :: u64 where "TIMEOUT_US = 5000000"

definition wait_for_room :: "ring_queue \<Rightarrow> u32 \<Rightarrow> room_env \<Rightarrow> unit res option" where
  "wait_for_room q dwords env =
     (case env of (start, polls) \<Rightarrow> room_loop q dwords (start + TIMEOUT_US * 1000) polls)"

text \<open>Stores of consecutive dwords; outside the ring they are undefined.\<close>

definition ring_store :: "nat \<Rightarrow> u32 list \<Rightarrow> u32 list \<Rightarrow> u32 list res" where
  "ring_store p vs xs = (if p + length vs \<le> length xs then Inr (overwrite p vs xs) else Inl UB)"

definition publish :: "ring_queue \<Rightarrow> ring_queue" where
  "publish q = q\<lparr>write_ptr := to_hw (q_type q) (pending_wptr q),
                doorbell := to_hw (q_type q) (pending_wptr q)\<rparr>"

text \<open>Wait, store, advance, publish: what both halves of a submission do.\<close>

definition put_dwords ::
    "ring_queue \<Rightarrow> u32 \<Rightarrow> u32 list \<Rightarrow> room_env \<Rightarrow> (unit res \<times> ring_queue) option" where
  "put_dwords q pos vs env =
     (case wait_for_room q (of_nat (length vs)) env of
        None \<Rightarrow> None
      | Some (Inl x) \<Rightarrow> Some (Inl x, q)
      | Some (Inr _) \<Rightarrow>
          (case ring_store (unat pos) vs (ring q) of
             Inl x \<Rightarrow> Some (Inl x, q)
           | Inr xs \<Rightarrow> Some (Inr (), publish (q\<lparr>ring := xs,
               pending_wptr := pending_wptr q + of_nat (length vs)\<rparr>))))"

definition padding :: "queue_type \<Rightarrow> u32 \<Rightarrow> u32 list" where
  "padding ty pad = (if ty = SDMA then sdma_nop pad else nop_fill pad)"

definition submit_impl ::
    "ring_queue \<Rightarrow> u32 list \<Rightarrow> room_env \<Rightarrow> room_env \<Rightarrow> (unit res \<times> ring_queue) option" where
  "submit_impl q data env1 env2 =
     (let n = of_nat (length data) :: u32; cap = cap_of q; pos = pos_of q
      in if n = 0 then Some (Inr (), q)
         else if n \<ge> cap then Some (Inl EMSGSIZE, q)
         else if pos + n > cap
         then (case put_dwords q pos (padding (q_type q) (cap - pos)) env1 of
                 None \<Rightarrow> None
               | Some (Inl x, q') \<Rightarrow> Some (Inl x, q')
               | Some (Inr _, q') \<Rightarrow> put_dwords q' 0 (take (unat n) data) env2)
         else put_dwords q pos (take (unat n) data) env2)"

section \<open>The discipline of the ring\<close>

text \<open>
  \<open>ring_ok q log r\<close>: the dwords published so far are \<open>log\<close>, the device has consumed
  \<open>r\<close> of them, and every one it has not consumed still lies in its slot of the ring.
\<close>

definition ring_ok :: "ring_queue \<Rightarrow> u32 list \<Rightarrow> nat \<Rightarrow> bool" where
  "ring_ok q log r \<longleftrightarrow>
     (\<exists>k. ring_dwords q = 2 ^ k \<and> k \<le> 29) \<and>
     r \<le> length log \<and> length log < r + ring_dwords q \<and>
     pending_wptr q = of_nat (length log) \<and>
     write_ptr q = to_hw (q_type q) (of_nat (length log)) \<and>
     doorbell q = write_ptr q \<and>
     (\<forall>i. r \<le> i \<and> i < length log \<longrightarrow> ring q ! (i mod ring_dwords q) = log ! i)"

lemma ring_ok_advance:
  "ring_ok q log r \<Longrightarrow> r \<le> r' \<Longrightarrow> r' \<le> length log \<Longrightarrow> ring_ok q log r'"
  unfolding ring_ok_def by auto

lemma ring_ok_read:
  "ring_ok q log r \<Longrightarrow> r < length log \<Longrightarrow> ring q ! (r mod ring_dwords q) = log ! r"
  unfolding ring_ok_def by auto

text \<open>
  What the device writes to the read pointer after consuming \<open>r\<close> dwords: a compute queue the
  dword position in the ring, an SDMA queue the free-running byte position, as the comment at
  \<^verbatim>\<open>QueueControl\<close> says; the loop reads the low 32 bits.
\<close>

definition hw_rptr :: "queue_type \<Rightarrow> nat \<Rightarrow> nat \<Rightarrow> u32" where
  "hw_rptr ty cap r = (if ty = COMPUTE then of_nat (r mod cap) else of_nat (4 * r))"

lemma cap_of_pow:
  assumes "ring_dwords q = 2 ^ k" and "k \<le> 29"
  shows "unat (cap_of q) = 2 ^ k" and "cap_of q = 2 ^ k"
proof -
  have "k < LENGTH(32)" using assms(2) by simp
  then show "unat (cap_of q) = 2 ^ k" by (simp add: cap_of_def assms(1))
  show "cap_of q = 2 ^ k" by (simp add: cap_of_def assms(1))
qed

lemma mod_pow_small:
  assumes "k \<le> 29"
  shows "(n::nat) mod 2 ^ k < 2 ^ 32"
proof -
  have "n mod 2 ^ k < 2 ^ k" by simp
  also have "\<dots> \<le> 2 ^ 29" using assms by (intro power_increasing) simp_all
  finally show ?thesis by simp
qed

lemma pos_of_pow:
  assumes "ring_dwords q = 2 ^ k" and "k \<le> 29" and "pending_wptr q = of_nat n"
  shows "unat (pos_of q) = n mod 2 ^ k"
proof -
  have m: "cap_of q - 1 = mask k"
    using cap_of_pow(2) [OF assms(1,2)] by (simp add: mask_eq_exp_minus_1)
  have "(ucast (mask k :: u32) :: u64) = mask k"
    by (rule bit_word_eqI) (use assms(2) in \<open>auto simp: bit_simps\<close>)
  then have "pos_of q = ucast (take_bit k (of_nat n :: u64))"
    unfolding pos_of_def m assms(3) by (simp add: take_bit_eq_mask)
  also have "\<dots> = ucast (of_nat (take_bit k n) :: u64)" 
    using assms(2) by (simp add: of_nat_take_bit take_bit_of_nat flip: take_bit_of_nat)
  finally have e: "pos_of q = ucast (of_nat (take_bit k n) :: u64)" .
  have "take_bit k n < 2 ^ 32"
    using mod_pow_small [OF assms(2)] by (simp add: take_bit_eq_mod)
  then show ?thesis unfolding e
    by (simp add: unat_ucast_mod unat_of_nat take_bit_eq_mod)
qed


lemma uint_sub_mod:
  fixes p c r :: u32
  assumes "k \<le> 32"
  shows "int (unat (p + c - r)) mod 2 ^ k = (int (unat p) + int (unat c) - int (unat r)) mod 2 ^ k"
proof -
  have d: "(2::int) ^ k dvd 2 ^ 32" using assms by (rule le_imp_power_dvd)
  have "uint (p + c - r) = (uint p + uint c - uint r) mod 2 ^ 32"
    by (simp add: uint_word_ariths mod_simps)
  then have "uint (p + c - r) mod 2 ^ k = (uint p + uint c - uint r) mod 2 ^ k"
    by (simp only: mod_mod_cancel [OF d])
  then show ?thesis by (simp only: uint_nat)
qed

lemma rptr_mod:
  assumes "k \<le> 29" and "ty \<noteq> SDMA_XGMI"
  shows "unat (if ty = SDMA then hw_rptr ty (2 ^ k) r div 4 else hw_rptr ty (2 ^ k) r) mod 2 ^ k
    = r mod 2 ^ k"
proof (cases "ty = SDMA")
  case True
  have "4 * r mod 2 ^ 32 div 4 = r mod 2 ^ 30"
    using mult_mod_right [of 4 r "2 ^ 30"] by simp
  moreover have "(2::nat) ^ k dvd 2 ^ 30" using assms(1) by (intro le_imp_power_dvd) simp
  ultimately show ?thesis
    using True by (simp add: hw_rptr_def unat_div unat_of_nat mod_mod_cancel flip: of_nat_mult)
next
  case False
  with assms(2) have ty: "ty = COMPUTE" by (cases ty) simp_all
  have "r mod 2 ^ k < 2 ^ 32" by (rule mod_pow_small [OF assms(1)])
  then show ?thesis by (simp add: ty hw_rptr_def unat_of_nat)
qed

lemma in_flight_exact:
  assumes q: "ring_dwords q = 2 ^ k" "k \<le> 29" "pending_wptr q = of_nat n"
    and ty: "q_type q \<noteq> SDMA_XGMI" and r: "r \<le> n" "n < r + 2 ^ k"
  shows "unat (in_flight q (hw_rptr (q_type q) (2 ^ k) r)) = n - r"
proof -
  define rp where "rp = (if q_type q = SDMA then hw_rptr (q_type q) (2 ^ k) r div 4
     else hw_rptr (q_type q) (2 ^ k) r)"
  have "int (unat rp) mod 2 ^ k = int r mod 2 ^ k"
    using arg_cong [OF rptr_mod [OF q(2) ty, of r], of int] by (simp add: rp_def zmod_int)
  then have "int (unat (pos_of q + cap_of q - rp)) mod 2 ^ k
      = (int n mod 2 ^ k + 2 ^ k - int r mod 2 ^ k) mod 2 ^ k"
    using uint_sub_mod [of k "pos_of q" "cap_of q" rp] q(2)
    by (simp add: pos_of_pow [OF q] cap_of_pow(1) [OF q(1,2)] zmod_int mod_simps)
      (metis mod_diff_cong mod_mod_trivial)
  also have "\<dots> = (int n mod 2 ^ k - int r mod 2 ^ k + 2 ^ k) mod 2 ^ k"
    by (simp only: add_diff_eq diff_add_eq add.commute)
  also have "\<dots> = (int n - int r) mod 2 ^ k" by (simp only: mod_add_self2 mod_simps)
  also have "\<dots> = int n - int r"
  proof (rule mod_pos_pos_trivial)
    have "int n < int (r + 2 ^ k)" using r(2) by (simp only: of_nat_less_iff)
    then show "int n - int r < 2 ^ k" by simp
  qed (use r(1) in simp)
  also have "\<dots> = int (n - r)" using r(1) by (simp add: of_nat_diff)
  finally have "int (unat (pos_of q + cap_of q - rp) mod 2 ^ k) = int (n - r)"
    by (simp add: zmod_int)
  then have "unat (pos_of q + cap_of q - rp) mod 2 ^ k = n - r" by (simp only: of_nat_eq_iff)
  then show ?thesis
    by (simp add: in_flight_def Let_def flip: rp_def)
      (simp add: unat_mod cap_of_pow(1) [OF q(1,2)])
qed

text \<open>A wait that succeeds has seen the device far enough ahead.\<close>

lemma room_loop_success:
  "room_loop q n dl polls = Some (Inr ()) \<Longrightarrow>
   \<exists>(rp, now)\<in>set polls. in_flight q rp + n < cap_of q"
  by (induction q n dl polls rule: room_loop.induct) (auto split: if_splits)

lemma room_loop_timeout:
  "room_loop q n dl polls = Some (Inl x) \<Longrightarrow> x = ETIMEDOUT \<and> (\<exists>(rp, now)\<in>set polls. dl \<le> now)"
  by (induction q n dl polls rule: room_loop.induct) (auto split: if_splits)

lemma room_loop_ends:
  "\<exists>(rp, now)\<in>set polls. dl \<le> now \<or> in_flight q rp + n < cap_of q \<Longrightarrow> room_loop q n dl polls \<noteq> None"
  by (induction q n dl polls rule: room_loop.induct) auto


section \<open>Submission\<close>

text \<open>
  A poll is fresh when the device had consumed \<open>k\<close> dwords then, has not run backwards since
  (\<open>k \<le> r\<close>) and was less than a ring behind the \<open>w\<close> dwords published. What a wait reads
  are the encoded read pointers of fresh observations.
\<close>

definition fresh_polls :: "queue_type \<Rightarrow> nat \<Rightarrow> nat \<Rightarrow> nat \<Rightarrow> room_env \<Rightarrow> bool" where
  "fresh_polls ty cap w r env \<longleftrightarrow>
     (\<forall>(rp, now)\<in>set (snd env). \<exists>k\<le>r. w < k + cap \<and> rp = hw_rptr ty cap k)"

lemma put_dwords_ok:
  assumes ok: "ring_ok q log r" and ty: "q_type q \<noteq> SDMA_XGMI"
    and obs: "fresh_polls (q_type q) (ring_dwords q) (length log) r env"
    and fits: "unat pos + length vs \<le> ring_dwords q"
    and at: "unat pos = length log mod ring_dwords q"
    and put: "put_dwords q pos vs env = Some (res, q')"
  shows "res = Inr () \<and> ring_ok q' (log @ vs) r \<or> res = Inl ETIMEDOUT \<and> q' = q"
    and "q_type q' = q_type q" and "ring_dwords q' = ring_dwords q"
proof -
  from ok obtain k where k: "ring_dwords q = 2 ^ k" "k \<le> 29"
    and w: "pending_wptr q = of_nat (length log)" and r: "r \<le> length log" "length log < r + 2 ^ k"
    and slots: "\<And>i. r \<le> i \<Longrightarrow> i < length log \<Longrightarrow> ring q ! (i mod 2 ^ k) = log ! i"
    by (auto simp: ring_ok_def)
  have cap: "unat (cap_of q) = 2 ^ k" by (rule cap_of_pow(1) [OF k])
  have "length vs \<le> 2 ^ k" using fits k(1) by simp
  also have "\<dots> \<le> 2 ^ 29" using k(2) by (intro power_increasing) simp_all
  finally have vs: "unat (of_nat (length vs) :: u32) = length vs" "length vs \<le> 2 ^ 29"
    by (simp_all add: unat_of_nat)
  have st: "ring_store (unat pos) vs (ring q) = Inr (overwrite (unat pos) vs (ring q))"
    using fits by (simp add: ring_store_def ring_dwords_def)
  let ?q = "publish (q\<lparr>ring := overwrite (unat pos) vs (ring q),
               pending_wptr := pending_wptr q + of_nat (length vs)\<rparr>)"
  have len: "length (overwrite (unat pos) vs (ring q)) = ring_dwords q"
    using fits by (simp add: ring_dwords_def)
  have new: "ring_ok ?q (log @ vs) r" if room: "length log + length vs < r + 2 ^ k"
  proof -
    have "overwrite (unat pos) vs (ring q) ! (i mod 2 ^ k) = (log @ vs) ! i"
      if i: "r \<le> i" "i < length log + length vs" for i
    proof (cases "i < length log")
      case True
      have "i mod 2 ^ k < unat pos \<or> unat pos + length vs \<le> i mod 2 ^ k"
      proof (rule ccontr)
        assume "\<not> ?thesis"
        then obtain j where j: "i mod 2 ^ k = length log mod 2 ^ k + j" "j < length vs"
          using at k(1) by (metis le_add_diff_inverse not_le add_less_cancel_left not_less)
        then have "i mod 2 ^ k = (length log + j) mod 2 ^ k"
          by (metis mod_add_left_eq mod_mod_trivial)
        then have "(length log + j - i) mod 2 ^ k = 0"
          using True by (metis mod_eq_dvd_iff_nat dvd_imp_mod_0 le_add1 less_imp_le_nat order_trans)
        moreover have "0 < length log + j - i" "length log + j - i < 2 ^ k"
          using True i(1) room j(2) by linarith+
        ultimately show False by simp
      qed
      moreover have "unat pos < 2 ^ k" using at k(1) by simp
      ultimately show ?thesis
        using True fits k(1) slots [OF i(1) True]
        by (auto simp: overwrite_def nth_append ring_dwords_def min_def)
    next
      case False
      define j where "j = i - length log"
      have ij: "i = length log + j" "j < length vs" using False i(2) by (simp_all add: j_def)
      have "i mod 2 ^ k = unat pos + j"
      proof -
        have "i mod 2 ^ k = (unat pos + j) mod 2 ^ k" by (simp add: ij(1) at k(1) mod_simps)
        also have "\<dots> = unat pos + j" using fits ij(2) k(1) by simp
        finally show ?thesis .
      qed
      then show ?thesis
        using fits ij by (simp add: overwrite_def nth_append ring_dwords_def)
    qed
    moreover have "length (overwrite (unat pos) vs (ring q)) = 2 ^ k" using len k(1) by simp
    ultimately show ?thesis
      using k r room by (auto simp: ring_ok_def publish_def ring_dwords_def w)
  qed
  have res: "res = Inr () \<and> q' = ?q \<and> length log + length vs < r + 2 ^ k
      \<or> res = Inl ETIMEDOUT \<and> q' = q"
  proof -
    obtain start polls where env: "env = (start, polls)" by (cases env)
    from put st consider "room_loop q (of_nat (length vs)) (start + TIMEOUT_US * 1000) polls = Some (Inr ())"
        "res = Inr ()" "q' = ?q"
      | "room_loop q (of_nat (length vs)) (start + TIMEOUT_US * 1000) polls = Some res" "res = Inl ETIMEDOUT" "q' = q"
      by (auto simp: put_dwords_def wait_for_room_def env split: option.splits sum.splits
          dest: room_loop_timeout)
    then show ?thesis
    proof cases
      case 1
      from room_loop_success [OF 1(1)] obs obtain j where j: "j \<le> r" "length log < j + 2 ^ k"
        and room: "in_flight q (hw_rptr (q_type q) (2 ^ k) j) + of_nat (length vs) < cap_of q"
        unfolding env fresh_polls_def snd_conv k(1) by fast
      have f: "unat (in_flight q (hw_rptr (q_type q) (2 ^ k) j)) = length log - j"
        using j r by (intro in_flight_exact k w ty) simp_all
      have "2 ^ k \<le> (2::nat) ^ 29" using k(2) by (intro power_increasing) simp_all
      moreover have "length log - j < 2 ^ k" using j(2) by (cases "j \<le> length log") (simp_all add: less_diff_conv2 add.commute)
      ultimately have "length log - j < 2 ^ 29" by (rule less_le_trans [rotated])
      then have "unat (in_flight q (hw_rptr (q_type q) (2 ^ k) j) + of_nat (length vs))
          = (length log - j) + length vs"
        using vs by (subst unat_add_no_wrap) (simp_all add: f)
      with room cap have "length log - j + length vs < 2 ^ k" by (simp add: word_less_nat_alt)
      then show ?thesis using 1 j r by simp
    qed simp
  qed
  then show "res = Inr () \<and> ring_ok q' (log @ vs) r \<or> res = Inl ETIMEDOUT \<and> q' = q"
    using new by auto
  show "q_type q' = q_type q" using res by (auto simp: publish_def)
  show "ring_dwords q' = ring_dwords q" using res len by (auto simp: publish_def ring_dwords_def)
qed


text \<open>The two halves of a submission: the padding up to the end of the ring, then the data.\<close>

definition pad_dwords :: "ring_queue \<Rightarrow> u32 list \<Rightarrow> u32 list" where
  "pad_dwords q data =
     (if data \<noteq> [] \<and> pos_of q + of_nat (length data) > cap_of q
      then padding (q_type q) (cap_of q - pos_of q) else [])"

lemma length_padding:
  "0 < unat n \<Longrightarrow> length (padding ty n) = unat n"
  by (simp add: padding_def sdma_nop_def)

lemma submit_geometry:
  assumes ok: "ring_ok q log r" and len: "length data < ring_dwords q"
  shows "unat (of_nat (length data) :: u32) = length data"
    and "unat (cap_of q) = ring_dwords q"
    and "unat (pos_of q) = length log mod ring_dwords q"
    and "pos_of q + of_nat (length data) > cap_of q
         \<longleftrightarrow> length log mod ring_dwords q + length data > ring_dwords q"
    and "unat (cap_of q - pos_of q) = ring_dwords q - length log mod ring_dwords q"
    and "0 < ring_dwords q"
proof -
  from ok obtain k where k: "ring_dwords q = 2 ^ k" "k \<le> 29"
    and w: "pending_wptr q = of_nat (length log)"
    by (auto simp: ring_ok_def)
  have c: "(2::nat) ^ k \<le> 2 ^ 29" using k(2) by (intro power_increasing) simp_all
  show n: "unat (of_nat (length data) :: u32) = length data"
    using len k c by (simp add: unat_of_nat)
  show cap: "unat (cap_of q) = ring_dwords q" by (simp add: cap_of_pow(1) [OF k] k)
  show pos: "unat (pos_of q) = length log mod ring_dwords q"
    by (simp add: pos_of_pow [OF k w] k)
  have p: "length log mod ring_dwords q < ring_dwords q" by (simp add: k)
  then show "0 < ring_dwords q" by simp
  have "length log mod ring_dwords q + length data < 2 ^ 32"
  proof -
    have "ring_dwords q \<le> 536870912" using c k(1) by simp
    moreover have "(2::nat) ^ 32 = 4294967296" by simp
    ultimately show ?thesis using len p by linarith
  qed
  then have "unat (pos_of q + of_nat (length data)) = length log mod ring_dwords q + length data"
    by (subst unat_add_no_wrap) (simp_all add: n pos)
  then show "pos_of q + of_nat (length data) > cap_of q
         \<longleftrightarrow> length log mod ring_dwords q + length data > ring_dwords q"
    by (simp add: word_less_nat_alt cap)
  show "unat (cap_of q - pos_of q) = ring_dwords q - length log mod ring_dwords q"
    using p by (subst unat_sub_no_wrap) (simp_all add: cap pos)
qed

text \<open>
  C8. A submission keeps the ring discipline on every path. The device may consume while the
  call waits (\<open>r1\<close> and \<open>r2\<close> dwords at the two waits); whatever it has not consumed is
  never overwritten, the padding and the data are published in order after everything before
  them, the data never straddles the end of the ring, nothing is stored outside the ring, and a
  call that fails has published nothing but padding.
\<close>

theorem submit_keeps_ring:
  assumes ok: "ring_ok q log r" and ty: "q_type q \<noteq> SDMA_XGMI"
    and now: "r \<le> r1" "r1 \<le> length log" "r1 \<le> r2"
      "r2 \<le> length (log @ pad_dwords q data)"
    and e1: "fresh_polls (q_type q) (ring_dwords q) (length log) r1 env1"
    and e2: "fresh_polls (q_type q) (ring_dwords q) (length (log @ pad_dwords q data)) r2 env2"
    and small: "length data < 2 ^ 32"
    and call: "submit_impl q data env1 env2 = Some (res, q')"
  shows "res = Inr () \<and> ring_ok q' (log @ (if data = [] then [] else pad_dwords q data @ data)) r2
          \<and> (data \<noteq> [] \<longrightarrow> length (log @ pad_dwords q data) mod ring_dwords q + length data
               \<le> ring_dwords q)
       \<or> res = Inl EMSGSIZE \<and> q' = q \<and> ring_dwords q \<le> length data
       \<or> res = Inl ETIMEDOUT \<and> (q' = q \<or> ring_ok q' (log @ pad_dwords q data) r2)"
proof (cases "length data < ring_dwords q \<and> data \<noteq> []")
  case False
  have n: "unat (of_nat (length data) :: u32) = length data" using small by (simp add: unat_of_nat)
  from ok obtain k where k: "ring_dwords q = 2 ^ k" "k \<le> 29" by (auto simp: ring_ok_def)
  have cap: "unat (cap_of q) = ring_dwords q" by (simp add: cap_of_pow(1) [OF k] k)
  show ?thesis
  proof (cases "data = []")
    case True
    then show ?thesis
      using call ring_ok_advance [OF ok, of r2] now
      by (auto simp: submit_impl_def Let_def pad_dwords_def)
  next
    case nonempty: False
    then have "of_nat (length data) \<noteq> (0 :: u32)" using n by auto
    then show ?thesis
      using call False nonempty by (simp add: submit_impl_def Let_def word_le_nat_alt n cap)
  qed
next
  case True
  note g = submit_geometry [OF ok conjunct1 [OF True]]
  have n0: "of_nat (length data) \<noteq> (0 :: u32)" "\<not> of_nat (length data) \<ge> cap_of q"
    using True g(1,2) by (auto simp: word_le_nat_alt)
  have tk: "take (unat (of_nat (length data) :: u32)) data = data" by (simp add: g(1))
  show ?thesis
  proof (cases "pos_of q + of_nat (length data) > cap_of q")
    case nowrap: False
    then have pad: "pad_dwords q data = []" by (simp add: pad_dwords_def)
    have put: "put_dwords q (pos_of q) data env2 = Some (res, q')"
      using call n0 nowrap tk by (simp add: submit_impl_def Let_def)
    have fits: "unat (pos_of q) + length data \<le> ring_dwords q"
      using nowrap g(3,4) by simp
    have ok2: "ring_ok q log r2"
      using ring_ok_advance [OF ok, of r2] now pad by simp
    have "fresh_polls (q_type q) (ring_dwords q) (length log) r2 env2" using e2 pad by simp
    from put_dwords_ok(1) [OF ok2 ty this fits g(3) put] show ?thesis
      using True fits g(3) by (auto simp: pad)
  next
    case wrap: True
    let ?pad = "padding (q_type q) (cap_of q - pos_of q)"
    have p: "length log mod ring_dwords q < ring_dwords q" using g(6) by simp
    then have lp: "length ?pad = ring_dwords q - length log mod ring_dwords q"
      by (simp add: length_padding g(5))
    have pad: "pad_dwords q data = ?pad" using wrap True by (simp add: pad_dwords_def)
    have ok1: "ring_ok q log r1" by (rule ring_ok_advance [OF ok now(1,2)])
    have fits: "unat (pos_of q) + length ?pad \<le> ring_dwords q" using lp p g(3) by simp
    from call n0 wrap tk obtain res1 q1 where put1: "put_dwords q (pos_of q) ?pad env1 = Some (res1, q1)"
      and rest: "(case res1 of Inl x \<Rightarrow> Some (Inl x, q1) | Inr _ \<Rightarrow> put_dwords q1 0 data env2)
        = Some (res, q')"
      by (auto simp: submit_impl_def Let_def split: option.splits sum.splits)
    note first = put_dwords_ok [OF ok1 ty e1 fits g(3) put1]
    show ?thesis
    proof (cases res1)
      case (Inl x)
      then show ?thesis using first(1) rest by auto
    next
      case (Inr u)
      have ok2: "ring_ok q1 (log @ ?pad) r2"
        using first(1) Inr now(3,4) pad ring_ok_advance [of q1 "log @ ?pad" r1 r2] by auto
      have at: "length (log @ ?pad) mod ring_dwords q = 0"
      proof -
        have "length log + (ring_dwords q - length log mod ring_dwords q)
            = length log div ring_dwords q * ring_dwords q + ring_dwords q"
          using p div_mult_mod_eq [of "length log" "ring_dwords q"] by linarith
        then show ?thesis by (simp add: lp)
      qed
      have put2: "put_dwords q1 0 data env2 = Some (res, q')" using rest Inr by simp
      have "fresh_polls (q_type q1) (ring_dwords q1) (length (log @ ?pad)) r2 env2"
        using e2 first(2,3) pad by simp
      from put_dwords_ok(1) [OF ok2 _ this _ _ put2] show ?thesis
        using True at first(2,3) ty ok2 by (auto simp: pad)
    qed
  qed
qed


text \<open>A ring of eight dwords holding six, all consumed: three more wrap after two of padding.\<close>

definition demo_ring :: ring_queue where
  "demo_ring = \<lparr>q_type = COMPUTE, ring = [1, 2, 3, 4, 5, 6, 0, 0], pending_wptr = 6,
     write_ptr = 6, doorbell = 6\<rparr>"

lemma demo_ring_ok: "ring_ok demo_ring [1, 2, 3, 4, 5, 6] 2"
proof -
  have slots: "ring demo_ring ! (i mod ring_dwords demo_ring) = [1, 2, 3, 4, 5, 6] ! i"
    if "i < 6" for i
  proof -
    from that have "i = 0 \<or> i = 1 \<or> i = 2 \<or> i = 3 \<or> i = 4 \<or> i = 5" by linarith
    then show ?thesis by (auto simp: demo_ring_def ring_dwords_def)
  qed
  have d: "ring_dwords demo_ring = 2 ^ 3" by (simp add: demo_ring_def ring_dwords_def)
  show ?thesis
    unfolding ring_ok_def
    by (intro conjI exI [of _ 3] allI impI d slots)
      (simp_all add: demo_ring_def ring_dwords_def to_hw_def)
qed

lemma submit_keeps_ring_witness:
  "\<exists>q'. submit_impl demo_ring [7, 8, 9] (0, [(5, 0)]) (0, [(6, 0)]) = Some (Inr (), q')
     \<and> ring_ok q' [1, 2, 3, 4, 5, 6, header 16 0, 0, 7, 8, 9] 6"
proof -
  have call: "submit_impl demo_ring [7, 8, 9] (0, [(5, 0)]) (0, [(6, 0)])
      = Some (Inr (), \<lparr>q_type = COMPUTE, ring = [7, 8, 9, 4, 5, 6, header 16 0, 0],
          pending_wptr = 11, write_ptr = 11, doorbell = 11\<rparr>)"
    unfolding demo_ring_def by code_simp
  have pad: "pad_dwords demo_ring [7, 8, 9] = [header 16 0, 0]"
    unfolding demo_ring_def by code_simp
  have ty: "q_type demo_ring \<noteq> SDMA_XGMI" "q_type demo_ring = COMPUTE" "ring_dwords demo_ring = 8"
    by (simp_all add: demo_ring_def ring_dwords_def)
  have "fresh_polls COMPUTE 8 (length [1, 2, 3, 4, 5, 6 :: u32]) 5 (0, [(5, 0)])"
    by (auto simp: fresh_polls_def hw_rptr_def intro!: exI [of _ 5])
  moreover have "fresh_polls COMPUTE 8 (length [1, 2, 3, 4, 5, 6, header 16 0, 0]) 6 (0, [(6, 0)])"
    by (auto simp: fresh_polls_def hw_rptr_def intro!: exI [of _ 6])
  ultimately show ?thesis
    using submit_keeps_ring [OF demo_ring_ok ty(1) _ _ _ _ _ _ _ call, of 5 6]
    by (simp add: pad ty call)
qed

section \<open>Every reachable ring\<close>

text \<open>
  The device and the submitting thread interleave at the granularity the code has: the device
  consumes one dword at a time, a store happens only after a wait whose polls are fresh. The
  dwords consumed are read from the ring at the time of the step.
\<close>

inductive ring_run :: "queue_type \<Rightarrow> nat \<Rightarrow> ring_queue \<Rightarrow> u32 list list \<Rightarrow> u32 list \<Rightarrow> bool"
  for ty :: queue_type and k :: nat where
  run_start: "ring_run ty k \<lparr>q_type = ty, ring = replicate (2 ^ k) 0, pending_wptr = 0,
      write_ptr = 0, doorbell = 0\<rparr> [] []"
| run_consume: "ring_run ty k q blocks out \<Longrightarrow> length out < length (concat blocks) \<Longrightarrow>
    ring_run ty k q blocks (out @ [ring q ! (length out mod ring_dwords q)])"
| run_put: "ring_run ty k q blocks out \<Longrightarrow>
    unat (pos_of q) + length vs \<le> ring_dwords q \<Longrightarrow>
    fresh_polls ty (ring_dwords q) (length (concat blocks)) (length out) env \<Longrightarrow>
    put_dwords q (pos_of q) vs env = Some (Inr (), q') \<Longrightarrow>
    ring_run ty k q' (blocks @ [vs]) out"
| run_fail: "ring_run ty k q blocks out \<Longrightarrow>
    put_dwords q (pos_of q) vs env = Some (Inl ETIMEDOUT, q') \<Longrightarrow> ring_run ty k q' blocks out"

lemma submit_is_puts:
  assumes ok: "ring_ok q log r" and len: "data \<noteq> []" "length data < ring_dwords q"
  shows "unat (pos_of q) + length data \<le> ring_dwords q
      \<and> submit_impl q data env1 env2 = put_dwords q (pos_of q) data env2
    \<or> unat (pos_of q) + length (pad_dwords q data) = ring_dwords q
      \<and> submit_impl q data env1 env2 =
          (case put_dwords q (pos_of q) (pad_dwords q data) env1 of
             None \<Rightarrow> None
           | Some (Inl x, q') \<Rightarrow> Some (Inl x, q')
           | Some (Inr _, q') \<Rightarrow> put_dwords q' 0 data env2)"
proof -
  note g = submit_geometry [OF ok len(2)]
  have n0: "of_nat (length data) \<noteq> (0 :: u32)" "\<not> of_nat (length data) \<ge> cap_of q"
    using len g(1,2) by (auto simp: word_le_nat_alt)
  show ?thesis
  proof (cases "pos_of q + of_nat (length data) > cap_of q")
    case True
    have "length log mod ring_dwords q < ring_dwords q" using g(6) by simp
    then have "unat (pos_of q) + length (pad_dwords q data) = ring_dwords q"
      using True len(1) by (simp add: pad_dwords_def length_padding g(3,5))
    moreover have "take (unat (of_nat (length data) :: u32)) data = data" by (simp add: g(1))
    ultimately show ?thesis
      using True n0 len(1)
      by (simp add: submit_impl_def Let_def pad_dwords_def cong: option.case_cong sum.case_cong)
  next
    case False
    then show ?thesis using n0 g(1,3,4) by (auto simp: submit_impl_def Let_def)
  qed
qed

lemma ring_run_ok:
  assumes "ring_run ty k q blocks out" and "ty \<noteq> SDMA_XGMI" and "k \<le> 29"
  shows "ring_ok q (concat blocks) (length out) \<and> q_type q = ty \<and>
    out = take (length out) (concat blocks)"
  using assms
proof (induction rule: ring_run.induct)
  case run_start
  then show ?case by (auto simp: ring_ok_def ring_dwords_def to_hw_def)
next
  case (run_consume q blocks out)
  then show ?case
    using ring_ok_read [of q "concat blocks" "length out"]
      ring_ok_advance [of q "concat blocks" "length out" "Suc (length out)"]
    by (simp add: take_Suc_conv_app_nth)
next
  case (run_put q blocks out vs env q')
  then have ok: "ring_ok q (concat blocks) (length out)" and ty: "q_type q = ty" by simp_all
  obtain j where j: "ring_dwords q = 2 ^ j" "j \<le> 29" "pending_wptr q = of_nat (length (concat blocks))"
    using ok by (auto simp: ring_ok_def)
  have pos: "unat (pos_of q) = length (concat blocks) mod ring_dwords q"
    by (simp only: pos_of_pow [OF j] j(1))
  have r: "length out \<le> length (concat blocks)" using ok by (simp add: ring_ok_def)
  show ?case
    using put_dwords_ok(1,2) [OF ok _ _ run_put.hyps(2) pos run_put.hyps(4)] run_put r
    by (auto simp: ty)
next
  case (run_fail q blocks out vs env q')
  then have "q' = q"
    by (auto simp: put_dwords_def ring_store_def split: option.splits sum.splits if_splits)
  with run_fail show ?case by simp
qed

text \<open>
  C9. However the device and the submitting thread interleave, what the device reads out of
  the ring is a prefix of the published blocks in the order of their publication: no dword is
  lost, repeated, reordered or overwritten before it is read.
\<close>

theorem device_reads_fifo:
  assumes "ring_run ty k q blocks out" and "ty \<noteq> SDMA_XGMI" and "k \<le> 29"
  shows "out = take (length out) (concat blocks)"
  using ring_run_ok [OF assms] by simp

lemma device_reads_fifo_witness:
  "\<exists>q. ring_run COMPUTE 2 q [[5, 6]] [5] \<and> [5] = take 1 [5, 6 :: u32]"
proof -
  let ?q0 = "\<lparr>q_type = COMPUTE, ring = replicate (2 ^ 2) 0, pending_wptr = 0, write_ptr = 0,
     doorbell = 0\<rparr> :: ring_queue"
  let ?q1 = "\<lparr>q_type = COMPUTE, ring = [5, 6, 0, 0], pending_wptr = 2, write_ptr = 2,
     doorbell = 2\<rparr> :: ring_queue"
  have "put_dwords ?q0 (pos_of ?q0) [5, 6] (0, [(0, 0)]) = Some (Inr (), ?q1)" by code_simp
  moreover have "unat (pos_of ?q0) + length [5, 6 :: u32] \<le> ring_dwords ?q0" by code_simp
  moreover have "fresh_polls COMPUTE (ring_dwords ?q0) (length (concat [])) (length []) (0, [(0, 0)])"
    by (auto simp: fresh_polls_def hw_rptr_def ring_dwords_def)
  ultimately have "ring_run COMPUTE 2 ?q1 [[5, 6]] []"
    using run_put [OF run_start [of COMPUTE 2], of "[5, 6]" "(0, [(0, 0)])" ?q1] by simp
  from run_consume [OF this] have "ring_run COMPUTE 2 ?q1 [[5, 6]] [5]"
    by (simp add: ring_dwords_def)
  with device_reads_fifo [OF this] show ?thesis by auto
qed

section \<open>XGMI queues\<close>

text \<open>
  The discipline above excludes \<open>SDMA_XGMI\<close>, which \<^verbatim>\<open>SDMAQueue::create\<close> accepts: its
  engine counts bytes like any SDMA engine, but the code compares with \<^verbatim>\<open>QueueType::SDMA\<close> only.
  Here the device has read one dword of seven; the byte offset 4 is taken for four dwords, and
  the call succeeds over dwords the device has not read.
\<close>

lemma xgmi_overwrites_unread:
  "map_option (map_prod (\<lambda>r. r = Inr ()) ring)
     (submit_impl \<lparr>q_type = SDMA_XGMI, ring = [1, 2, 3, 4, 5, 6, 7, 0], pending_wptr = 7,
        write_ptr = 28, doorbell = 28\<rparr> [21, 22, 23]
        (0, [(hw_rptr SDMA_XGMI 8 1, 0)]) (0, [(hw_rptr SDMA_XGMI 8 1, 0)]))
   = Some (True, [21, 22, 23, 4, 5, 6, 7, CMD_NOP])"
  by code_simp

end
