(* ===== verification/Utility.thy ===== *)
theory Utility
  imports Kfd_Prelude "HOL-Library.Char_ord"
begin

text \<open>
  The string helpers of \<^verbatim>\<open>detail/utility.h\<close>. A \<^verbatim>\<open>string_view\<close> is a list of characters;
  a helper that advances its argument returns the advanced view beside its result.
\<close>

section \<open>Views\<close>

definition slice :: "string \<Rightarrow> nat \<Rightarrow> nat \<Rightarrow> string res" where
  "slice s pos n = (if pos + n \<le> length s then Inr (take n (drop pos s)) else Inl UB)"

definition slice_from :: "string \<Rightarrow> nat \<Rightarrow> string res" where
  "slice_from s pos = (if pos \<le> length s then Inr (drop pos s) else Inl UB)"

definition drop_front :: "string \<Rightarrow> nat \<Rightarrow> string res" where
  "drop_front s n = (if n \<ge> length s then Inr [] else slice_from s n)"

definition drop_back :: "string \<Rightarrow> nat \<Rightarrow> string res" where
  "drop_back s n = (if n \<ge> length s then Inr [] else slice s 0 (length s - n))"

fun scan_loop :: "(char \<Rightarrow> bool) \<Rightarrow> string \<Rightarrow> nat" where
  "scan_loop p [] = 0"
| "scan_loop p (c # cs) = (if p c then Suc (scan_loop p cs) else 0)"

definition take_while :: "string \<Rightarrow> (char \<Rightarrow> bool) \<Rightarrow> string res" where
  "take_while s p = slice s 0 (scan_loop p s)"

definition take_until :: "string \<Rightarrow> (char \<Rightarrow> bool) \<Rightarrow> string res" where
  "take_until s p = slice s 0 (scan_loop (\<lambda>c. \<not> p c) s)"

text \<open>\<^verbatim>\<open>string_view::find\<close>, with \<open>None\<close> for \<^verbatim>\<open>npos\<close>.\<close>

fun find_char :: "string \<Rightarrow> char \<Rightarrow> nat option" where
  "find_char [] c = None"
| "find_char (x # xs) c = (if x = c then Some 0 else map_option Suc (find_char xs c))"

definition split_at :: "string \<Rightarrow> char \<Rightarrow> string \<times> string" where
  "split_at s sep = (case find_char s sep of None \<Rightarrow> (s, []) | Some pos \<Rightarrow> (take pos s, drop (pos + 1) s))"

definition consume_front :: "string \<Rightarrow> char \<Rightarrow> bool \<times> string" where
  "consume_front s c = (case s of [] \<Rightarrow> (False, s) | x # xs \<Rightarrow> if x \<noteq> c then (False, s) else (True, xs))"

definition newline :: char where "newline = CHR 0x0A"

definition consume_line :: "string \<Rightarrow> string \<times> string" where
  "consume_line s =
     (case find_char s newline of None \<Rightarrow> (s, []) | Some pos \<Rightarrow> (take pos s, drop (pos + 1) s))"

section \<open>Integers\<close>

definition is_digit :: "char \<Rightarrow> bool" where
  "is_digit c \<longleftrightarrow> 48 \<le> (of_char c :: nat) \<and> (of_char c :: nat) \<le> 57"

definition digit_of :: "char \<Rightarrow> u64" where
  "digit_of c = of_nat (of_char c - 48)"

definition max_div10 :: u64 where "max_div10 = (- 1) div 10"
definition max_mod10 :: u64 where "max_mod10 = (- 1) mod 10"

fun digit_loop :: "u64 \<Rightarrow> string \<Rightarrow> (u64 \<times> string) res" where
  "digit_loop val [] = Inr (val, [])"
| "digit_loop val (c # cs) =
     (if is_digit c
      then if val > max_div10 \<or> (val = max_div10 \<and> digit_of c > max_mod10) then Inl ERANGE
           else digit_loop (val * 10 + digit_of c) cs
      else Inr (val, c # cs))"

definition consume_integer :: "string \<Rightarrow> (u64 \<times> string) res" where
  "consume_integer s =
     (case s of [] \<Rightarrow> Inl EINVAL
      | c # _ \<Rightarrow> if \<not> is_digit c then Inl EINVAL else digit_loop 0 s)"

section \<open>The views are in bounds\<close>

lemma scan_loop_le: "scan_loop p s \<le> length s"
  by (induction s) auto

lemma scan_loop_takeWhile: "take (scan_loop p s) s = takeWhile p s"
  by (induction s) auto

lemma view_helpers_defined:
  "drop_front s n = Inr (drop n s)"
  "drop_back s n = Inr (take (length s - n) s)"
  "take_while s p = Inr (takeWhile p s)"
  "take_until s p = Inr (takeWhile (\<lambda>c. \<not> p c) s)"
  by (simp_all add: drop_front_def drop_back_def slice_from_def slice_def take_while_def
      take_until_def scan_loop_le scan_loop_takeWhile)

lemma find_char_None: "find_char s c = None \<longleftrightarrow> c \<notin> set s"
  by (induction s) auto

lemma find_char_append: "c \<notin> set s \<Longrightarrow> find_char (s @ c # t) c = Some (length s)"
  by (induction s) auto

lemma split_at_absent: "sep \<notin> set s \<Longrightarrow> split_at s sep = (s, [])"
  by (simp add: split_at_def iffD2 [OF find_char_None])

lemma split_at_first: "sep \<notin> set s \<Longrightarrow> split_at (s @ sep # t) sep = (s, t)"
  by (simp add: split_at_def find_char_append)

lemma consume_line_first: "newline \<notin> set s \<Longrightarrow> consume_line (s @ newline # t) = (s, t)"
  by (simp add: consume_line_def find_char_append)

lemma consume_line_shorter: "s \<noteq> [] \<Longrightarrow> length (snd (consume_line s)) < length s"
  by (auto simp: consume_line_def split: option.splits)

section \<open>The value read\<close>

fun dec_value :: "nat \<Rightarrow> string \<Rightarrow> nat" where
  "dec_value v [] = v"
| "dec_value v (c # cs) = dec_value (10 * v + (of_char c - 48)) cs"

lemma dec_value_mono: "v \<le> dec_value v cs"
proof (induction cs arbitrary: v)
  case (Cons c cs)
  have "v \<le> 10 * v + (of_char c - 48)" by simp
  also have "\<dots> \<le> dec_value (10 * v + (of_char c - 48)) cs" by (rule Cons.IH)
  finally show ?case by simp
qed simp

lemma max_div10_mod10: "unat max_div10 = 1844674407370955161" "unat max_mod10 = 5"
proof -
  have e: "max_div10 = 1844674407370955161" "max_mod10 = 5" by code_simp+
  show "unat max_div10 = 1844674407370955161" "unat max_mod10 = 5" by (simp_all add: e)
qed

lemma digit_guard:
  assumes "is_digit c"
  shows "val > max_div10 \<or> (val = max_div10 \<and> digit_of c > max_mod10)
      \<longleftrightarrow> 2 ^ 64 \<le> 10 * unat val + (of_char c - 48)"
    and "10 * unat val + (of_char c - 48) < 2 ^ 64 \<Longrightarrow>
      unat (val * 10 + digit_of c) = 10 * unat val + (of_char c - 48)"
proof -
  have d: "of_char c - 48 \<le> (9 :: nat)"
    using assms unfolding is_digit_def by linarith
  then have u: "unat (digit_of c) = of_char c - 48" by (simp add: digit_of_def unat_of_nat)
  show "val > max_div10 \<or> (val = max_div10 \<and> digit_of c > max_mod10)
      \<longleftrightarrow> 2 ^ 64 \<le> 10 * unat val + (of_char c - 48)"
    using d by (auto simp: word_less_nat_alt word_unat_eq_iff max_div10_mod10 u)
  show "unat (val * 10 + digit_of c) = 10 * unat val + (of_char c - 48)"
    if "10 * unat val + (of_char c - 48) < 2 ^ 64"
  proof -
    have "unat (val * 10) = unat val * 10"
      using that by (subst unat_mult_no_wrap) simp_all
    then show ?thesis using that by (subst unat_add_no_wrap) (simp_all add: u)
  qed
qed

lemma digit_loop_value:
  assumes "\<forall>c\<in>set ds. is_digit c" and "rest = [] \<or> \<not> is_digit (hd rest)"
  shows "digit_loop val (ds @ rest) =
     (if dec_value (unat val) ds < 2 ^ 64 then Inr (of_nat (dec_value (unat val) ds), rest)
      else Inl ERANGE)"
  using assms(1)
proof (induction ds arbitrary: val)
  case Nil
  then show ?case using assms(2) unat64_less [of val] by (cases rest) simp_all
next
  case (Cons c cs)
  then have c: "is_digit c" by simp
  show ?case
  proof (cases "2 ^ 64 \<le> 10 * unat val + (of_char c - 48)")
    case True
    then have "\<not> dec_value (unat val) (c # cs) < 2 ^ 64"
      using dec_value_mono [of "10 * unat val + (of_char c - 48)" cs] by simp
    then show ?thesis using True c digit_guard(1) [OF c, of val] by simp
  next
    case False
    then have "\<not> (val > max_div10 \<or> (val = max_div10 \<and> digit_of c > max_mod10))"
      using digit_guard(1) [OF c, of val] by blast
    moreover have "unat (val * 10 + digit_of c) = 10 * unat val + (of_char c - 48)"
      using False by (intro digit_guard(2) c) simp
    ultimately show ?thesis
      using Cons c by (simp del: de_Morgan_disj)
  qed
qed

text \<open>
  C10. Reading an integer returns the value of the maximal run of decimal digits and the view
  after it, reports ERANGE exactly when that value does not fit 64 bits, and EINVAL exactly when
  the view does not start with a digit; it never wraps.
\<close>

theorem consume_integer_exact:
  "consume_integer s =
     (let ds = takeWhile is_digit s; rest = dropWhile is_digit s
      in if ds = [] then Inl EINVAL
         else if dec_value 0 ds < 2 ^ 64 then Inr (of_nat (dec_value 0 ds), rest)
         else Inl ERANGE)"
proof (cases s)
  case Nil
  then show ?thesis by (simp add: consume_integer_def Let_def)
next
  case (Cons c cs)
  show ?thesis
  proof (cases "is_digit c")
    case True
    have "digit_loop 0 (takeWhile is_digit s @ dropWhile is_digit s) =
       (if dec_value (unat (0 :: u64)) (takeWhile is_digit s) < 2 ^ 64
        then Inr (of_nat (dec_value (unat (0 :: u64)) (takeWhile is_digit s)), dropWhile is_digit s)
        else Inl ERANGE)"
      using hd_dropWhile [of is_digit s]
      by (intro digit_loop_value) (auto dest: set_takeWhileD simp: dropWhile_eq_Nil_conv)
    then show ?thesis using Cons True by (simp add: consume_integer_def Let_def)
  next
    case False
    then show ?thesis using Cons by (simp add: consume_integer_def Let_def)
  qed
qed

section \<open>Printing a number\<close>

function show_dec :: "nat \<Rightarrow> string" where
  "show_dec n = (if n < 10 then [char_of (48 + n)] else show_dec (n div 10) @ [char_of (48 + n mod 10)])"
  by pat_completeness auto
termination by (relation "measure id") auto

declare show_dec.simps [simp del]

lemma char_digit:
  "d < 10 \<Longrightarrow> is_digit (char_of (48 + d :: nat))" "d < 10 \<Longrightarrow> of_char (char_of (48 + d :: nat)) = 48 + d"
  by (simp_all add: is_digit_def of_char_of)

lemma show_dec_digits: "\<forall>c\<in>set (show_dec n). is_digit c"
  by (induction n rule: show_dec.induct) (subst show_dec.simps, auto simp: char_digit)

lemma show_dec_nonempty: "show_dec n \<noteq> []"
  by (subst show_dec.simps) simp

lemma dec_value_append: "dec_value v (xs @ ys) = dec_value (dec_value v xs) ys"
  by (induction xs arbitrary: v) simp_all

lemma dec_value_show: "dec_value 0 (show_dec n) = n"
proof (induction n rule: show_dec.induct)
  case (1 n)
  then show ?case
    by (subst show_dec.simps) (simp add: dec_value_append char_digit(2))
qed

lemma consume_show_dec:
  assumes "n < 2 ^ 64" and "rest = [] \<or> \<not> is_digit (hd rest)"
  shows "consume_integer (show_dec n @ rest) = Inr (of_nat n, rest)"
proof -
  have "takeWhile is_digit (show_dec n @ rest) = show_dec n"
    using assms(2) show_dec_digits [of n] by (cases rest) (simp_all add: takeWhile_append2)
  moreover have "dropWhile is_digit (show_dec n @ rest) = rest"
    using assms(2) show_dec_digits [of n] by (cases rest) (simp_all add: dropWhile_append2)
  moreover obtain c cs where "show_dec n = c # cs" using show_dec_nonempty [of n] by (cases "show_dec n") auto
  moreover have "digit_loop 0 (show_dec n @ rest) = Inr (of_nat n, rest)"
    using digit_loop_value [OF show_dec_digits assms(2), of 0 n] assms(1)
    by (simp add: dec_value_show)
  ultimately show ?thesis
    using show_dec_digits [of n] by (simp add: consume_integer_def)
qed

end
