(* ===== verification/Topology.thy ===== *)
theory Topology
  imports Topology_Types Utility Abi
begin

text \<open>
  \<^verbatim>\<open>topology.cpp\<close>: parsing the sysfs files of a node, the context-save sizes, and the
  generation-checked scan. The files are an environment: what each path holds while the scan
  reads it. A file is mapped in whole pages, so its text ends in zero bytes.
\<close>

section \<open>Parsing\<close>

definition parse_property :: "node_properties \<Rightarrow> string \<Rightarrow> u64 \<Rightarrow> node_properties" where
  "parse_property p k val =
     (let u32 = ucast val in
      if k = ''vendor_id'' then p\<lparr>vendor_id := u32\<rparr>
      else if k = ''device_id'' then p\<lparr>device_id := u32\<rparr>
      else if k = ''location_id'' then p\<lparr>location_id := u32\<rparr>
      else if k = ''domain'' then p\<lparr>pci_domain := u32\<rparr>
      else if k = ''gfx_target_version'' then p\<lparr>gfx_target_version := u32\<rparr>
      else if k = ''drm_render_minor'' then p\<lparr>drm_render_minor := u32\<rparr>
      else if k = ''cpu_cores_count'' then p\<lparr>cpu_cores_count := u32\<rparr>
      else if k = ''simd_count'' then p\<lparr>simd_count := u32\<rparr>
      else if k = ''array_count'' then p\<lparr>array_count := u32\<rparr>
      else if k = ''simd_arrays_per_engine'' then p\<lparr>simd_arrays_per_engine := u32\<rparr>
      else if k = ''cu_per_simd_array'' then p\<lparr>cu_per_simd_array := u32\<rparr>
      else if k = ''simd_per_cu'' then p\<lparr>simd_per_cu := u32\<rparr>
      else if k = ''max_waves_per_simd'' then p\<lparr>max_waves_per_simd := u32\<rparr>
      else if k = ''wave_front_size'' then p\<lparr>wave_front_size := u32\<rparr>
      else if k = ''max_slots_scratch_cu'' then p\<lparr>max_slots_scratch_cu := u32\<rparr>
      else if k = ''mem_banks_count'' then p\<lparr>mem_banks_count := u32\<rparr>
      else if k = ''caches_count'' then p\<lparr>caches_count := u32\<rparr>
      else if k = ''io_links_count'' then p\<lparr>io_links_count := u32\<rparr>
      else if k = ''num_sdma_engines'' then p\<lparr>num_sdma_engines := u32\<rparr>
      else if k = ''num_sdma_xgmi_engines'' then p\<lparr>num_sdma_xgmi_engines := u32\<rparr>
      else if k = ''num_sdma_queues_per_engine'' then p\<lparr>num_sdma_queues_per_engine := u32\<rparr>
      else if k = ''num_cp_queues'' then p\<lparr>num_cp_queues := u32\<rparr>
      else if k = ''num_xcc'' then p\<lparr>num_xcc := u32\<rparr>
      else if k = ''num_gws'' then p\<lparr>num_gws := u32\<rparr>
      else if k = ''max_engine_clk_fcompute'' then p\<lparr>max_engine_clk_fcompute := u32\<rparr>
      else if k = ''max_engine_clk_ccompute'' then p\<lparr>max_engine_clk_ccompute := u32\<rparr>
      else if k = ''lds_size_in_kb'' then p\<lparr>lds_size_in_kb := u32\<rparr>
      else if k = ''gds_size_in_kb'' then p\<lparr>gds_size_in_kb := u32\<rparr>
      else if k = ''local_mem_size'' then p\<lparr>local_mem_size := val\<rparr>
      else if k = ''family_id'' then p\<lparr>family_id := u32\<rparr>
      else if k = ''fw_version'' then p\<lparr>fw_version := u32\<rparr>
      else if k = ''sdma_fw_version'' then p\<lparr>sdma_fw_version := u32\<rparr>
      else if k = ''capability'' then p\<lparr>capability_bits := u32\<rparr>
      else if k = ''capability2'' then p\<lparr>capability2 := u32\<rparr>
      else if k = ''debug_prop'' then p\<lparr>debug_prop := u32\<rparr>
      else if k = ''cwsr_size'' then p\<lparr>cwsr_size := u32\<rparr>
      else if k = ''ctl_stack_size'' then p\<lparr>ctl_stack_size := u32\<rparr>
      else if k = ''unique_id'' then p\<lparr>unique_id := val\<rparr>
      else if k = ''hive_id'' then p\<lparr>hive_id := val\<rparr>
      else p)"

definition bank_property :: "memory_bank \<Rightarrow> string \<Rightarrow> u64 \<Rightarrow> memory_bank" where
  "bank_property bank k val =
     (let u32 = ucast val in
      if k = ''heap_type'' then bank\<lparr>heap_type := u32\<rparr>
      else if k = ''size_in_bytes'' then bank\<lparr>size_in_bytes := val\<rparr>
      else if k = ''flags'' then bank\<lparr>bank_flags := u32\<rparr>
      else if k = ''width'' then bank\<lparr>width := u32\<rparr>
      else if k = ''mem_clk_max'' then bank\<lparr>mem_clk_max := u32\<rparr>
      else bank)"

definition cache_property :: "cache_info \<Rightarrow> string \<Rightarrow> u64 \<Rightarrow> cache_info" where
  "cache_property cache k val =
     (let u32 = ucast val in
      if k = ''processor_id_low'' then cache\<lparr>processor_id_low := u32\<rparr>
      else if k = ''level'' then cache\<lparr>level := u32\<rparr>
      else if k = ''size'' then cache\<lparr>cache_size := u32\<rparr>
      else if k = ''cache_line_size'' then cache\<lparr>line_size := u32\<rparr>
      else if k = ''cache_lines_per_tag'' then cache\<lparr>lines_per_tag := u32\<rparr>
      else if k = ''association'' then cache\<lparr>associativity := u32\<rparr>
      else if k = ''latency'' then cache\<lparr>latency := u32\<rparr>
      else if k = ''type'' then cache\<lparr>cache_type := u32\<rparr>
      else cache)"

definition link_property :: "io_link \<Rightarrow> string \<Rightarrow> u64 \<Rightarrow> io_link" where
  "link_property link k val =
     (let u32 = ucast val in
      if k = ''type'' then link\<lparr>link_type := u32\<rparr>
      else if k = ''node_from'' then link\<lparr>node_from := u32\<rparr>
      else if k = ''node_to'' then link\<lparr>node_to := u32\<rparr>
      else if k = ''weight'' then link\<lparr>weight := u32\<rparr>
      else if k = ''min_latency'' then link\<lparr>min_latency := u32\<rparr>
      else if k = ''max_latency'' then link\<lparr>max_latency := u32\<rparr>
      else if k = ''min_bandwidth'' then link\<lparr>min_bandwidth := u32\<rparr>
      else if k = ''max_bandwidth'' then link\<lparr>max_bandwidth := u32\<rparr>
      else if k = ''flags'' then link\<lparr>link_flags := u32\<rparr>
      else link)"

text \<open>The loop the four parsers share: a key, a space and a number on each line.\<close>

function parse_lines :: "('a \<Rightarrow> string \<Rightarrow> u64 \<Rightarrow> 'a) \<Rightarrow> 'a \<Rightarrow> string \<Rightarrow> 'a" where
  "parse_lines upd acc text =
     (if text = [] then acc
      else let (line, text') = consume_line text;
               (k, val_str) = split_at line CHR '' ''
           in if k = [] then parse_lines upd acc text'
              else (case consume_integer val_str of
                      Inl _ \<Rightarrow> parse_lines upd acc text'
                    | Inr (val, _) \<Rightarrow> parse_lines upd (upd acc k val) text'))"
  by pat_completeness auto
termination
  by (relation "measure (\<lambda>(_, _, text). length text)")
    (auto, (metis consume_line_shorter snd_conv)+)

declare parse_lines.simps [simp del]

definition parse_properties :: "string \<Rightarrow> u32 \<Rightarrow> node_properties" where
  "parse_properties text id' = parse_lines parse_property (empty_properties\<lparr>gpu_id := id'\<rparr>) text"

definition empty_bank :: memory_bank where
  "empty_bank = \<lparr>heap_type = 0, size_in_bytes = 0, bank_flags = 0, width = 0, mem_clk_max = 0\<rparr>"

definition parse_memory_bank :: "string \<Rightarrow> memory_bank" where
  "parse_memory_bank text = parse_lines bank_property empty_bank text"

definition empty_cache :: cache_info where
  "empty_cache = \<lparr>processor_id_low = 0, level = 0, cache_size = 0, line_size = 0, lines_per_tag = 0,
     associativity = 0, latency = 0, cache_type = 0\<rparr>"

definition parse_cache :: "string \<Rightarrow> cache_info" where
  "parse_cache text = parse_lines cache_property empty_cache text"

definition empty_link :: io_link where
  "empty_link = \<lparr>link_type = 0, node_from = 0, node_to = 0, weight = 0, min_latency = 0,
     max_latency = 0, min_bandwidth = 0, max_bandwidth = 0, link_flags = 0\<rparr>"

definition parse_io_link :: "string \<Rightarrow> io_link" where
  "parse_io_link text = parse_lines link_property empty_link text"

section \<open>Reading a file\<close>

text \<open>The answers of \<^verbatim>\<open>read\<close>: some bytes (none at the end), or an error.\<close>

type_synonym read_answer = "string res"

text \<open>
  The read loop: \<open>sz\<close> is the size of the region, \<open>acc\<close> what it holds so far, \<open>grows\<close>
  the answers of \<^verbatim>\<open>try_grow\<close>. \<open>None\<close>: the answers given ran out.
\<close>

fun read_loop :: "nat \<Rightarrow> string \<Rightarrow> read_answer list \<Rightarrow> bool list \<Rightarrow> string res option" where
  "read_loop sz acc [] grows = None"
| "read_loop sz acc (a # as) grows =
     (if length acc < sz
      then (case a of
              Inl EINTR \<Rightarrow> read_loop sz acc as grows
            | Inl x \<Rightarrow> Some (Inl x)
            | Inr [] \<Rightarrow> Some (Inr (acc @ replicate (sz - length acc) CHR 0x00))
            | Inr bs \<Rightarrow> if length acc + length bs > sz then Some (Inl UB)
                       else read_loop sz (acc @ bs) as grows)
      else (case grows of
              [] \<Rightarrow> None
            | g # gs \<Rightarrow> if g then read_loop (2 * sz) acc (a # as) gs else Some (Inl ENOMEM)))"

section \<open>The sysfs tree\<close>

datatype sysfs_path =
    Generation_file
  | Gpu_id_file nat
  | Properties_file nat
  | Mem_bank_file nat nat
  | Cache_file nat nat
  | Io_link_file nat nat

text \<open>What the paths hold, and the node directories there are.\<close>

record sysfs =
  sys_file :: "sysfs_path \<Rightarrow> string res"
  sys_nodes :: "nat \<Rightarrow> bool"

definition read_sysfs_uint :: "sysfs \<Rightarrow> sysfs_path \<Rightarrow> u64 res" where
  "read_sysfs_uint fs path =
     kfd_try (sys_file fs path) (\<lambda>text. kfd_try (consume_integer text) (\<lambda>(v, _). Inr v))"

text \<open>The counted loops: \<open>k\<close> entries from index \<open>i\<close> on.\<close>

fun read_memory_banks ::
    "(nat \<Rightarrow> bool) \<Rightarrow> sysfs \<Rightarrow> nat \<Rightarrow> nat \<Rightarrow> nat \<Rightarrow> memory_bank list \<Rightarrow> memory_bank list res" where
  "read_memory_banks granted fs node i 0 banks = Inr banks"
| "read_memory_banks granted fs node i (Suc k) banks =
     kfd_try (sys_file fs (Mem_bank_file node i)) (\<lambda>view.
       kfd_try (vec_push granted banks (parse_memory_bank view)) (\<lambda>banks'.
         read_memory_banks granted fs node (Suc i) k banks'))"

fun read_io_links ::
    "(nat \<Rightarrow> bool) \<Rightarrow> sysfs \<Rightarrow> nat \<Rightarrow> nat \<Rightarrow> nat \<Rightarrow> io_link list \<Rightarrow> io_link list res" where
  "read_io_links granted fs node i 0 links = Inr links"
| "read_io_links granted fs node i (Suc k) links =
     kfd_try (sys_file fs (Io_link_file node i)) (\<lambda>view.
       kfd_try (vec_push granted links (parse_io_link view)) (\<lambda>links'.
         read_io_links granted fs node (Suc i) k links'))"

definition is_duplicate :: "cache_info \<Rightarrow> cache_info \<Rightarrow> bool" where
  "is_duplicate a b \<longleftrightarrow> level a = level b \<and> cache_size a = cache_size b \<and> cache_type a = cache_type b"

fun read_caches ::
    "(nat \<Rightarrow> bool) \<Rightarrow> sysfs \<Rightarrow> nat \<Rightarrow> nat \<Rightarrow> nat \<Rightarrow> cache_info list \<Rightarrow> cache_info list res" where
  "read_caches granted fs node i 0 cs = Inr cs"
| "read_caches granted fs node i (Suc k) cs =
     kfd_try (sys_file fs (Cache_file node i)) (\<lambda>view.
       let entry = parse_cache view
       in if list_ex (\<lambda>c. is_duplicate c entry) cs then read_caches granted fs node (Suc i) k cs
          else kfd_try (vec_push granted cs entry) (\<lambda>cs'. read_caches granted fs node (Suc i) k cs'))"

definition read_properties :: "sysfs \<Rightarrow> nat \<Rightarrow> node_properties res" where
  "read_properties fs node =
     kfd_try (read_sysfs_uint fs (Gpu_id_file node)) (\<lambda>id'.
       kfd_try (sys_file fs (Properties_file node)) (\<lambda>view.
         Inr (parse_properties view (ucast id'))))"

definition read_node :: "(nat \<Rightarrow> bool) \<Rightarrow> sysfs \<Rightarrow> nat \<Rightarrow> node_info res" where
  "read_node granted fs node =
     kfd_try (read_properties fs node) (\<lambda>p.
       if gpu_id p = 0 then Inr \<lparr>props = p, memory_banks = [], caches = [], io_links = []\<rparr>
       else kfd_try (read_memory_banks granted fs node 0 (unat (mem_banks_count p)) []) (\<lambda>banks.
            kfd_try (read_caches granted fs node 0 (unat (caches_count p)) []) (\<lambda>cs.
            kfd_try (read_io_links granted fs node 0 (unat (io_links_count p)) []) (\<lambda>links.
              Inr \<lparr>props = p, memory_banks = banks, caches = cs, io_links = links\<rparr>))))"

text \<open>Probing directories until one is missing; a tree without end would be probed for ever.\<close>

partial_function (option) count_from :: "(nat \<Rightarrow> bool) \<Rightarrow> nat \<Rightarrow> nat option" where
  "count_from dirs n = (if \<not> dirs n then Some n else count_from dirs (Suc n))"

definition count_nodes :: "sysfs \<Rightarrow> nat option" where
  "count_nodes fs = count_from (sys_nodes fs) 0"

section \<open>Context-save sizes\<close>

definition vgpr_size_per_cu :: "u32 \<Rightarrow> u32" where
  "vgpr_size_per_cu gfxv =
     (if gfxv = GFX_VERSION_GFX942 \<or> gfxv = GFX_VERSION_GFX9_A \<or> gfxv = GFX_VERSION_GFX9_8 \<or>
         gfxv = GFX_VERSION_GFX950 then 0x80000
      else if gfxv \<ge> GFX_VERSION_GFX11 then 0x60000
      else 0x40000)"

definition or_one :: "u32 \<Rightarrow> u32" where
  "or_one x = (if x \<noteq> 0 then x else 1)"

definition sizeof_CwsrHeader :: u32 where "sizeof_CwsrHeader = 40"

definition cwsr_wave_num :: "node_properties \<Rightarrow> u32" where
  "cwsr_wave_num p =
     (let cu_num = simd_count p div or_one (simd_per_cu p) div or_one (num_xcc p)
      in if gfx_target_version p < GFX_VERSION_GFX10_1
         then min (cu_num * 40) (array_count p div or_one (simd_arrays_per_engine p) * 512)
         else cu_num * 32)"

definition compute_cwsr_sizes :: "u64 \<Rightarrow> node_properties \<Rightarrow> u32 \<times> u32" where
  "compute_cwsr_sizes page p =
     (let gfxv = gfx_target_version p;
          cu_num = simd_count p div or_one (simd_per_cu p) div or_one (num_xcc p);
          wave_num = cwsr_wave_num p;
          lds_per_cu = (if gfxv = GFX_VERSION_GFX950 then push_bit 10 (lds_size_in_kb p) else 0x10000);
          wg_data_per_cu = vgpr_size_per_cu gfxv + 0x4000 + lds_per_cu + 0x1000;
          wg_data_size = ucast (align_up (ucast cu_num * ucast wg_data_per_cu) page) :: u32;
          cntl_stack_bytes = (if gfxv \<ge> GFX_VERSION_GFX10_1 then 12 else 8);
          ctl = wave_num * cntl_stack_bytes + 8;
          ctl = align_up (sizeof_CwsrHeader + ctl) (ucast page);
          ctl = (if gfx_version_major gfxv = 10 then min ctl 0x7000 else ctl)
      in (ctl + wg_data_size, ctl))"

section \<open>The scan\<close>

record topology =
  storage :: "node_info list"
  generation_id :: u32

definition fill_cwsr :: "u64 \<Rightarrow> node_info \<Rightarrow> node_info" where
  "fill_cwsr page node =
     (if cwsr_size (props node) = 0 \<or> ctl_stack_size (props node) = 0
      then let (c, s) = compute_cwsr_sizes page (props node)
           in node\<lparr>props := (props node)\<lparr>cwsr_size := c, ctl_stack_size := s\<rparr>\<rparr>
      else node)"

fun scan_nodes ::
    "u64 \<Rightarrow> (nat \<Rightarrow> bool) \<Rightarrow> sysfs \<Rightarrow> nat \<Rightarrow> nat \<Rightarrow> node_info list \<Rightarrow> node_info list res" where
  "scan_nodes page granted fs i 0 acc = Inr acc"
| "scan_nodes page granted fs i (Suc k) acc =
     kfd_try (read_node granted fs i) (\<lambda>node.
       if gpu_id (props node) = 0 then scan_nodes page granted fs (Suc i) k acc
       else kfd_try (vec_push granted acc (fill_cwsr page node)) (\<lambda>acc'.
              scan_nodes page granted fs (Suc i) k acc'))"

text \<open>
  One attempt sees the tree three times: the generation before, the nodes, the generation after.
  \<open>None\<close> for a scan that never stops counting; the attempts run out after three.
\<close>

record attempt =
  gen_before :: sysfs
  scanned :: sysfs
  gen_after :: sysfs

fun scan_attempts :: "u64 \<Rightarrow> (nat \<Rightarrow> bool) \<Rightarrow> attempt list \<Rightarrow> topology res option" where
  "scan_attempts page granted [] = Some (Inl EAGAIN)"
| "scan_attempts page granted (a # as) =
     (case read_sysfs_uint (gen_before a) Generation_file of
        Inl x \<Rightarrow> Some (Inl x)
      | Inr before \<Rightarrow>
         (case count_nodes (scanned a) of
            None \<Rightarrow> None
          | Some n \<Rightarrow>
             (case scan_nodes page granted (scanned a) 0 (unat (of_nat n :: u32)) [] of
                Inl x \<Rightarrow> Some (Inl x)
              | Inr nodes \<Rightarrow>
                 (case read_sysfs_uint (gen_after a) Generation_file of
                    Inl x \<Rightarrow> Some (Inl x)
                  | Inr after \<Rightarrow>
                      if before = after
                      then Some (Inr \<lparr>storage = nodes, generation_id = ucast before\<rparr>)
                      else scan_attempts page granted as))))"

definition MAX_GENERATION_RETRIES :: nat where "MAX_GENERATION_RETRIES = 3"

definition topology_create ::
    "u64 \<Rightarrow> (nat \<Rightarrow> bool) \<Rightarrow> (nat \<Rightarrow> attempt) \<Rightarrow> topology res option" where
  "topology_create page granted env = scan_attempts page granted (map env [0..<MAX_GENERATION_RETRIES])"

definition vram_host_visible :: "node_info \<Rightarrow> bool" where
  "vram_host_visible info = list_ex (\<lambda>b. heap_type b = 1) (memory_banks info)"

section \<open>Parsing printed files\<close>

text \<open>A file as the driver prints it, and the zero bytes after it in the mapped page.\<close>

definition show_line :: "string \<times> nat \<Rightarrow> string" where
  "show_line kv = fst kv @ CHR '' '' # show_dec (snd kv) @ [newline]"

definition plain_key :: "string \<Rightarrow> bool" where
  "plain_key k \<longleftrightarrow> k \<noteq> [] \<and> CHR '' '' \<notin> set k \<and> newline \<notin> set k"

lemma digit_not_newline: "is_digit c \<Longrightarrow> c \<noteq> newline"
  by (auto simp: is_digit_def newline_def)

lemma parse_one_line:
  assumes "plain_key k" and "v < 2 ^ 64"
  shows "parse_lines upd acc (show_line (k, v) @ rest) = parse_lines upd (upd acc k (of_nat v)) rest"
proof -
  have nl: "newline \<notin> set (k @ CHR '' '' # show_dec v)"
    using assms(1) show_dec_digits [of v] digit_not_newline
    by (auto simp: plain_key_def newline_def)
  have "consume_line (show_line (k, v) @ rest) = (k @ CHR '' '' # show_dec v, rest)"
    using consume_line_first [OF nl, of rest] by (simp add: show_line_def)
  moreover have "split_at (k @ CHR '' '' # show_dec v) CHR '' '' = (k, show_dec v)"
    using assms(1) by (intro split_at_first) (simp add: plain_key_def)
  moreover have "consume_integer (show_dec v) = Inr (of_nat v, [])"
    using consume_show_dec [OF assms(2), of "[]"] by simp
  moreover have "k \<noteq> []" using assms(1) by (simp add: plain_key_def)
  ultimately show ?thesis
    by (subst parse_lines.simps) (simp add: show_line_def)
qed

lemma parse_zero_tail: "parse_lines upd acc (replicate n CHR 0x00) = acc"
proof (cases n)
  case 0
  then show ?thesis by (simp add: parse_lines.simps)
next
  case (Suc m)
  have "newline \<notin> set (replicate n CHR 0x00)" "CHR '' '' \<notin> set (replicate n CHR 0x00)"
    by (auto simp: newline_def)
  then have "consume_line (replicate n CHR 0x00) = (replicate n CHR 0x00, [])"
    "split_at (replicate n CHR 0x00) CHR '' '' = (replicate n CHR 0x00, [])"
    by (simp_all add: consume_line_def iffD2 [OF find_char_None] split_at_absent)
  then show ?thesis
    using Suc by (subst parse_lines.simps) (simp add: consume_integer_def parse_lines.simps)
qed

lemma parse_printed:
  assumes "\<forall>(k, v)\<in>set kvs. plain_key k \<and> v < 2 ^ 64"
  shows "parse_lines upd acc (concat (map show_line kvs) @ replicate n CHR 0x00)
    = fold (\<lambda>(k, v) a. upd a k (of_nat v)) kvs acc"
  using assms
proof (induction kvs arbitrary: acc)
  case Nil
  then show ?case by (simp add: parse_zero_tail)
next
  case (Cons kv kvs)
  obtain k v where kv: "kv = (k, v)" by (cases kv)
  show ?case
    using Cons parse_one_line [of k v upd acc "concat (map show_line kvs) @ replicate n CHR 0x00"]
    by (simp add: kv)
qed

text \<open>
  C11. Parsing a properties file as the driver prints it, zero-filled to its page, records
  every line in order and nothing else: the fields named take the numbers printed, cut to the
  width of the field.
\<close>

theorem parse_properties_printed:
  assumes "\<forall>(k, v)\<in>set kvs. plain_key k \<and> v < 2 ^ 64"
  shows "parse_properties (concat (map show_line kvs) @ replicate n CHR 0x00) id'
    = fold (\<lambda>(k, v) p. parse_property p k (of_nat v)) kvs (empty_properties\<lparr>gpu_id := id'\<rparr>)"
  unfolding parse_properties_def by (rule parse_printed [OF assms])

lemma parse_properties_printed_witness:
  "simd_count (parse_properties
      (concat (map show_line [(''cpu_cores_count'', 0), (''simd_count'', 192)]) @ replicate 9 CHR 0x00) 7)
   = 192"
proof -
  have "\<forall>(k, v)\<in>set [(''cpu_cores_count'', 0), (''simd_count'', 192 :: nat)].
      plain_key k \<and> v < 2 ^ 64"
    by (simp add: plain_key_def newline_def)
  from parse_properties_printed [OF this, of 9 7]
  show ?thesis by (simp add: parse_property_def Let_def)
qed

section \<open>What a scan returns\<close>

definition no_duplicates :: "cache_info list \<Rightarrow> bool" where
  "no_duplicates cs \<longleftrightarrow> sorted_wrt (\<lambda>a b. \<not> is_duplicate a b) cs"

definition cache_at :: "sysfs \<Rightarrow> nat \<Rightarrow> nat \<Rightarrow> cache_info option" where
  "cache_at fs node i = (case sys_file fs (Cache_file node i) of Inl _ \<Rightarrow> None | Inr t \<Rightarrow> Some (parse_cache t))"

lemma read_caches_spec:
  assumes "read_caches granted fs node i k cs = Inr cs'" and "no_duplicates cs"
  shows "no_duplicates cs' \<and> set cs \<subseteq> set cs' \<and>
    (\<forall>c\<in>set cs' - set cs. \<exists>j. i \<le> j \<and> j < i + k \<and> cache_at fs node j = Some c) \<and>
    (\<forall>j. i \<le> j \<and> j < i + k \<longrightarrow>
       (\<exists>c\<in>set cs'. \<exists>e. cache_at fs node j = Some e \<and> is_duplicate c e))"
  using assms
proof (induction granted fs node i k cs rule: read_caches.induct)
  case (1 granted fs node i cs)
  then show ?case by auto
next
  case (2 granted fs node i k cs)
  from 2(3) obtain view where v: "sys_file fs (Cache_file node i) = Inr view"
    by (auto simp: res_simps)
  let ?e = "parse_cache view"
  have at: "cache_at fs node i = Some ?e" by (simp add: cache_at_def v)
  have le: "i \<le> j \<and> j < i + Suc k \<longleftrightarrow> j = i \<or> Suc i \<le> j \<and> j < Suc i + k" for j by auto
  show ?case
  proof (cases "list_ex (\<lambda>c. is_duplicate c ?e) cs")
    case True
    then have "read_caches granted fs node (Suc i) k cs = Inr cs'"
      using 2(3) v by (simp add: Let_def)
    note ih = 2(1) [OF refl True this 2(4)]
    from True obtain c where "c \<in> set cs" "is_duplicate c ?e" by (auto simp: list_ex_iff)
    with ih at have "\<exists>c\<in>set cs'. \<exists>e. cache_at fs node i = Some e \<and> is_duplicate c e" by blast
    then have "(\<forall>j. j = i \<or> Suc i \<le> j \<and> j < Suc i + k \<longrightarrow>
        (\<exists>c\<in>set cs'. \<exists>e. cache_at fs node j = Some e \<and> is_duplicate c e))"
      using ih by blast
    moreover have "\<forall>c\<in>set cs' - set cs. \<exists>j. (j = i \<or> Suc i \<le> j \<and> j < Suc i + k) \<and>
        cache_at fs node j = Some c"
      using ih by blast
    ultimately show ?thesis using ih by (simp only: le [symmetric] conj_assoc simp_thms)
  next
    case False
    then have c: "vec_push granted cs ?e = Inr (cs @ [?e])"
      and r: "read_caches granted fs node (Suc i) k (cs @ [?e]) = Inr cs'"
      using 2(3) v by (auto simp: Let_def res_simps vec_push_def split: if_splits)
    have nd: "no_duplicates (cs @ [?e])"
      using 2(4) False by (auto simp: no_duplicates_def sorted_wrt_append list_ex_iff)
    have "is_duplicate ?e ?e" by (simp add: is_duplicate_def)
    note ih = 2(2) [OF refl False r nd]
    then have "?e \<in> set cs'" "set cs \<subseteq> set cs'" by auto
    moreover have "\<exists>j. (j = i \<or> Suc i \<le> j \<and> j < Suc i + k) \<and> cache_at fs node j = Some c"
      if "c \<in> set cs' - set cs" for c
      using ih at that by (cases "c = ?e") auto
    moreover have "(\<forall>j. j = i \<or> Suc i \<le> j \<and> j < Suc i + k \<longrightarrow>
        (\<exists>c\<in>set cs'. \<exists>e. cache_at fs node j = Some e \<and> is_duplicate c e))"
      using ih at \<open>is_duplicate ?e ?e\<close> \<open>?e \<in> set cs'\<close> by blast
    ultimately show ?thesis using ih by (simp only: le [symmetric] conj_assoc simp_thms) blast
  qed
qed

lemma read_node_spec:
  assumes "read_node granted fs i = Inr node"
  shows "read_properties fs i = Inr (props node)" and "no_duplicates (caches node)"
  using assms read_caches_spec [of granted fs i 0 _ "[]"]
  by (auto simp: read_node_def res_simps no_duplicates_def split: if_splits)

lemma fill_cwsr_gpu [simp]: "gpu_id (props (fill_cwsr page node)) = gpu_id (props node)"
  "caches (fill_cwsr page node) = caches node"
  by (simp_all add: fill_cwsr_def split: prod.splits)

lemma scan_nodes_spec:
  assumes "scan_nodes page granted fs i k acc = Inr nodes"
  shows "\<exists>new. nodes = acc @ new \<and>
     map (\<lambda>n. gpu_id (props n)) new =
       filter (\<lambda>g. g \<noteq> 0) (map (\<lambda>j. case read_properties fs j of Inl _ \<Rightarrow> 0 | Inr p \<Rightarrow> gpu_id p) [i..<i + k])
     \<and> (\<forall>n\<in>set new. no_duplicates (caches n))"
  using assms
proof (induction page granted fs i k acc rule: scan_nodes.induct)
  case (1 page granted fs i acc)
  then show ?case by simp
next
  case (2 page granted fs i k acc)
  from 2(3) obtain node where n: "read_node granted fs i = Inr node" by (auto simp: res_simps)
  note spec = read_node_spec [OF n]
  have up: "[i..<i + Suc k] = i # [Suc i..<Suc i + k]" by (simp add: upt_conv_Cons del: upt_Suc)
  show ?case
  proof (cases "gpu_id (props node) = 0")
    case True
    then have "scan_nodes page granted fs (Suc i) k acc = Inr nodes" using 2(3) n by simp
    from 2(1) [OF True this] show ?thesis using True spec(1) unfolding up by simp
  next
    case False
    then have p: "vec_push granted acc (fill_cwsr page node) = Inr (acc @ [fill_cwsr page node])"
      and r: "scan_nodes page granted fs (Suc i) k (acc @ [fill_cwsr page node]) = Inr nodes"
      using 2(3) n by (auto simp: res_simps vec_push_def split: if_splits)
    from 2(2) [OF False r] obtain new where
      "nodes = acc @ fill_cwsr page node # new"
      "map (\<lambda>n. gpu_id (props n)) new = filter (\<lambda>g. g \<noteq> 0)
         (map (\<lambda>j. case read_properties fs j of Inl _ \<Rightarrow> 0 | Inr p \<Rightarrow> gpu_id p) [Suc i..<Suc i + k])"
      "\<forall>n\<in>set new. no_duplicates (caches n)"
      by auto
    then show ?thesis
      using False spec unfolding up
      by (intro exI [of _ "fill_cwsr page node # new"]) simp
  qed
qed

lemma scan_attempts_success:
  assumes "scan_attempts page granted as = Some (Inr t)"
  shows "\<exists>a\<in>set as. \<exists>g n. read_sysfs_uint (gen_before a) Generation_file = Inr g
     \<and> read_sysfs_uint (gen_after a) Generation_file = Inr g \<and> generation_id t = ucast g
     \<and> count_nodes (scanned a) = Some n
     \<and> scan_nodes page granted (scanned a) 0 (unat (of_nat n :: u32)) [] = Inr (storage t)"
  using assms
proof (induction page granted as rule: scan_attempts.induct)
  case (2 page granted a as)
  then show ?case
    by (auto split: sum.splits option.splits if_splits)
qed simp


definition demo_tree :: sysfs where
  "demo_tree = \<lparr>sys_file = (\<lambda>p. case p of Generation_file \<Rightarrow> Inr ''2'' | Gpu_id_file i \<Rightarrow> Inr (if i = 0 then ''0'' else ''77'')
      | Properties_file i \<Rightarrow> Inr (concat (map show_line [(''cwsr_size'', 1), (''ctl_stack_size'', 1)]) @ replicate 3 CHR 0x00)
      | _ \<Rightarrow> Inl ENOENT),
    sys_nodes = (\<lambda>i. i < 2)\<rparr>"

lemma demo_count: "count_nodes demo_tree = Some 2"
  unfolding count_nodes_def
  by (subst count_from.simps, subst count_from.simps, subst count_from.simps)
    (simp add: demo_tree_def)

lemma demo_topology:
  "topology_create 4096 (\<lambda>_. True) (\<lambda>_. \<lparr>gen_before = demo_tree, scanned = demo_tree,
      gen_after = demo_tree\<rparr>)
   = Some (Inr \<lparr>storage = [\<lparr>props = empty_properties\<lparr>gpu_id := 77, cwsr_size := 1,
        ctl_stack_size := 1\<rparr>, memory_banks = [], caches = [], io_links = []\<rparr>], generation_id = 2\<rparr>)"
  (is "topology_create _ _ ?env = _")
proof -
  have i: "consume_integer ''2'' = Inr (2, [])" "consume_integer ''0'' = Inr (0, [])"
    "consume_integer ''77'' = Inr (77, [])"
    by code_simp+
  have g: "read_sysfs_uint demo_tree Generation_file = Inr 2"
    by (simp add: read_sysfs_uint_def demo_tree_def i)
  have "\<forall>(k, v)\<in>set [(''cwsr_size'', 1), (''ctl_stack_size'', 1 :: nat)]. plain_key k \<and> v < 2 ^ 64"
    by (simp add: plain_key_def newline_def)
  note p = parse_printed [OF this, of parse_property _ 3, folded parse_properties_def]
  have rp: "read_properties demo_tree j = Inr (empty_properties\<lparr>gpu_id := if j = 0 then 0 else 77,
      cwsr_size := 1, ctl_stack_size := 1\<rparr>)" for j
    using p by (simp add: read_properties_def read_sysfs_uint_def demo_tree_def i
        parse_properties_def parse_property_def del: concat.simps list.map)
  have sc: "scan_nodes 4096 (\<lambda>_. True) demo_tree 0 (Suc (Suc 0)) [] =
      Inr [\<lparr>props = empty_properties\<lparr>gpu_id := 77, cwsr_size := 1, ctl_stack_size := 1\<rparr>,
        memory_banks = [], caches = [], io_links = []\<rparr>]"
    by (simp add: read_node_def rp empty_properties_def vec_push_def fill_cwsr_def)
  have n: "unat (of_nat 2 :: u32) = Suc (Suc 0)" by simp
  show ?thesis
    unfolding topology_create_def MAX_GENERATION_RETRIES_def
    by (simp add: upt_rec g demo_count n sc del: scan_nodes.simps of_nat_numeral unsigned_numeral)
qed


end
