(* ===== verification/Elf_Target.thy ===== *)
theory Elf_Target
  imports Abi Utility
begin

text \<open>
  Processor identification in AMDGPU code objects (\<^verbatim>\<open>detail/elf.h\<close>,
  \<^verbatim>\<open>detail/elf.cpp\<close>): the table of machine numbers, the table of generic targets, the
  conversions between machine number, name and packed version, and the check that a code object
  runs on a device.
\<close>

named_theorems mach_consts \<open>the machine and feature numbers of e_flags\<close>

section \<open>The tables\<close>

definition EF_AMDGPU_MACH :: u32 where [mach_consts]: "EF_AMDGPU_MACH = 0x0ff"
definition EF_AMDGPU_MACH_NONE :: u32 where [mach_consts]: "EF_AMDGPU_MACH_NONE = 0"

definition EF_AMDGPU_MACH_AMDGCN_GFX9_GENERIC :: u32 where [mach_consts]: "EF_AMDGPU_MACH_AMDGCN_GFX9_GENERIC = 0x51"
definition EF_AMDGPU_MACH_AMDGCN_GFX9_4_GENERIC :: u32 where [mach_consts]: "EF_AMDGPU_MACH_AMDGCN_GFX9_4_GENERIC = 0x5f"
definition EF_AMDGPU_MACH_AMDGCN_GFX10_1_GENERIC :: u32 where [mach_consts]: "EF_AMDGPU_MACH_AMDGCN_GFX10_1_GENERIC = 0x52"
definition EF_AMDGPU_MACH_AMDGCN_GFX10_3_GENERIC :: u32 where [mach_consts]: "EF_AMDGPU_MACH_AMDGCN_GFX10_3_GENERIC = 0x53"
definition EF_AMDGPU_MACH_AMDGCN_GFX11_GENERIC :: u32 where [mach_consts]: "EF_AMDGPU_MACH_AMDGCN_GFX11_GENERIC = 0x54"
definition EF_AMDGPU_MACH_AMDGCN_GFX12_GENERIC :: u32 where [mach_consts]: "EF_AMDGPU_MACH_AMDGCN_GFX12_GENERIC = 0x59"
definition EF_AMDGPU_MACH_AMDGCN_GFX12_5_GENERIC :: u32 where [mach_consts]: "EF_AMDGPU_MACH_AMDGCN_GFX12_5_GENERIC = 0x5b"

text \<open>The X-macro tables: (number, name, version) and (generic target, version, minimal version).\<close>

definition AMDGPU_MACH_LIST :: "(u32 \<times> string \<times> u32) list" where
  "AMDGPU_MACH_LIST =
  [(0x20, ''gfx600'', 60000), (0x21, ''gfx601'', 60001), (0x22, ''gfx700'', 70000),
   (0x23, ''gfx701'', 70001), (0x24, ''gfx702'', 70002), (0x25, ''gfx703'', 70003),
   (0x26, ''gfx704'', 70004), (0x28, ''gfx801'', 80001), (0x29, ''gfx802'', 80002),
   (0x2a, ''gfx803'', 80003), (0x2b, ''gfx810'', 80100), (0x2c, ''gfx900'', 90000),
   (0x2d, ''gfx902'', 90002), (0x2e, ''gfx904'', 90004), (0x2f, ''gfx906'', 90006),
   (0x30, ''gfx908'', 90008), (0x31, ''gfx909'', 90009), (0x32, ''gfx90c'', 90012),
   (0x33, ''gfx1010'', 100100), (0x34, ''gfx1011'', 100101), (0x35, ''gfx1012'', 100102),
   (0x36, ''gfx1030'', 100300), (0x37, ''gfx1031'', 100301), (0x38, ''gfx1032'', 100302),
   (0x39, ''gfx1033'', 100303), (0x3a, ''gfx602'', 60002), (0x3b, ''gfx705'', 70005),
   (0x3c, ''gfx805'', 80005), (0x3d, ''gfx1035'', 100305), (0x3e, ''gfx1034'', 100304),
   (0x3f, ''gfx90a'', 90010), (0x41, ''gfx1100'', 110000), (0x42, ''gfx1013'', 100103),
   (0x43, ''gfx1150'', 110500), (0x44, ''gfx1103'', 110003), (0x45, ''gfx1036'', 100306),
   (0x46, ''gfx1101'', 110001), (0x47, ''gfx1102'', 110002), (0x48, ''gfx1200'', 120000),
   (0x49, ''gfx1250'', 120500), (0x4a, ''gfx1151'', 110501), (0x4c, ''gfx942'', 90402),
   (0x4e, ''gfx1201'', 120001), (0x4f, ''gfx950'', 90500), (0x50, ''gfx1310'', 130100),
   (0x51, ''gfx9-generic'', 0), (0x52, ''gfx10-1-generic'', 0), (0x53, ''gfx10-3-generic'', 0),
   (0x54, ''gfx11-generic'', 0), (0x55, ''gfx1152'', 110502), (0x58, ''gfx1153'', 110503),
   (0x59, ''gfx12-generic'', 0), (0x5a, ''gfx1251'', 120501), (0x5b, ''gfx12-5-generic'', 0),
   (0x5c, ''gfx1172'', 110702), (0x5d, ''gfx1170'', 110700), (0x5e, ''gfx1171'', 110701),
   (0x5f, ''gfx9-4-generic'', 0)]"

definition AMDGPU_GENERIC_MAP :: "(u32 \<times> u32 \<times> u32) list" where
  "AMDGPU_GENERIC_MAP =
  [(EF_AMDGPU_MACH_AMDGCN_GFX9_GENERIC, 90000, 1),
   (EF_AMDGPU_MACH_AMDGCN_GFX9_GENERIC, 90002, 1),
   (EF_AMDGPU_MACH_AMDGCN_GFX9_GENERIC, 90004, 1),
   (EF_AMDGPU_MACH_AMDGCN_GFX9_GENERIC, 90006, 1),
   (EF_AMDGPU_MACH_AMDGCN_GFX9_GENERIC, 90009, 1),
   (EF_AMDGPU_MACH_AMDGCN_GFX9_GENERIC, 90012, 1),
   (EF_AMDGPU_MACH_AMDGCN_GFX9_4_GENERIC, 90402, 1),
   (EF_AMDGPU_MACH_AMDGCN_GFX9_4_GENERIC, 90500, 1),
   (EF_AMDGPU_MACH_AMDGCN_GFX10_1_GENERIC, 100100, 1),
   (EF_AMDGPU_MACH_AMDGCN_GFX10_1_GENERIC, 100101, 1),
   (EF_AMDGPU_MACH_AMDGCN_GFX10_1_GENERIC, 100102, 1),
   (EF_AMDGPU_MACH_AMDGCN_GFX10_1_GENERIC, 100103, 1),
   (EF_AMDGPU_MACH_AMDGCN_GFX10_3_GENERIC, 100300, 1),
   (EF_AMDGPU_MACH_AMDGCN_GFX10_3_GENERIC, 100301, 1),
   (EF_AMDGPU_MACH_AMDGCN_GFX10_3_GENERIC, 100302, 1),
   (EF_AMDGPU_MACH_AMDGCN_GFX10_3_GENERIC, 100303, 1),
   (EF_AMDGPU_MACH_AMDGCN_GFX10_3_GENERIC, 100304, 1),
   (EF_AMDGPU_MACH_AMDGCN_GFX10_3_GENERIC, 100305, 1),
   (EF_AMDGPU_MACH_AMDGCN_GFX10_3_GENERIC, 100306, 1),
   (EF_AMDGPU_MACH_AMDGCN_GFX11_GENERIC, 110000, 1),
   (EF_AMDGPU_MACH_AMDGCN_GFX11_GENERIC, 110001, 1),
   (EF_AMDGPU_MACH_AMDGCN_GFX11_GENERIC, 110002, 1),
   (EF_AMDGPU_MACH_AMDGCN_GFX11_GENERIC, 110003, 1),
   (EF_AMDGPU_MACH_AMDGCN_GFX11_GENERIC, 110500, 1),
   (EF_AMDGPU_MACH_AMDGCN_GFX11_GENERIC, 110501, 1),
   (EF_AMDGPU_MACH_AMDGCN_GFX11_GENERIC, 110502, 1),
   (EF_AMDGPU_MACH_AMDGCN_GFX11_GENERIC, 110503, 1),
   (EF_AMDGPU_MACH_AMDGCN_GFX12_GENERIC, 120000, 1),
   (EF_AMDGPU_MACH_AMDGCN_GFX12_GENERIC, 120001, 1),
   (EF_AMDGPU_MACH_AMDGCN_GFX12_5_GENERIC, 120500, 1),
   (EF_AMDGPU_MACH_AMDGCN_GFX12_5_GENERIC, 120501, 1)]"

definition is_generic_mach :: "u32 \<Rightarrow> bool" where
  "is_generic_mach mach \<longleftrightarrow>
     mach = EF_AMDGPU_MACH_AMDGCN_GFX9_GENERIC \<or>
     mach = EF_AMDGPU_MACH_AMDGCN_GFX9_4_GENERIC \<or>
     mach = EF_AMDGPU_MACH_AMDGCN_GFX10_1_GENERIC \<or>
     mach = EF_AMDGPU_MACH_AMDGCN_GFX10_3_GENERIC \<or>
     mach = EF_AMDGPU_MACH_AMDGCN_GFX11_GENERIC \<or>
     mach = EF_AMDGPU_MACH_AMDGCN_GFX12_GENERIC \<or>
     mach = EF_AMDGPU_MACH_AMDGCN_GFX12_5_GENERIC"

section \<open>Conversions\<close>

definition get_name :: "u32 \<Rightarrow> string" where
  "get_name mach =
     (case find (\<lambda>(num, _, _). num = mach) AMDGPU_MACH_LIST of Some (_, name, _) \<Rightarrow> name | None \<Rightarrow> [])"

definition get_gfx_version :: "u32 \<Rightarrow> u32" where
  "get_gfx_version mach =
     (case find (\<lambda>(num, _, _). num = mach) AMDGPU_MACH_LIST of Some (_, _, ver) \<Rightarrow> ver | None \<Rightarrow> 0)"

definition get_mach :: "u32 \<Rightarrow> u32" where
  "get_mach gfx_version =
     (case find (\<lambda>(_, _, ver). ver \<noteq> 0 \<and> ver = gfx_version) AMDGPU_MACH_LIST of
        Some (num, _, _) \<Rightarrow> num | None \<Rightarrow> EF_AMDGPU_MACH_NONE)"

definition get_generic_for_gpu :: "u32 \<Rightarrow> u32" where
  "get_generic_for_gpu gfx_version =
     (case find (\<lambda>(_, ver, _). ver = gfx_version) AMDGPU_GENERIC_MAP of
        Some (generic_mach, _, _) \<Rightarrow> generic_mach | None \<Rightarrow> EF_AMDGPU_MACH_NONE)"

text \<open>
  \<^verbatim>\<open>snprintf\<close> with \<^verbatim>\<open>%u\<close> and \<^verbatim>\<open>%x\<close>: the text that fits in \<open>size - 1\<close>
  characters, and the length of the whole text, which is the return value.
\<close>

definition hex_digit :: "nat \<Rightarrow> char" where
  "hex_digit d = (if d < 10 then char_of (48 + d) else char_of (87 + d))"

function show_hex :: "nat \<Rightarrow> string" where
  "show_hex n = (if n < 16 then [hex_digit n] else show_hex (n div 16) @ [hex_digit (n mod 16)])"
  by pat_completeness auto
termination by (relation "measure id") auto

declare show_hex.simps [simp del]

definition format_gfx_version :: "nat \<Rightarrow> u32 \<Rightarrow> string \<times> nat" where
  "format_gfx_version sz version =
     (let s = ''gfx'' @ show_dec (unat (gfx_version_major version))
                @ show_dec (unat (gfx_version_minor version))
                @ show_hex (unat (gfx_version_step version))
      in (take (sz - 1) s, length s))"

section \<open>Compatibility\<close>

definition EF_AMDGPU_FEATURE_XNACK_V4 :: u32 where [mach_consts]: "EF_AMDGPU_FEATURE_XNACK_V4 = 0x300"
definition EF_AMDGPU_FEATURE_XNACK_OFF_V4 :: u32 where [mach_consts]: "EF_AMDGPU_FEATURE_XNACK_OFF_V4 = 0x200"
definition EF_AMDGPU_FEATURE_XNACK_ON_V4 :: u32 where [mach_consts]: "EF_AMDGPU_FEATURE_XNACK_ON_V4 = 0x300"
definition EF_AMDGPU_FEATURE_SRAMECC_V4 :: u32 where [mach_consts]: "EF_AMDGPU_FEATURE_SRAMECC_V4 = 0xc00"
definition EF_AMDGPU_FEATURE_SRAMECC_OFF_V4 :: u32 where [mach_consts]: "EF_AMDGPU_FEATURE_SRAMECC_OFF_V4 = 0x800"
definition EF_AMDGPU_FEATURE_SRAMECC_ON_V4 :: u32 where [mach_consts]: "EF_AMDGPU_FEATURE_SRAMECC_ON_V4 = 0xc00"
definition EF_AMDGPU_GENERIC_VERSION :: u32 where [mach_consts]: "EF_AMDGPU_GENERIC_VERSION = 0xff000000"
definition EF_AMDGPU_GENERIC_VERSION_OFFSET :: nat where [mach_consts]: "EF_AMDGPU_GENERIC_VERSION_OFFSET = 24"

definition xnack_rejects :: "u32 \<Rightarrow> bool \<Rightarrow> bool" where
  "xnack_rejects e_flags enabled =
     (let f = e_flags AND EF_AMDGPU_FEATURE_XNACK_V4
      in if f = EF_AMDGPU_FEATURE_XNACK_ON_V4 then \<not> enabled
         else if f = EF_AMDGPU_FEATURE_XNACK_OFF_V4 then enabled else False)"

definition sramecc_rejects :: "u32 \<Rightarrow> bool \<Rightarrow> bool" where
  "sramecc_rejects e_flags enabled =
     (let f = e_flags AND EF_AMDGPU_FEATURE_SRAMECC_V4
      in if f = EF_AMDGPU_FEATURE_SRAMECC_ON_V4 then \<not> enabled
         else if f = EF_AMDGPU_FEATURE_SRAMECC_OFF_V4 then enabled else False)"

definition is_compatible :: "u32 \<Rightarrow> u32 \<Rightarrow> bool \<Rightarrow> bool \<Rightarrow> bool" where
  "is_compatible e_flags gfx_version xnack_enabled sramecc_enabled =
     (if xnack_rejects e_flags xnack_enabled then False
      else if sramecc_rejects e_flags sramecc_enabled then False
      else let mach = e_flags AND EF_AMDGPU_MACH
           in if \<not> is_generic_mach mach then get_gfx_version mach = gfx_version
              else let co_version = drop_bit EF_AMDGPU_GENERIC_VERSION_OFFSET
                                      (e_flags AND EF_AMDGPU_GENERIC_VERSION)
                   in list_ex (\<lambda>(generic_mach, gfx_ver, min_version).
                        generic_mach = mach \<and> gfx_ver = gfx_version \<and> co_version \<ge> min_version)
                        AMDGPU_GENERIC_MAP)"

section \<open>Lemmas\<close>

lemma mach_nums_distinct: "distinct (map fst AMDGPU_MACH_LIST)"
  by code_simp

lemma mach_vers_distinct: "distinct (filter (\<lambda>v. v \<noteq> 0) (map (snd \<circ> snd) AMDGPU_MACH_LIST))"
  by code_simp

lemma mach_nums_nonzero: "list_all (\<lambda>(num, _, _). num \<noteq> 0) AMDGPU_MACH_LIST"
  by code_simp

lemma generic_vers_distinct: "distinct (map (fst \<circ> snd) AMDGPU_GENERIC_MAP)"
  by code_simp

lemma generic_entries:
  "list_all (\<lambda>(g, v, k). is_generic_mach g \<and> g \<noteq> 0 \<and> v \<noteq> 0 \<and> k = 1) AMDGPU_GENERIC_MAP"
  by code_simp

lemma mach_entries:
  "list_all (\<lambda>(num, _, ver). is_generic_mach num = (ver = 0)) AMDGPU_MACH_LIST"
  by code_simp

lemma find_distinct_key:
  "distinct (filter P (map f xs)) \<Longrightarrow> x \<in> set xs \<Longrightarrow> P (f x) \<Longrightarrow>
   find (\<lambda>y. P (f y) \<and> f y = f x) xs = Some x"
proof (induction xs)
  case Nil
  then show ?case by simp
next
  case (Cons z zs)
  then show ?case by (cases "P (f z)") auto
qed

lemma find_None_key: "find Q xs = None \<longleftrightarrow> (\<forall>x\<in>set xs. \<not> Q x)"
  by (auto simp: find_None_iff)

lemma find_Some_in: "find Q xs = Some x \<Longrightarrow> x \<in> set xs \<and> Q x"
  by (auto simp: find_Some_iff)

lemma get_gfx_version_entry:
  assumes "(num, nm, ver) \<in> set AMDGPU_MACH_LIST"
  shows "get_gfx_version num = ver" "get_name num = nm"
proof -
  have "find (\<lambda>y. True \<and> fst y = fst (num, nm, ver)) AMDGPU_MACH_LIST = Some (num, nm, ver)"
    using mach_nums_distinct assms by (intro find_distinct_key [where P = "\<lambda>_. True"]) simp_all
  then show "get_gfx_version num = ver" "get_name num = nm"
    by (simp_all add: get_gfx_version_def get_name_def case_prod_unfold)
qed

lemma get_mach_entry:
  assumes "(num, nm, ver) \<in> set AMDGPU_MACH_LIST" and "ver \<noteq> 0"
  shows "get_mach ver = num"
proof -
  have "find (\<lambda>y. (snd \<circ> snd) y \<noteq> 0 \<and> (snd \<circ> snd) y = (snd \<circ> snd) (num, nm, ver)) AMDGPU_MACH_LIST
      = Some (num, nm, ver)"
    using mach_vers_distinct assms
    by (intro find_distinct_key [where P = "\<lambda>v. v \<noteq> 0" and f = "snd \<circ> snd"]) simp_all
  then show ?thesis by (simp add: get_mach_def case_prod_unfold)
qed

lemma get_generic_entry:
  assumes "(g, ver, k) \<in> set AMDGPU_GENERIC_MAP"
  shows "get_generic_for_gpu ver = g"
proof -
  have "find (\<lambda>y. True \<and> (fst \<circ> snd) y = (fst \<circ> snd) (g, ver, k)) AMDGPU_GENERIC_MAP = Some (g, ver, k)"
    using generic_vers_distinct assms
    by (intro find_distinct_key [where P = "\<lambda>_. True" and f = "fst \<circ> snd"]) simp_all
  then show ?thesis by (simp add: get_generic_for_gpu_def case_prod_unfold)
qed

lemma gfx_version_cases:
  assumes "get_gfx_version mach = v" and "v \<noteq> 0"
  obtains nm where "(mach, nm, v) \<in> set AMDGPU_MACH_LIST"
  using assms
  by (auto simp: get_gfx_version_def split: option.splits dest!: find_Some_in)

lemma get_mach_cases:
  assumes "get_mach v = m" and "m \<noteq> 0"
  obtains nm where "(m, nm, v) \<in> set AMDGPU_MACH_LIST" "v \<noteq> 0"
  using assms
  by (auto simp: get_mach_def EF_AMDGPU_MACH_NONE_def split: option.splits dest!: find_Some_in)

lemma get_generic_cases:
  assumes "get_generic_for_gpu v = g" and "g \<noteq> 0"
  obtains k where "(g, v, k) \<in> set AMDGPU_GENERIC_MAP"
  using assms
  by (auto simp: get_generic_for_gpu_def EF_AMDGPU_MACH_NONE_def split: option.splits dest!: find_Some_in)

lemma gfx_version_iff:
  assumes "v \<noteq> 0"
  shows "get_gfx_version m = v \<longleftrightarrow> get_mach v = m \<and> m \<noteq> 0"
proof
  assume "get_gfx_version m = v"
  then obtain nm where e: "(m, nm, v) \<in> set AMDGPU_MACH_LIST" using assms by (rule gfx_version_cases)
  from e mach_nums_nonzero have "m \<noteq> 0" unfolding list_all_iff by blast
  with e assms show "get_mach v = m \<and> m \<noteq> 0" by (simp add: get_mach_entry)
next
  assume "get_mach v = m \<and> m \<noteq> 0"
  then obtain nm where "(m, nm, v) \<in> set AMDGPU_MACH_LIST" by (metis get_mach_cases)
  then show "get_gfx_version m = v" by (rule get_gfx_version_entry)
qed

lemma real_version_not_generic:
  assumes "get_gfx_version m = v" and "v \<noteq> 0"
  shows "\<not> is_generic_mach m"
proof -
  obtain nm where "(m, nm, v) \<in> set AMDGPU_MACH_LIST" using assms by (rule gfx_version_cases)
  with mach_entries assms(2) show ?thesis by (auto simp: list_all_iff)
qed

lemma generic_gpus_known: "list_all (\<lambda>(_, ver, _). get_mach ver \<noteq> EF_AMDGPU_MACH_NONE) AMDGPU_GENERIC_MAP"
  by code_simp

lemma digit_chars:
  "char_of (48::nat) = CHR ''0''" "char_of (49::nat) = CHR ''1''" "char_of (50::nat) = CHR ''2''"
  "char_of (51::nat) = CHR ''3''" "char_of (52::nat) = CHR ''4''" "char_of (53::nat) = CHR ''5''"
  "char_of (54::nat) = CHR ''6''" "char_of (55::nat) = CHR ''7''" "char_of (56::nat) = CHR ''8''"
  "char_of (57::nat) = CHR ''9''" "char_of (97::nat) = CHR ''a''" "char_of (99::nat) = CHR ''c''"
  by code_simp+

lemma formatted_names:
  "list_all (\<lambda>(num, name, ver). if ver = 0 then True else format_gfx_version 16 ver = (name, length name))
     AMDGPU_MACH_LIST"
  unfolding AMDGPU_MACH_LIST_def
  by (simp add: format_gfx_version_def gfx_version_major_def gfx_version_minor_def gfx_version_step_def
      show_dec.simps show_hex.simps hex_digit_def digit_chars)

text \<open>
  The tables agree with each other: the name of a specific machine is what formatting its
  version prints, its version converts back to its number, and an entry without a version is
  exactly a generic target; every processor of the generic table is known and the generic target
  found for it is the one listed.
\<close>

theorem target_tables_agree:
  "list_all (\<lambda>(num, name, ver). get_name num = name \<and> get_gfx_version num = ver \<and>
      (if ver = 0 then is_generic_mach num
       else get_mach ver = num \<and> format_gfx_version 16 ver = (name, length name) \<and> \<not> is_generic_mach num))
    AMDGPU_MACH_LIST \<and>
   list_all (\<lambda>(generic, ver, _). get_generic_for_gpu ver = generic \<and> get_mach ver \<noteq> EF_AMDGPU_MACH_NONE)
    AMDGPU_GENERIC_MAP"
proof
  have "get_mach ver \<noteq> 0" if "(g, ver, k) \<in> set AMDGPU_GENERIC_MAP" for g ver k
    using generic_gpus_known that unfolding list_all_iff EF_AMDGPU_MACH_NONE_def by fastforce
  then show "list_all (\<lambda>(generic, ver, _). get_generic_for_gpu ver = generic \<and> get_mach ver \<noteq> EF_AMDGPU_MACH_NONE)
      AMDGPU_GENERIC_MAP"
    by (auto simp: list_all_iff EF_AMDGPU_MACH_NONE_def get_generic_entry)
  show "list_all (\<lambda>(num, name, ver). get_name num = name \<and> get_gfx_version num = ver \<and>
      (if ver = 0 then is_generic_mach num
       else get_mach ver = num \<and> format_gfx_version 16 ver = (name, length name) \<and> \<not> is_generic_mach num))
    AMDGPU_MACH_LIST"
    using formatted_names mach_entries
    by (fastforce simp: list_all_iff get_gfx_version_entry get_mach_entry)
qed



text \<open>
  The guard of the previous statement is needed: an unknown machine number has version 0, so it
  is compatible with a device that reports version 0.
\<close>

lemma unknown_mach_compatible_with_zero: "is_compatible 0 0 False False"
  by code_simp

end
