(* ===== verification/Elf.thy ===== *)
theory Elf
  imports Byte_Memory
begin

text \<open>
  The ELF64LE image wrapper of \<^verbatim>\<open>detail/elf.h\<close> and \<^verbatim>\<open>detail/elf.cpp\<close>. An image
  is the byte list of its span; a pointer into it is an offset; every read through a pointer is
  bounds-checked by the model and is \<open>UB\<close> when it leaves the span. \<^verbatim>\<open>buf.size()\<close> is the
  length of the list, a natural number: the guards of the code never let a subtraction from it wrap.
\<close>

section \<open>The structures\<close>

record elf_ehdr =
  e_ident :: bytes
  e_type :: u16
  e_machine :: u16
  e_version :: u32
  e_entry :: u64
  e_phoff :: u64
  e_shoff :: u64
  e_flags :: u32
  e_ehsize :: u16
  e_phentsize :: u16
  e_phnum :: u16
  e_shentsize :: u16
  e_shnum :: u16
  e_shstrndx :: u16

record elf_phdr =
  p_type :: u32
  p_flags :: u32
  p_offset :: u64
  p_vaddr :: u64
  p_paddr :: u64
  p_filesz :: u64
  p_memsz :: u64
  p_align :: u64

record elf_shdr =
  sh_name :: u32
  sh_type :: u32
  sh_flags :: u64
  sh_addr :: u64
  sh_offset :: u64
  sh_size :: u64
  sh_link :: u32
  sh_info :: u32
  sh_addralign :: u64
  sh_entsize :: u64

record elf_sym =
  st_name :: u32
  st_info :: u8
  st_other :: u8
  st_shndx :: u16
  st_value :: u64
  st_size :: u64

record elf_rela =
  r_offset :: u64
  r_info :: u64
  r_addend :: u64

record elf_dyn =
  d_tag :: u64
  d_val :: u64

definition sizeof_Ehdr :: nat where "sizeof_Ehdr = 64"
definition sizeof_Phdr :: nat where "sizeof_Phdr = 56"
definition sizeof_Shdr :: nat where "sizeof_Shdr = 64"
definition sizeof_Sym :: nat where "sizeof_Sym = 24"
definition sizeof_GnuHash :: nat where "sizeof_GnuHash = 16"
definition sizeof_Rela :: nat where "sizeof_Rela = 24"
definition sizeof_Dyn :: nat where "sizeof_Dyn = 16"

lemmas elf_sizes = sizeof_Ehdr_def sizeof_Phdr_def sizeof_Shdr_def sizeof_Sym_def sizeof_GnuHash_def
  sizeof_Rela_def sizeof_Dyn_def

text \<open>The bytes of a structure as its fields.\<close>

abbreviation field :: "bytes \<Rightarrow> nat \<Rightarrow> nat \<Rightarrow> 'a::len word" where
  "field b off n \<equiv> le_word (peek b off n)"

definition ehdr_of :: "bytes \<Rightarrow> elf_ehdr" where
  "ehdr_of b = \<lparr>e_ident = take 16 b, e_type = field b 16 2, e_machine = field b 18 2,
     e_version = field b 20 4, e_entry = field b 24 8, e_phoff = field b 32 8, e_shoff = field b 40 8,
     e_flags = field b 48 4, e_ehsize = field b 52 2, e_phentsize = field b 54 2, e_phnum = field b 56 2,
     e_shentsize = field b 58 2, e_shnum = field b 60 2, e_shstrndx = field b 62 2\<rparr>"

definition phdr_of :: "bytes \<Rightarrow> elf_phdr" where
  "phdr_of b = \<lparr>p_type = field b 0 4, p_flags = field b 4 4, p_offset = field b 8 8,
     p_vaddr = field b 16 8, p_paddr = field b 24 8, p_filesz = field b 32 8, p_memsz = field b 40 8,
     p_align = field b 48 8\<rparr>"

definition shdr_of :: "bytes \<Rightarrow> elf_shdr" where
  "shdr_of b = \<lparr>sh_name = field b 0 4, sh_type = field b 4 4, sh_flags = field b 8 8,
     sh_addr = field b 16 8, sh_offset = field b 24 8, sh_size = field b 32 8, sh_link = field b 40 4,
     sh_info = field b 44 4, sh_addralign = field b 48 8, sh_entsize = field b 56 8\<rparr>"

definition sym_of :: "bytes \<Rightarrow> elf_sym" where
  "sym_of b = \<lparr>st_name = field b 0 4, st_info = field b 4 1, st_other = field b 5 1,
     st_shndx = field b 6 2, st_value = field b 8 8, st_size = field b 16 8\<rparr>"

definition rela_of :: "bytes \<Rightarrow> elf_rela" where
  "rela_of b = \<lparr>r_offset = field b 0 8, r_info = field b 8 8, r_addend = field b 16 8\<rparr>"

definition dyn_of :: "bytes \<Rightarrow> elf_dyn" where
  "dyn_of b = \<lparr>d_tag = field b 0 8, d_val = field b 8 8\<rparr>"

definition sym_binding :: "elf_sym \<Rightarrow> u8" where "sym_binding s = drop_bit 4 (st_info s)"
definition sym_type :: "elf_sym \<Rightarrow> u8" where "sym_type s = st_info s AND 0xf"
definition rela_type :: "elf_rela \<Rightarrow> u32" where "rela_type r = lo32 (r_info r)"
definition rela_symbol :: "elf_rela \<Rightarrow> u32" where "rela_symbol r = hi32 (r_info r)"

text \<open>A structure, and a packed array of them, read through a pointer.\<close>

definition rd_struct :: "(bytes \<Rightarrow> 'a) \<Rightarrow> nat \<Rightarrow> bytes \<Rightarrow> nat \<Rightarrow> 'a res" where
  "rd_struct mk n buf off = kfd_try (mem_read buf off n) (\<lambda>b. Inr (mk b))"

fun rd_array :: "(bytes \<Rightarrow> 'a) \<Rightarrow> nat \<Rightarrow> bytes \<Rightarrow> nat \<Rightarrow> nat \<Rightarrow> 'a list res" where
  "rd_array mk n buf off 0 = Inr []"
| "rd_array mk n buf off (Suc c) =
     kfd_try (rd_struct mk n buf off) (\<lambda>x. kfd_try (rd_array mk n buf (off + n) c) (\<lambda>xs. Inr (x # xs)))"

text \<open>An element of a span.\<close>

definition span_at :: "'a list \<Rightarrow> nat \<Rightarrow> 'a res" where
  "span_at xs i = (if i < length xs then Inr (xs ! i) else Inl UB)"

section \<open>Validation\<close>

definition ELFMAG :: bytes where "ELFMAG = [0x7f, 0x45, 0x4c, 0x46]"
definition EI_CLASS :: nat where "EI_CLASS = 4"
definition EI_DATA :: nat where "EI_DATA = 5"
definition ELFCLASS64 :: u8 where "ELFCLASS64 = 2"
definition ELFDATA2LSB :: u8 where "ELFDATA2LSB = 1"
definition PT_LOAD :: u32 where "PT_LOAD = 1"
definition SHT_NOBITS :: u32 where "SHT_NOBITS = 8"
definition SHT_DYNSYM :: u32 where "SHT_DYNSYM = 11"
definition SHT_GNU_HASH :: u32 where "SHT_GNU_HASH = 0x6ffffff6"

definition elf_header :: "bytes \<Rightarrow> elf_ehdr res" where
  "elf_header buf = rd_struct ehdr_of sizeof_Ehdr buf 0"

text \<open>The extent check of a header table: count, entry size and offset against the buffer.\<close>

definition table_past_end :: "u16 \<Rightarrow> u16 \<Rightarrow> u64 \<Rightarrow> nat \<Rightarrow> bool" where
  "table_past_end num entsize off len =
     (let tab = (ucast num :: u64) * ucast entsize
      in num \<noteq> 0 \<and> (tab div ucast entsize \<noteq> ucast num \<or> unat tab > len \<or> unat off > len - unat tab))"

definition elf_create :: "u64 \<Rightarrow> bytes \<Rightarrow> bytes res" where
  "elf_create addr buf =
     fail_if (length buf < sizeof_Ehdr) ENOEXEC (
     fail_if (addr mod 8 > 0) EINVAL (
     kfd_try (elf_header buf) (\<lambda>h.
     fail_if (take 4 (e_ident h) \<noteq> ELFMAG) ENOEXEC (
     fail_if (e_ident h ! EI_CLASS \<noteq> ELFCLASS64) ENOEXEC (
     fail_if (e_ident h ! EI_DATA \<noteq> ELFDATA2LSB) ENOEXEC (
     fail_if (e_phnum h \<noteq> 0 \<and> unat (e_phentsize h) < sizeof_Phdr) ENOEXEC (
     fail_if (table_past_end (e_phnum h) (e_phentsize h) (e_phoff h) (length buf)) ERANGE (
     fail_if (e_shnum h \<noteq> 0 \<and> unat (e_shentsize h) < sizeof_Shdr) ENOEXEC (
     fail_if (table_past_end (e_shnum h) (e_shentsize h) (e_shoff h) (length buf)) ERANGE (
     fail_if (e_shnum h \<noteq> 0 \<and> e_shstrndx h \<ge> e_shnum h) ENOEXEC (
     Inr buf)))))))))))"

section \<open>Segments\<close>

definition phdrs :: "bytes \<Rightarrow> elf_phdr list res" where
  "phdrs buf = kfd_try (elf_header buf) (\<lambda>h.
     if e_phnum h = 0 then Inr []
     else rd_array phdr_of sizeof_Phdr buf (unat (e_phoff h)) (unat (e_phnum h)))"

definition outside :: "u64 \<Rightarrow> u64 \<Rightarrow> nat \<Rightarrow> bool" where
  "outside off sz len \<longleftrightarrow> unat sz > len \<or> unat off > len - unat sz"

definition segment_data :: "bytes \<Rightarrow> elf_phdr \<Rightarrow> bytes res" where
  "segment_data buf ph =
     fail_if (outside (p_offset ph) (p_filesz ph) (length buf)) ERANGE (
     mem_read buf (unat (p_offset ph)) (unat (p_filesz ph)))"

fun extent_loop :: "elf_phdr list \<Rightarrow> u64 \<Rightarrow> u64 \<Rightarrow> u64 \<Rightarrow> (u64 \<times> u64 \<times> u64) res" where
  "extent_loop [] lo hi max_align = Inr (lo, hi, max_align)"
| "extent_loop (ph # phs) lo hi max_align =
     (if p_type ph \<noteq> PT_LOAD then extent_loop phs lo hi max_align
      else let lo' = (if p_vaddr ph < lo then p_vaddr ph else lo)
           in if p_memsz ph > - 1 - p_vaddr ph then Inl ERANGE
              else let end_addr = p_vaddr ph + p_memsz ph
                   in extent_loop phs lo' (if end_addr > hi then end_addr else hi)
                        (if p_align ph > max_align then p_align ph else max_align))"

definition load_extent :: "bytes \<Rightarrow> (u64 \<times> u64 \<times> u64) res" where
  "load_extent buf = kfd_try (phdrs buf) (\<lambda>phs. kfd_try (extent_loop phs (- 1) 0 1)
     (\<lambda>(lo, hi, max_align). fail_if (lo \<ge> hi) ENOEXEC (Inr (lo, hi, max_align))))"

section \<open>Sections\<close>

definition elf_sections :: "bytes \<Rightarrow> elf_shdr list res" where
  "elf_sections buf = kfd_try (elf_header buf) (\<lambda>h.
     if e_shnum h = 0 then Inr []
     else rd_array shdr_of sizeof_Shdr buf (unat (e_shoff h)) (unat (e_shnum h)))"

text \<open>\<^verbatim>\<open>memchr\<close> for a zero byte.\<close>

fun find_nul :: "bytes \<Rightarrow> nat option" where
  "find_nul [] = None"
| "find_nul (b # bs) = (if b = 0 then Some 0 else map_option Suc (find_nul bs))"

definition section_name :: "bytes \<Rightarrow> elf_shdr \<Rightarrow> bytes res" where
  "section_name buf shdr = kfd_try (elf_header buf) (\<lambda>h. kfd_try (elf_sections buf) (\<lambda>shdrs.
     fail_if (unat (e_shstrndx h) \<ge> length shdrs) ENOEXEC (
     kfd_try (span_at shdrs (unat (e_shstrndx h))) (\<lambda>strtab.
     fail_if (ucast (sh_name shdr) \<ge> sh_size strtab) ENOEXEC (
     fail_if (outside (sh_offset strtab) (sh_size strtab) (length buf)) ERANGE (
     kfd_try (mem_read buf (unat (sh_offset strtab) + unat (sh_name shdr))
                           (unat (sh_size strtab - ucast (sh_name shdr)))) (\<lambda>b.
     case find_nul b of None \<Rightarrow> Inl ENOEXEC | Some n \<Rightarrow> Inr (take n b))))))))"

definition section_data :: "bytes \<Rightarrow> elf_shdr \<Rightarrow> bytes res" where
  "section_data buf shdr =
     (if sh_type shdr = SHT_NOBITS then Inr []
      else fail_if (outside (sh_offset shdr) (sh_size shdr) (length buf)) ERANGE (
           mem_read buf (unat (sh_offset shdr)) (unat (sh_size shdr))))"

section \<open>Symbols\<close>

fun hash_loop :: "u32 \<Rightarrow> bytes \<Rightarrow> u32" where
  "hash_loop h [] = h"
| "hash_loop h (ch # cs) = hash_loop (push_bit 5 h + h + ucast ch) cs"

definition hash_gnu :: "bytes \<Rightarrow> u32" where "hash_gnu name = hash_loop 5381 name"

definition strtab_for_symtab :: "bytes \<Rightarrow> elf_shdr \<Rightarrow> elf_shdr option res" where
  "strtab_for_symtab buf symtab = kfd_try (elf_sections buf) (\<lambda>shdrs.
     if unat (sh_link symtab) \<ge> length shdrs then Inr None
     else kfd_try (span_at shdrs (unat (sh_link symtab))) (\<lambda>s. Inr (Some s)))"

definition symbols_for :: "bytes \<Rightarrow> elf_shdr \<Rightarrow> elf_sym list res" where
  "symbols_for buf symtab =
     (if sh_entsize symtab \<noteq> of_nat sizeof_Sym \<or> outside (sh_offset symtab) (sh_size symtab) (length buf)
      then Inr []
      else rd_array sym_of sizeof_Sym buf (unat (sh_offset symtab))
             (unat (sh_size symtab div sh_entsize symtab)))"

definition sym_name :: "bytes \<Rightarrow> elf_sym \<Rightarrow> nat \<Rightarrow> u64 \<Rightarrow> bytes res" where
  "sym_name buf sy strtab strtab_size =
     (if ucast (st_name sy) \<ge> strtab_size then Inr []
      else kfd_try (mem_read buf (strtab + unat (st_name sy)) (unat (strtab_size - ucast (st_name sy))))
        (\<lambda>b. Inr (case find_nul b of None \<Rightarrow> [] | Some n \<Rightarrow> take n b)))"

text \<open>
  The chain walk of \<^verbatim>\<open>lookup_gnu_hash\<close>. Its counter is a 32-bit integer that wraps, so the
  walk is given fuel; running out of it is \<open>HANGS\<close>.
\<close>

fun hash_chain ::
  "nat \<Rightarrow> bytes \<Rightarrow> bytes \<Rightarrow> u32 \<Rightarrow> u32 \<Rightarrow> nat \<Rightarrow> nat \<Rightarrow> elf_sym list \<Rightarrow> nat \<Rightarrow> u64 \<Rightarrow> u32 \<Rightarrow> elf_sym option res"
where
  "hash_chain 0 buf name name_hash symndx values n_values syms strtab strtab_size i = Inl HANGS"
| "hash_chain (Suc f) buf name name_hash symndx values n_values syms strtab strtab_size i =
     (if i \<ge> symndx \<and> unat i < length syms
      then if unat (i - symndx) \<ge> n_values then Inr None
           else kfd_try (rd 4 buf (values + 4 * unat (i - symndx))) (\<lambda>chain_hash :: u32.
                kfd_try (if name_hash OR 1 = chain_hash OR 1
                         then kfd_try (sym_name buf (syms ! unat i) strtab strtab_size) (\<lambda>s. Inr (s = name))
                         else Inr False) (\<lambda>hit.
                if hit then Inr (Some (syms ! unat i))
                else if chain_hash AND 1 \<noteq> 0 then Inr None
                else hash_chain f buf name name_hash symndx values n_values syms strtab strtab_size (i + 1)))
      else Inr None)"

definition gnu_search ::
  "bytes \<Rightarrow> bytes \<Rightarrow> nat \<Rightarrow> u64 \<Rightarrow> u32 \<Rightarrow> u32 \<Rightarrow> u32 \<Rightarrow> u32 \<Rightarrow> elf_sym list \<Rightarrow> nat \<Rightarrow> u64 \<Rightarrow> elf_sym option res"
where
  "gnu_search buf name ht ht_size nbuckets symndx maskwords shift2 syms strtab strtab_size =
     (if nbuckets = 0 \<or> maskwords = 0 then Inr None
      else
      let header_bytes = of_nat sizeof_GnuHash :: u64;
          filter_bytes = ucast maskwords * 8 :: u64;
          bucket_bytes = ucast nbuckets * 4 :: u64;
          min_size = header_bytes + filter_bytes + bucket_bytes
      in if min_size < header_bytes \<or> min_size > ht_size then Inr None
      else if shift2 \<ge> 32 then Inr None
      else
      let name_hash = hash_gnu name;
          filter_at = ht + sizeof_GnuHash;
          buckets = filter_at + 8 * unat maskwords;
          values = buckets + 4 * unat nbuckets
      in kfd_try (rd 8 buf (filter_at + 8 * unat (name_hash div 64 mod maskwords))) (\<lambda>w :: u64.
         let msk = push_bit (unat (name_hash mod 64)) 1
                     OR push_bit (unat (drop_bit (unat shift2) name_hash mod 64)) 1
         in if w AND msk \<noteq> msk then Inr None
            else kfd_try (rd 4 buf (buckets + 4 * unat (name_hash mod nbuckets))) (\<lambda>first.
              hash_chain (Suc (length syms)) buf name name_hash symndx values
                (unat ((ht_size - min_size) div 4)) syms strtab strtab_size first)))"

definition lookup_gnu_hash ::
  "bytes \<Rightarrow> bytes \<Rightarrow> nat \<Rightarrow> u64 \<Rightarrow> elf_sym list \<Rightarrow> nat \<Rightarrow> u64 \<Rightarrow> elf_sym option res"
where
  "lookup_gnu_hash buf name ht ht_size syms strtab strtab_size =
     kfd_try (rd 4 buf ht) (\<lambda>nbuckets. kfd_try (rd 4 buf (ht + 4)) (\<lambda>symndx.
     kfd_try (rd 4 buf (ht + 8)) (\<lambda>maskwords. kfd_try (rd 4 buf (ht + 12)) (\<lambda>shift2.
     gnu_search buf name ht ht_size nbuckets symndx maskwords shift2 syms strtab strtab_size))))"

fun find_in_sections :: "bytes \<Rightarrow> bytes \<Rightarrow> elf_shdr list \<Rightarrow> elf_shdr list \<Rightarrow> elf_sym option res" where
  "find_in_sections buf name shdrs [] = Inr None"
| "find_in_sections buf name shdrs (shdr # rest) =
     (if sh_type shdr \<noteq> SHT_GNU_HASH then find_in_sections buf name shdrs rest
      else fail_if (outside (sh_offset shdr) (sh_size shdr) (length buf)) ERANGE (
           fail_if (unat (sh_size shdr) < sizeof_GnuHash) ENOEXEC (
           fail_if (unat (sh_link shdr) \<ge> length shdrs) ENOEXEC (
           kfd_try (span_at shdrs (unat (sh_link shdr))) (\<lambda>symtab_hdr.
           kfd_try (symbols_for buf symtab_hdr) (\<lambda>syms.
           if syms = [] then find_in_sections buf name shdrs rest
           else kfd_try (strtab_for_symtab buf symtab_hdr) (\<lambda>str.
             case str of None \<Rightarrow> Inl ENOEXEC
             | Some str_hdr \<Rightarrow>
                 fail_if (outside (sh_offset str_hdr) (sh_size str_hdr) (length buf)) ERANGE (
                 kfd_try (lookup_gnu_hash buf name (unat (sh_offset shdr)) (sh_size shdr) syms
                            (unat (sh_offset str_hdr)) (sh_size str_hdr)) (\<lambda>result.
                 case result of Some sy \<Rightarrow> Inr (Some sy)
                 | None \<Rightarrow> find_in_sections buf name shdrs rest)))))))))"

definition find_symbol :: "bytes \<Rightarrow> bytes \<Rightarrow> elf_sym option res" where
  "find_symbol buf name = kfd_try (elf_sections buf) (\<lambda>shdrs. find_in_sections buf name shdrs shdrs)"

text \<open>The address a symbol resolves to, as an offset into the image.\<close>

definition symbol_address :: "bytes \<Rightarrow> elf_sym \<Rightarrow> nat res" where
  "symbol_address buf sy = kfd_try (elf_sections buf) (\<lambda>shdrs.
     fail_if (unat (st_shndx sy) \<ge> length shdrs) ENOEXEC (
     kfd_try (span_at shdrs (unat (st_shndx sy))) (\<lambda>sec.
     fail_if (sh_type sec = SHT_NOBITS) ENOEXEC (
     fail_if (sh_size sec > - 1 - sh_addr sec) ERANGE (
     let sec_rel = st_value sy - sh_addr sec
     in fail_if (st_value sy < sh_addr sec \<or> sec_rel > sh_size sec \<or>
                 st_size sy > sh_size sec - sec_rel) ERANGE (
        fail_if (sec_rel > - 1 - sh_offset sec) ERANGE (
        let off = sh_offset sec + sec_rel
        in fail_if (unat off \<ge> length buf \<or> unat (st_size sy) > length buf - unat off) ERANGE (
           Inr (unat off)))))))))"

text \<open>\<^verbatim>\<open>lookup<T>\<close> for a type of \<open>sz\<close> bytes.\<close>

definition elf_lookup :: "nat \<Rightarrow> bytes \<Rightarrow> bytes \<Rightarrow> nat res" where
  "elf_lookup sz buf name = kfd_try (find_symbol buf name) (\<lambda>sy.
     case sy of None \<Rightarrow> Inl ENOENT
     | Some s \<Rightarrow> fail_if (unat (st_size s) < sz) EINVAL (symbol_address buf s))"

subsection \<open>Iteration\<close>

text \<open>
  An iterator is a pointer to a symbol and its string table; the range of an image without a usable
  dynamic symbol table has two null iterators.
\<close>

record sym_iter =
  it_cur :: nat
  it_strtab :: nat
  it_strtab_size :: u64

definition null_iter :: sym_iter where "null_iter = \<lparr>it_cur = 0, it_strtab = 0, it_strtab_size = 0\<rparr>"

definition iter_deref :: "bytes \<Rightarrow> sym_iter \<Rightarrow> bytes res" where
  "iter_deref buf it = kfd_try (rd_struct sym_of sizeof_Sym buf (it_cur it)) (\<lambda>sy.
     if ucast (st_name sy) \<ge> it_strtab_size it then Inr []
     else kfd_try (mem_read buf (it_strtab it + unat (st_name sy))
                     (unat (it_strtab_size it - ucast (st_name sy)))) (\<lambda>b.
       Inr (case find_nul b of None \<Rightarrow> [] | Some n \<Rightarrow> take n b)))"

definition iter_next :: "sym_iter \<Rightarrow> sym_iter" where
  "iter_next it = it\<lparr>it_cur := it_cur it + sizeof_Sym\<rparr>"

fun symbols_from :: "bytes \<Rightarrow> elf_shdr list \<Rightarrow> elf_shdr list \<Rightarrow> (sym_iter \<times> sym_iter) res" where
  "symbols_from buf shdrs [] = Inr (null_iter, null_iter)"
| "symbols_from buf shdrs (shdr # rest) =
     (if sh_type shdr \<noteq> SHT_DYNSYM then symbols_from buf shdrs rest
      else if unat (sh_link shdr) \<ge> length shdrs \<or> sh_entsize shdr \<noteq> of_nat sizeof_Sym
      then Inr (null_iter, null_iter)
      else case section_data buf shdr of
        Inl e \<Rightarrow> if e = UB then Inl UB else Inr (null_iter, null_iter)
      | Inr sym_data \<Rightarrow>
          if sym_data = [] then Inr (null_iter, null_iter)
          else kfd_try (span_at shdrs (unat (sh_link shdr))) (\<lambda>str_hdr.
            case section_data buf str_hdr of
              Inl e \<Rightarrow> if e = UB then Inl UB else Inr (null_iter, null_iter)
            | Inr str_data \<Rightarrow>
                let count = sh_size shdr div sh_entsize shdr
                in if count \<le> 1 then Inr (null_iter, null_iter)
                   else let make = (\<lambda>s. \<lparr>it_cur = s, it_strtab = unat (sh_offset str_hdr),
                                          it_strtab_size = of_nat (length str_data)\<rparr>)
                        in Inr (make (unat (sh_offset shdr) + sizeof_Sym),
                                make (unat (sh_offset shdr) + sizeof_Sym * unat count))))"

definition symbols :: "bytes \<Rightarrow> (sym_iter \<times> sym_iter) res" where
  "symbols buf = kfd_try (elf_sections buf) (\<lambda>shdrs. symbols_from buf shdrs shdrs)"

text \<open>A client's loop over the range, with the number of steps it takes as fuel.\<close>

fun range_names :: "nat \<Rightarrow> bytes \<Rightarrow> sym_iter \<Rightarrow> sym_iter \<Rightarrow> bytes list res" where
  "range_names 0 buf it stop = (if it_cur it = it_cur stop then Inr [] else Inl HANGS)"
| "range_names (Suc f) buf it stop =
     (if it_cur it = it_cur stop then Inr []
      else kfd_try (iter_deref buf it) (\<lambda>s. kfd_try (range_names f buf (iter_next it) stop)
             (\<lambda>ss. Inr (s # ss))))"

section \<open>Lemmas\<close>

lemma rd_struct_ok [mem_simps]:
  "off + n \<le> length buf \<Longrightarrow> rd_struct mk n buf off = Inr (mk (peek buf off n))"
  by (simp add: rd_struct_def mem_read_ok)

lemma rd_array_ok [mem_simps]:
  "off + n * c \<le> length buf \<Longrightarrow>
   rd_array mk n buf off c = Inr (map (\<lambda>i. mk (peek buf (off + n * i) n)) [0..<c])"
proof (induction c arbitrary: off)
  case 0
  then show ?case by simp
next
  case (Suc c)
  have "rd_array mk n buf (off + n) c = Inr (map (\<lambda>i. mk (peek buf (off + n + n * i) n)) [0..<c])"
    using Suc.prems by (intro Suc.IH) simp
  moreover have "[0..<Suc c] = 0 # map Suc [0..<c]" by (simp add: map_Suc_upt upt_conv_Cons)
  moreover have "off + n \<le> length buf" using Suc.prems by simp
  ultimately show ?case by (simp add: rd_struct_ok add.assoc del: upt_Suc)
qed

lemma not_outside: "\<not> outside off sz len \<longleftrightarrow> unat off + unat sz \<le> len"
  by (auto simp: outside_def)

lemma span_at_ok [mem_simps]: "i < length xs \<Longrightarrow> span_at xs i = Inr (xs ! i)"
  by (simp add: span_at_def)

subsection \<open>What acceptance gives\<close>

definition image_ok :: "bytes \<Rightarrow> bool" where
  "image_ok buf \<longleftrightarrow> sizeof_Ehdr \<le> length buf \<and>
     (let h = ehdr_of (peek buf 0 sizeof_Ehdr) in
        (e_phnum h \<noteq> 0 \<longrightarrow> unat (e_phoff h) + sizeof_Phdr * unat (e_phnum h) \<le> length buf) \<and>
        (e_shnum h \<noteq> 0 \<longrightarrow> unat (e_shoff h) + sizeof_Shdr * unat (e_shnum h) \<le> length buf \<and>
           e_shstrndx h < e_shnum h))"

lemma table_in_bounds:
  assumes "\<not> table_past_end num entsize off len" and "num \<noteq> 0" and "sz \<le> unat entsize"
  shows "unat off + sz * unat num \<le> len"
proof -
  have "unat num * unat entsize < 2 ^ 16 * 2 ^ 16"
    using unsigned_less [of num] unsigned_less [of entsize] by (intro mult_strict_mono) simp_all
  then have p: "unat ((ucast num :: u64) * ucast entsize) = unat num * unat entsize"
    by (subst unat_mult_no_wrap) simp_all
  have "sz * unat num \<le> unat num * unat entsize" using assms(3) by (simp add: mult.commute)
  moreover have "unat num * unat entsize \<le> len" "unat off \<le> len - unat num * unat entsize"
    using assms(1,2) by (simp_all add: table_past_end_def Let_def p not_le [symmetric])
  ultimately show ?thesis by linarith
qed

lemma elf_createD:
  assumes "elf_create addr buf = Inr img"
  shows "img = buf" "image_ok buf"
  using assms
  by (auto simp: elf_create_def elf_header_def rd_struct_def mem_read_def image_ok_def Let_def
      res_simps not_le not_less peek_def elf_sizes intro: table_in_bounds split: if_splits)

lemma header_ok: "image_ok buf \<Longrightarrow> elf_header buf = Inr (ehdr_of (peek buf 0 sizeof_Ehdr))"
  by (simp add: elf_header_def image_ok_def mem_simps)

lemma phdrs_eq:
  assumes "image_ok buf"
  defines "h \<equiv> ehdr_of (peek buf 0 sizeof_Ehdr)"
  shows "phdrs buf = Inr (map (\<lambda>i. phdr_of (peek buf (unat (e_phoff h) + sizeof_Phdr * i) sizeof_Phdr))
    [0..<unat (e_phnum h)])"
proof (cases "e_phnum h = 0")
  case True
  then show ?thesis by (simp add: phdrs_def header_ok [OF assms(1)] h_def)
next
  case False
  then have "unat (e_phoff h) + sizeof_Phdr * unat (e_phnum h) \<le> length buf"
    using assms by (simp add: image_ok_def Let_def)
  then show ?thesis using False by (simp add: phdrs_def header_ok [OF assms(1)] h_def rd_array_ok)
qed

lemma sections_eq:
  assumes "image_ok buf"
  defines "h \<equiv> ehdr_of (peek buf 0 sizeof_Ehdr)"
  shows "elf_sections buf = Inr (map (\<lambda>i. shdr_of (peek buf (unat (e_shoff h) + sizeof_Shdr * i) sizeof_Shdr))
    [0..<unat (e_shnum h)])"
proof (cases "e_shnum h = 0")
  case True
  then show ?thesis by (simp add: elf_sections_def header_ok [OF assms(1)] h_def)
next
  case False
  then have "unat (e_shoff h) + sizeof_Shdr * unat (e_shnum h) \<le> length buf"
    using assms by (simp add: image_ok_def Let_def)
  then show ?thesis using False by (simp add: elf_sections_def header_ok [OF assms(1)] h_def rd_array_ok)
qed

lemma phdrs_ok:
  assumes "image_ok buf"
  obtains phs where "phdrs buf = Inr phs"
  using phdrs_eq [OF assms] by (rule that)

lemma sections_ok:
  assumes "image_ok buf"
  obtains shs where "elf_sections buf = Inr shs" "length shs = unat (e_shnum (ehdr_of (peek buf 0 sizeof_Ehdr)))"
  using that [OF sections_eq [OF assms]] by simp

lemma segment_data_no_ub: "segment_data buf ph \<noteq> Inl UB"
  by (simp add: segment_data_def fail_if_eq_Inl not_outside mem_simps)

lemma section_data_no_ub: "section_data buf sh \<noteq> Inl UB"
  by (simp add: section_data_def fail_if_eq_Inl not_outside mem_simps)

lemma extent_loop_no_ub: "extent_loop phs lo hi a \<noteq> Inl UB"
  by (induction phs lo hi a rule: extent_loop.induct) (auto simp: Let_def)

lemma string_in_table:
  fixes name :: u32 and sz :: u64
  assumes "ucast name < sz" and "base + unat sz \<le> len"
  shows "base + unat name + unat (sz - ucast name) \<le> len"
proof -
  have "unat name < unat sz" using assms(1) by (simp add: word_less_nat_alt)
  then have "unat (sz - ucast name) = unat sz - unat name" by (subst unat_sub_no_wrap) simp_all
  with \<open>unat name < unat sz\<close> assms(2) show ?thesis by simp
qed

lemma section_name_no_ub: "image_ok buf \<Longrightarrow> section_name buf sh \<noteq> Inl UB"
proof -
  assume ok: "image_ok buf"
  obtain shs where s: "elf_sections buf = Inr shs" using ok by (rule sections_ok)
  show ?thesis
    unfolding section_name_def header_ok [OF ok] s
    by (auto simp: kfd_try_eq_Inl fail_if_eq_Inl span_at_ok not_outside not_le mem_read_ok string_in_table
        split: option.splits)
qed

lemma sym_name_no_ub: "strtab + unat sz \<le> length buf \<Longrightarrow> sym_name buf s strtab sz \<noteq> Inl UB"
  by (auto simp: sym_name_def not_le mem_read_ok string_in_table)

lemma symbols_for_ok:
  obtains syms where "symbols_for buf sh = Inr syms" "sizeof_Sym * length syms \<le> length buf"
proof (cases "sh_entsize sh \<noteq> of_nat sizeof_Sym \<or> outside (sh_offset sh) (sh_size sh) (length buf)")
  case True
  then show ?thesis using that [of "[]"] by (simp add: symbols_for_def)
next
  case False
  then have e: "sh_entsize sh = 24" and b: "unat (sh_offset sh) + unat (sh_size sh) \<le> length buf"
    by (simp_all add: sizeof_Sym_def not_outside)
  have d: "unat (sh_size sh div 24) = unat (sh_size sh) div 24" by (simp add: unat_div)
  have "24 * (unat (sh_size sh) div 24) \<le> unat (sh_size sh)" by (rule times_div_less_eq_dividend)
  then have c: "unat (sh_offset sh) + 24 * (unat (sh_size sh) div 24) \<le> length buf" using b by linarith
  have "symbols_for buf sh = Inr (map (\<lambda>i. sym_of (peek buf (unat (sh_offset sh) + 24 * i) 24))
      [0..<unat (sh_size sh) div 24])" (is "_ = Inr ?syms")
    using False e d c by (simp add: symbols_for_def sizeof_Sym_def rd_array_ok)
  moreover have "sizeof_Sym * length ?syms \<le> length buf" using c by (simp add: sizeof_Sym_def)
  ultimately show ?thesis by (rule that)
qed

subsection \<open>The hash table walk\<close>

lemma rd_errors: "rd n buf off = Inl e \<Longrightarrow> e = UB"
  by (auto simp: rd_def mem_read_def kfd_try_eq_Inl split: if_splits)

lemma sym_name_errors: "sym_name buf s strtab sz = Inl e \<Longrightarrow> e = UB"
  by (auto simp: sym_name_def mem_read_def kfd_try_eq_Inl split: if_splits)

lemma hash_chain_no_ub:
  assumes "values + 4 * n_values \<le> length buf" and "strtab + unat sz \<le> length buf"
  shows "hash_chain f buf name h symndx values n_values syms strtab sz i \<noteq> Inl UB"
proof (induction f arbitrary: i)
  case 0
  then show ?case by simp
next
  case (Suc f)
  have "values + 4 * unat (i - symndx) + 4 \<le> length buf" if "\<not> unat (i - symndx) \<ge> n_values"
    using that assms(1) by linarith
  then show ?case
    using Suc sym_name_no_ub [OF assms(2)]
    by (auto simp: kfd_try_eq_Inl rd_ok)
qed

lemma hash_chain_ends:
  assumes "length syms < 2 ^ 32" and "0 < f" and "length syms < unat i + f"
  shows "hash_chain f buf name h symndx values n_values syms strtab sz i \<noteq> Inl HANGS"
  using assms(2,3)
proof (induction f arbitrary: i)
  case 0
  then show ?case by simp
next
  case (Suc f)
  have "hash_chain f buf name h symndx values n_values syms strtab sz (i + 1) \<noteq> Inl HANGS"
    if "unat i < length syms"
  proof -
    have "unat (i + 1) = unat i + 1" using that assms(1) by (subst unat_add_no_wrap) simp_all
    with that Suc.prems show ?thesis by (intro Suc.IH) simp_all
  qed
  then show ?case by (auto simp: kfd_try_eq_Inl dest: rd_errors sym_name_errors)
qed

lemma gnu_min_size:
  fixes nb mw :: u32
  shows "unat (of_nat sizeof_GnuHash + ucast mw * 8 + ucast nb * 4 :: u64) = 16 + 8 * unat mw + 4 * unat nb"
proof -
  have b: "unat mw < 2 ^ 32" "unat nb < 2 ^ 32" by (rule unat32_less)+
  have m: "unat (ucast mw * 8 :: u64) = 8 * unat mw" "unat (ucast nb * 4 :: u64) = 4 * unat nb"
    using b by (subst unat_mult_no_wrap; simp)+
  have "unat (16 + ucast mw * 8 :: u64) = 16 + 8 * unat mw"
    using b by (subst unat_add_no_wrap) (simp_all add: m)
  then show ?thesis using b by (subst unat_add_no_wrap) (simp_all add: m sizeof_GnuHash_def)
qed

text \<open>The layout the length checks of \<^verbatim>\<open>lookup_gnu_hash\<close> establish.\<close>

lemma gnu_layout:
  fixes nb mw :: u32 and ht_size :: u64
  assumes "of_nat sizeof_GnuHash + ucast mw * 8 + ucast nb * 4 \<le> ht_size" and "ht + unat ht_size \<le> len"
    and "nb \<noteq> 0" and "mw \<noteq> 0"
  shows "ht + 16 + 8 * unat (x mod mw) + 8 \<le> len"
    and "ht + 16 + 8 * unat mw + 4 * unat (y mod nb) + 4 \<le> len"
    and "ht + 16 + 8 * unat mw + 4 * unat nb +
         4 * unat ((ht_size - (of_nat sizeof_GnuHash + ucast mw * 8 + ucast nb * 4)) div 4) \<le> len"
proof -
  let ?min = "of_nat sizeof_GnuHash + ucast mw * 8 + ucast nb * 4 :: u64"
  have min: "unat ?min \<le> unat ht_size" using assms(1) by (simp only: word_le_nat_alt)
  then have min': "16 + 8 * unat mw + 4 * unat nb \<le> unat ht_size" by (simp only: gnu_min_size)
  have m: "unat (x mod mw) < unat mw" "unat (y mod nb) < unat nb"
    using assms(3,4) by (simp_all add: unat_mod unat_gt_0)
  show "ht + 16 + 8 * unat (x mod mw) + 8 \<le> len" "ht + 16 + 8 * unat mw + 4 * unat (y mod nb) + 4 \<le> len"
    using min' m assms(2) by linarith+
  have "unat (ht_size - ?min) = unat ht_size - unat ?min"
    using min by (rule unat_sub_no_wrap)
  moreover have "unat ((ht_size - ?min) div 4) = unat (ht_size - ?min) div 4" by (simp add: unat_div)
  moreover have "4 * (unat (ht_size - ?min) div 4) \<le> unat (ht_size - ?min)" by simp
  ultimately have "4 * unat ((ht_size - ?min) div 4) \<le> unat ht_size - (16 + 8 * unat mw + 4 * unat nb)"
    by (simp only: gnu_min_size)
  then show "ht + 16 + 8 * unat mw + 4 * unat nb + 4 * unat ((ht_size - ?min) div 4) \<le> len"
    using min' assms(2) by linarith
qed

text \<open>The table as the search sees it, every read being inside the section.\<close>

definition bloom_hit :: "bytes \<Rightarrow> nat \<Rightarrow> u32 \<Rightarrow> u32 \<Rightarrow> u32 \<Rightarrow> bool" where
  "bloom_hit buf ht maskwords shift2 h =
     (let w = field buf (ht + 16 + 8 * unat (h div 64 mod maskwords)) 8 :: u64;
          msk = push_bit (unat (h mod 64)) 1 OR push_bit (unat (drop_bit (unat shift2) h mod 64)) 1
      in w AND msk = msk)"

definition table_fits :: "u64 \<Rightarrow> u32 \<Rightarrow> u32 \<Rightarrow> u32 \<Rightarrow> bool" where
  "table_fits ht_size nb mw shift2 \<longleftrightarrow>
     nb \<noteq> 0 \<and> mw \<noteq> 0 \<and> of_nat sizeof_GnuHash + ucast mw * 8 + ucast nb * 4 \<le> ht_size \<and> shift2 < 32"

definition n_values :: "u64 \<Rightarrow> u32 \<Rightarrow> u32 \<Rightarrow> nat" where
  "n_values ht_size nb mw =
     unat ((ht_size - (of_nat sizeof_GnuHash + ucast mw * 8 + ucast nb * 4)) div 4)"

lemma gnu_search_eq:
  assumes "ht + unat ht_size \<le> length buf"
  shows "gnu_search buf name ht ht_size nb symndx mw shift2 syms strtab sz =
     (if \<not> table_fits ht_size nb mw shift2 \<or> \<not> bloom_hit buf ht mw shift2 (hash_gnu name) then Inr None
      else hash_chain (Suc (length syms)) buf name (hash_gnu name) symndx
             (ht + 16 + 8 * unat mw + 4 * unat nb) (n_values ht_size nb mw) syms strtab sz
             (field buf (ht + 16 + 8 * unat mw + 4 * unat (hash_gnu name mod nb)) 4))"
proof (cases "table_fits ht_size nb mw shift2")
  case True
  then have f: "nb \<noteq> 0" "mw \<noteq> 0" "of_nat sizeof_GnuHash + ucast mw * 8 + ucast nb * 4 \<le> ht_size" "shift2 < 32"
    by (auto simp: table_fits_def)
  have "((16 :: u64) + ucast mw * 8 + ucast nb * 4 < 16) = False"
    using gnu_min_size [of mw nb] by (simp add: word_less_nat_alt sizeof_GnuHash_def)
  moreover have "(ht_size < (16 :: u64) + ucast mw * 8 + ucast nb * 4) = False" "(32 \<le> shift2) = False"
    using f(3,4) by (simp_all add: not_less not_le sizeof_GnuHash_def)
  ultimately show ?thesis
    using f(1,2) True gnu_layout(1,2) [OF f(3) assms f(1,2)]
    by (simp add: gnu_search_def Let_def bloom_hit_def n_values_def rd_ok sizeof_GnuHash_def
        del: hash_chain.simps)
next
  case False
  then show ?thesis by (auto simp: gnu_search_def table_fits_def Let_def not_le not_less)
qed

lemma lookup_gnu_hash_eq:
  assumes "ht + unat ht_size \<le> length buf" and "16 \<le> unat ht_size"
  shows "lookup_gnu_hash buf name ht ht_size syms strtab sz =
     gnu_search buf name ht ht_size (field buf ht 4) (field buf (ht + 4) 4) (field buf (ht + 8) 4)
       (field buf (ht + 12) 4) syms strtab sz"
  using assms by (simp add: lookup_gnu_hash_def rd_ok)

lemma table_fits_values:
  "table_fits ht_size nb mw shift2 \<Longrightarrow> ht + unat ht_size \<le> len \<Longrightarrow>
   ht + 16 + 8 * unat mw + 4 * unat nb + 4 * n_values ht_size nb mw \<le> len"
  using gnu_layout(3) by (simp add: table_fits_def n_values_def)

lemma lookup_gnu_hash_safe:
  assumes "ht + unat ht_size \<le> length buf" and "16 \<le> unat ht_size"
    and "strtab + unat sz \<le> length buf"
  shows "lookup_gnu_hash buf name ht ht_size syms strtab sz \<noteq> Inl UB"
    and "length syms < 2 ^ 32 \<Longrightarrow> lookup_gnu_hash buf name ht ht_size syms strtab sz \<noteq> Inl HANGS"
  unfolding lookup_gnu_hash_eq [OF assms(1,2)] gnu_search_eq [OF assms(1)]
  using hash_chain_no_ub [OF table_fits_values [OF _ assms(1)] assms(3)]
  by (auto simp: hash_chain_ends simp del: hash_chain.simps)

lemma find_in_sections_safe:
  assumes "elf_sections buf = Inr shdrs"
  shows "find_in_sections buf name shdrs shs \<noteq> Inl UB \<and>
    (length buf < 24 * 2 ^ 32 \<longrightarrow> find_in_sections buf name shdrs shs \<noteq> Inl HANGS)"
proof (induction shs)
  case Nil
  then show ?case by simp
next
  case (Cons sh shs)
  show ?case
  proof (cases "sh_type sh \<noteq> SHT_GNU_HASH \<or> outside (sh_offset sh) (sh_size sh) (length buf) \<or>
      unat (sh_size sh) < sizeof_GnuHash \<or> unat (sh_link sh) \<ge> length shdrs")
    case True
    then show ?thesis using Cons by (auto simp: fail_if_eq_Inl)
  next
    case False
    then have in1: "unat (sh_offset sh) + unat (sh_size sh) \<le> length buf" "16 \<le> unat (sh_size sh)"
      by (simp_all add: not_outside sizeof_GnuHash_def)
    obtain syms where syms: "symbols_for buf (shdrs ! unat (sh_link sh)) = Inr syms"
      and len: "sizeof_Sym * length syms \<le> length buf" by (rule symbols_for_ok)
    have "length syms < 2 ^ 32" if "length buf < 24 * 2 ^ 32"
      using that len by (simp add: sizeof_Sym_def)
    then show ?thesis
      using Cons False syms lookup_gnu_hash_safe [OF in1]
      by (auto simp: fail_if_eq_Inl kfd_try_eq_Inl span_at_ok strtab_for_symtab_def assms not_outside
          split: option.splits)
  qed
qed

lemma symbol_address_no_ub: "elf_sections buf = Inr shdrs \<Longrightarrow> symbol_address buf s \<noteq> Inl UB"
  by (auto simp: symbol_address_def kfd_try_eq_Inl fail_if_eq_Inl Let_def span_at_ok)

lemma symbols_from_no_ub: "symbols_from buf shdrs shs \<noteq> Inl UB"
  by (induction shs) (auto simp: span_at_ok Let_def section_data_no_ub kfd_try_eq_Inl split: sum.splits)

subsection \<open>Iterating over the symbols\<close>

definition range_ok :: "bytes \<Rightarrow> sym_iter \<Rightarrow> sym_iter \<Rightarrow> nat \<Rightarrow> bool" where
  "range_ok buf it stop n \<longleftrightarrow>
     it_cur stop = it_cur it + sizeof_Sym * n \<and> (n = 0 \<or> it_cur stop \<le> length buf) \<and>
     (it_strtab_size it = 0 \<or> it_strtab it + unat (it_strtab_size it) \<le> length buf)"

lemma iter_deref_ok:
  assumes "range_ok buf it stop (Suc n)"
  obtains s where "iter_deref buf it = Inr s" "range_ok buf (iter_next it) stop n"
proof -
  have b: "it_cur it + sizeof_Sym \<le> length buf" and t: "it_strtab_size it = 0 \<or> it_strtab it + unat (it_strtab_size it) \<le> length buf"
    using assms by (auto simp: range_ok_def)
  have "\<exists>s. iter_deref buf it = Inr s"
    using string_in_table [of _ "it_strtab_size it" "it_strtab it" "length buf"] t by (auto simp: iter_deref_def rd_struct_ok [OF b] mem_read_ok not_le)
  moreover have "range_ok buf (iter_next it) stop n"
    using assms by (auto simp: range_ok_def iter_next_def)
  ultimately show ?thesis using that by blast
qed

lemma range_names_ok:
  "range_ok buf it stop n \<Longrightarrow> n \<le> f \<Longrightarrow> \<exists>names. range_names f buf it stop = Inr names \<and> length names = n"
proof (induction n arbitrary: it f)
  case 0
  then show ?case by (cases f) (simp_all add: range_ok_def)
next
  case (Suc n)
  then obtain g where f: "f = Suc g" by (cases f) auto
  obtain s where s: "iter_deref buf it = Inr s" "range_ok buf (iter_next it) stop n"
    using Suc.prems(1) by (rule iter_deref_ok)
  from Suc.IH [OF s(2)] Suc.prems(2) f obtain names
    where "range_names g buf (iter_next it) stop = Inr names" "length names = n" by auto
  moreover have "it_cur it \<noteq> it_cur stop" using Suc.prems(1) by (simp add: range_ok_def sizeof_Sym_def)
  ultimately show ?case using f s by simp
qed

lemma symbols_from_range:
  "symbols_from buf shdrs shs = Inr (b, e) \<Longrightarrow> length buf < 2 ^ 64 \<Longrightarrow> \<exists>n. range_ok buf b e n \<and> sizeof_Sym * n \<le> length buf"
proof (induction shs)
  case Nil
  then show ?case by (intro exI [of _ 0]) (auto simp: range_ok_def null_iter_def)
next
  case (Cons sh shs)
  have null: ?case if "b = null_iter" "e = null_iter"
    using that by (intro exI [of _ 0]) (auto simp: range_ok_def null_iter_def)
  show ?case
  proof (cases "symbols_from buf shdrs shs = Inr (b, e) \<or> b = null_iter \<and> e = null_iter")
    case True
    with Cons null show ?thesis by blast
  next
    case False
    note nf = False Cons.prems(1)
    have h: "sh_type sh = SHT_DYNSYM" "unat (sh_link sh) < length shdrs" "sh_entsize sh = 24"
      using nf by (auto simp: sizeof_Sym_def split: if_splits)
    obtain sd where sd: "section_data buf sh = Inr sd"
      using nf h by (cases "section_data buf sh") (auto simp: sizeof_Sym_def split: if_splits)
    define str where "str = shdrs ! unat (sh_link sh)"
    obtain td where td: "section_data buf str = Inr td"
      using nf h sd by (cases "section_data buf str") (auto simp: sizeof_Sym_def span_at_def str_def split: if_splits)
    have be: "it_cur b = unat (sh_offset sh) + 24" "it_cur e = unat (sh_offset sh) + 24 * unat (sh_size sh div 24)"
        "it_strtab b = unat (sh_offset str)" "it_strtab_size b = of_nat (length td)" "\<not> sh_size sh div 24 \<le> 1"
      using nf h sd td by (auto simp: sizeof_Sym_def span_at_def str_def [symmetric] Let_def split: if_splits)
    have bound: "unat (sh_offset sh) + unat (sh_size sh) \<le> length buf"
      using sd h by (auto simp: section_data_def SHT_NOBITS_def SHT_DYNSYM_def res_simps not_outside)
    have c: "unat (sh_size sh div 24) = unat (sh_size sh) div 24" by (simp add: unat_div)
    have c1: "1 < unat (sh_size sh) div 24" using be(5) by (simp add: word_le_nat_alt c)
    have le: "24 * (unat (sh_size sh) div 24) \<le> unat (sh_size sh)" by (rule times_div_less_eq_dividend)
    have "it_strtab_size b = 0 \<or> it_strtab b + unat (it_strtab_size b) \<le> length buf"
      using td Cons.prems(2) be
      by (auto simp: section_data_def res_simps not_outside mem_read_def split: if_splits)
    then have "range_ok buf b e (unat (sh_size sh) div 24 - 1)"
      using be bound c c1 le by (simp add: range_ok_def sizeof_Sym_def diff_mult_distrib2)
    moreover have "sizeof_Sym * (unat (sh_size sh) div 24 - 1) \<le> length buf"
      using bound le by (simp add: sizeof_Sym_def diff_mult_distrib2)
    ultimately show ?thesis by blast
  qed
qed

section \<open>A small image\<close>

text \<open>
  A loadable segment and a symbol \<^verbatim>\<open>k\<close>: the hash table is at 312, the symbols at 344, the
  strings at 392 and four bytes of code at 396.
\<close>

definition put_shdr :: "u32 \<Rightarrow> u64 \<Rightarrow> u64 \<Rightarrow> u64 \<Rightarrow> u32 \<Rightarrow> u64 \<Rightarrow> bytes" where
  "put_shdr ty addr off sz link ent =
     le_bytes 4 (0 :: u32) @ le_bytes 4 ty @ le_bytes 8 (0 :: u64) @ le_bytes 8 addr @ le_bytes 8 off
     @ le_bytes 8 sz @ le_bytes 4 link @ le_bytes 4 (0 :: u32) @ le_bytes 8 (0 :: u64) @ le_bytes 8 ent"

definition put_sym :: "u32 \<Rightarrow> u16 \<Rightarrow> u64 \<Rightarrow> u64 \<Rightarrow> bytes" where
  "put_sym name shndx val sz =
     le_bytes 4 name @ [0x12, 0] @ le_bytes 2 shndx @ le_bytes 8 val @ le_bytes 8 sz"

definition demo_image :: bytes where
  "demo_image =
     ELFMAG @ [2, 1, 1, 64, 3, 0, 0, 0, 0, 0, 0, 0]
     @ le_bytes 2 (3 :: u16) @ le_bytes 2 (224 :: u16) @ le_bytes 4 (1 :: u32) @ le_bytes 8 (0 :: u64)
     @ le_bytes 8 (64 :: u64) @ le_bytes 8 (120 :: u64) @ le_bytes 4 (0x41 :: u32)
     @ le_bytes 2 (64 :: u16) @ le_bytes 2 (56 :: u16) @ le_bytes 2 (1 :: u16)
     @ le_bytes 2 (64 :: u16) @ le_bytes 2 (3 :: u16) @ le_bytes 2 (2 :: u16)
     @ le_bytes 4 (1 :: u32) @ le_bytes 4 (5 :: u32) @ le_bytes 8 (0 :: u64) @ le_bytes 8 (0 :: u64)
     @ le_bytes 8 (0 :: u64) @ le_bytes 8 (400 :: u64) @ le_bytes 8 (512 :: u64) @ le_bytes 8 (4096 :: u64)
     @ put_shdr 0x6ffffff6 0 312 32 1 0
     @ put_shdr 11 0 344 48 2 24
     @ put_shdr 3 392 392 8 0 0
     @ le_bytes 4 (1 :: u32) @ le_bytes 4 (1 :: u32) @ le_bytes 4 (1 :: u32) @ le_bytes 4 (6 :: u32)
     @ le_bytes 8 (- 1 :: u64) @ le_bytes 4 (1 :: u32) @ le_bytes 4 (177681 :: u32)
     @ put_sym 0 0 0 0 @ put_sym 1 2 396 4
     @ [0, 0x6b, 0, 0] @ [1, 2, 3, 4]"

definition demo_sections :: "elf_shdr list" where
  "demo_sections =
     [\<lparr>sh_name = 0, sh_type = SHT_GNU_HASH, sh_flags = 0, sh_addr = 0, sh_offset = 312, sh_size = 32,
       sh_link = 1, sh_info = 0, sh_addralign = 0, sh_entsize = 0\<rparr>,
      \<lparr>sh_name = 0, sh_type = SHT_DYNSYM, sh_flags = 0, sh_addr = 0, sh_offset = 344, sh_size = 48,
       sh_link = 2, sh_info = 0, sh_addralign = 0, sh_entsize = 24\<rparr>,
      \<lparr>sh_name = 0, sh_type = 3, sh_flags = 0, sh_addr = 392, sh_offset = 392, sh_size = 8,
       sh_link = 0, sh_info = 0, sh_addralign = 0, sh_entsize = 0\<rparr>]"

definition demo_sym :: elf_sym where
  "demo_sym = \<lparr>st_name = 1, st_info = 0x12, st_other = 0, st_shndx = 2, st_value = 396, st_size = 4\<rparr>"

definition demo_syms :: "elf_sym list" where
  "demo_syms =
     [\<lparr>st_name = 0, st_info = 0x12, st_other = 0, st_shndx = 0, st_value = 0, st_size = 0\<rparr>, demo_sym]"

lemma demo_length [simp]: "length demo_image = 400"
  by code_simp

lemma demo_accepted: "elf_create 0 demo_image = Inr demo_image"
  by code_simp

lemma demo_sections: "elf_sections demo_image = Inr demo_sections"
  by code_simp

lemma demo_syms: "symbols_for demo_image (demo_sections ! 1) = Inr demo_syms"
  by code_simp

lemma demo_search: "lookup_gnu_hash demo_image [0x6b] 312 32 demo_syms 392 8 = Inr (Some demo_sym)"
  by code_simp

lemma demo_found: "find_symbol demo_image [0x6b] = Inr (Some demo_sym)"
proof -
  have "strtab_for_symtab demo_image (demo_sections ! 1) = Inr (Some (demo_sections ! 2))"
    by (simp add: strtab_for_symtab_def demo_sections span_at_def) (simp add: demo_sections_def)
  with demo_syms demo_search show ?thesis
    by (simp add: find_symbol_def demo_sections demo_sections_def demo_syms_def outside_def sizeof_GnuHash_def
        span_at_def)
qed

lemma demo_address: "elf_lookup 4 demo_image [0x6b] = Inr 396"
  by (simp add: elf_lookup_def demo_found symbol_address_def demo_sections)
    (simp add: demo_sections_def demo_sym_def span_at_def SHT_NOBITS_def)

definition demo_phdr :: elf_phdr where
  "demo_phdr = \<lparr>p_type = 1, p_flags = 5, p_offset = 0, p_vaddr = 0, p_paddr = 0, p_filesz = 400,
     p_memsz = 512, p_align = 4096\<rparr>"

lemma demo_phdrs: "phdrs demo_image = Inr [demo_phdr]"
  by code_simp

lemma demo_extent: "load_extent demo_image = Inr (0, 512, 4096)"
  by (simp add: load_extent_def demo_phdrs) code_simp

section \<open>Search against the symbol list\<close>

definition chain_value :: "bytes \<Rightarrow> nat \<Rightarrow> u32 \<Rightarrow> nat \<Rightarrow> u32" where
  "chain_value buf values symndx j = field buf (values + 4 * (j - unat symndx)) 4"

lemma hash_chain_sound:
  "hash_chain f buf name h symndx values nv syms strtab sz i = Inr (Some s) \<Longrightarrow>
   \<exists>j. unat symndx \<le> j \<and> j < length syms \<and> s = syms ! j \<and> sym_name buf s strtab sz = Inr name"
proof (induction f arbitrary: i)
  case 0
  then show ?case by simp
next
  case (Suc f)
  from Suc.prems have g: "symndx \<le> i" "unat i < length syms" by (auto split: if_splits)
  show ?case
  proof (cases "s = syms ! unat i \<and> sym_name buf s strtab sz = Inr name")
    case True
    with g show ?thesis by (auto simp: word_le_nat_alt)
  next
    case False
    with Suc.prems g have "hash_chain f buf name h symndx values nv syms strtab sz (i + 1) = Inr (Some s)"
      by (auto simp: res_simps split: if_splits)
    then show ?thesis by (rule Suc.IH)
  qed
qed

lemma hash_chain_finds:
  assumes bounds: "values + 4 * nv \<le> length buf" "strtab + unat sz \<le> length buf" "length syms < 2 ^ 32"
    and target: "t < length syms" "t - unat symndx < nv" "sym_name buf (syms ! t) strtab sz = Inr name"
      "chain_value buf values symndx t OR 1 = h OR 1"
    and open_chain: "\<forall>j. unat i \<le> j \<and> j < t \<longrightarrow> chain_value buf values symndx j AND 1 = 0"
    and i: "symndx \<le> i" "unat i \<le> t" "t - unat i < f"
  shows "\<exists>s. hash_chain f buf name h symndx values nv syms strtab sz i = Inr (Some s)"
  using open_chain i
proof (induction f arbitrary: i)
  case 0
  then show ?case by simp
next
  case (Suc f)
  have d: "unat (i - symndx) = unat i - unat symndx"
    using Suc.prems(2) by (intro unat_sub_no_wrap) (simp add: word_le_nat_alt)
  have le: "unat symndx \<le> unat i" using Suc.prems(2) by (simp add: word_le_nat_alt)
  then have nv: "unat (i - symndx) < nv" using Suc.prems(3) target(2) d by linarith
  then have "values + 4 * unat (i - symndx) + 4 \<le> length buf" using bounds(1) by linarith
  then have rd: "rd 4 buf (values + 4 * unat (i - symndx)) = Inr (chain_value buf values symndx (unat i))"
    by (simp add: rd_ok chain_value_def d)
  obtain nm where nm: "sym_name buf (syms ! unat i) strtab sz = Inr nm"
    using sym_name_no_ub [OF bounds(2)] sym_name_errors by (metis sumE)
  show ?case
  proof (cases "unat i = t")
    case True
    then show ?thesis using Suc.prems target rd nv by (simp add: nm)
  next
    case False
    then have lt: "unat i < t" using Suc.prems(3) by simp
    then have i1: "unat (i + 1) = unat i + 1" using target(1) bounds(3) by (subst unat_add_no_wrap) simp_all
    have "\<exists>s. hash_chain f buf name h symndx values nv syms strtab sz (i + 1) = Inr (Some s)"
      using Suc.prems lt i1 le by (intro Suc.IH) (auto simp: word_le_nat_alt)
    moreover have "chain_value buf values symndx (unat i) AND 1 = 0" using Suc.prems(1) lt by blast
    ultimately show ?thesis
      using Suc.prems(2) lt target(1) rd nv by (auto simp: nm)
  qed
qed

text \<open>
  The documented contract of a GNU hash table: every symbol from \<open>symndx\<close> on is announced by
  the filter, and the chain of its bucket reaches it, each value on the way holding the hash with
  the low bit marking the end.
\<close>

definition gnu_indexed :: "bytes \<Rightarrow> nat \<Rightarrow> u64 \<Rightarrow> elf_sym list \<Rightarrow> nat \<Rightarrow> u64 \<Rightarrow> bool" where
  "gnu_indexed buf ht ht_size syms strtab sz \<longleftrightarrow>
     (let nb = field buf ht 4; symndx = field buf (ht + 4) 4; mw = field buf (ht + 8) 4;
          shift2 = field buf (ht + 12) 4 :: u32; values = ht + 16 + 8 * unat mw + 4 * unat nb
      in table_fits ht_size nb mw shift2 \<and>
         (\<forall>t \<in> set [unat symndx..<length syms].
            case sym_name buf (syms ! t) strtab sz of Inl _ \<Rightarrow> True
            | Inr nm \<Rightarrow>
                (let h = hash_gnu nm; first = field buf (ht + 16 + 8 * unat mw + 4 * unat (h mod nb)) 4
                 in bloom_hit buf ht mw shift2 h \<and> symndx \<le> first \<and> unat first \<le> t \<and>
                    t - unat symndx < n_values ht_size nb mw \<and>
                    chain_value buf values symndx t OR 1 = h OR 1 \<and>
                    (\<forall>j \<in> set [unat first..<t]. chain_value buf values symndx j AND 1 = 0))))"

lemma find_in_sections_sound:
  assumes "find_in_sections buf name shdrs shs = Inr (Some s)" and "elf_sections buf = Inr shdrs"
  shows "\<exists>hs\<in>set shs. \<exists>syms str. sh_type hs = SHT_GNU_HASH \<and> unat (sh_link hs) < length shdrs \<and>
     symbols_for buf (shdrs ! unat (sh_link hs)) = Inr syms \<and> s \<in> set syms \<and>
     str \<in> set shdrs \<and> sym_name buf s (unat (sh_offset str)) (sh_size str) = Inr name"
  using assms(1)
proof (induction shs)
  case Nil
  then show ?case by simp
next
  case (Cons hs shs)
  show ?case
  proof (cases "find_in_sections buf name shdrs shs = Inr (Some s)")
    case True
    with Cons.IH show ?thesis by (meson list.set_intros(2))
  next
    case False
    with Cons.prems obtain syms str where
      h: "sh_type hs = SHT_GNU_HASH" "unat (sh_link hs) < length shdrs"
      "unat (sh_offset hs) + unat (sh_size hs) \<le> length buf" "16 \<le> unat (sh_size hs)"
      and syms: "symbols_for buf (shdrs ! unat (sh_link hs)) = Inr syms" and str: "str \<in> set shdrs"
      and l: "lookup_gnu_hash buf name (unat (sh_offset hs)) (sh_size hs) syms
                (unat (sh_offset str)) (sh_size str) = Inr (Some s)"
      by (auto simp: res_simps span_at_def strtab_for_symtab_def assms(2) not_outside sizeof_GnuHash_def
          not_less not_le split: if_splits option.splits) (meson nth_mem)
    from l obtain j where "j < length syms" "s = syms ! j"
      "sym_name buf s (unat (sh_offset str)) (sh_size str) = Inr name"
      unfolding lookup_gnu_hash_eq [OF h(3,4)] gnu_search_eq [OF h(3)]
      by (auto simp del: hash_chain.simps split: if_splits dest!: hash_chain_sound)
    with h syms str show ?thesis by auto
  qed
qed

subsection \<open>The extent loop\<close>

definition loads :: "elf_phdr list \<Rightarrow> elf_phdr list" where
  "loads phs = filter (\<lambda>ph. p_type ph = PT_LOAD) phs"

lemma extent_loop_value:
  "extent_loop phs lo hi a = Inr (lo', hi', a') \<Longrightarrow>
   unat lo' = Min (insert (unat lo) ((\<lambda>ph. unat (p_vaddr ph)) ` set (loads phs))) \<and>
   unat hi' = Max (insert (unat hi) ((\<lambda>ph. unat (p_vaddr ph) + unat (p_memsz ph)) ` set (loads phs))) \<and>
   unat a' = Max (insert (unat a) ((\<lambda>ph. unat (p_align ph)) ` set (loads phs)))"
proof (induction phs lo hi a rule: extent_loop.induct)
  case (1 lo hi a)
  then show ?case by (simp add: loads_def)
next
  case (2 ph phs lo hi a)
  show ?case
  proof (cases "p_type ph = PT_LOAD")
    case False
    then show ?thesis using 2 by (simp add: loads_def)
  next
    case True
    with "2.prems" have no: "\<not> p_memsz ph > - 1 - p_vaddr ph" by (auto simp: Let_def split: if_splits)
    have "unat (- 1 - p_vaddr ph) = 2 ^ 64 - 1 - unat (p_vaddr ph)"
      using unat64_less [of "p_vaddr ph"] by (subst unat_sub_no_wrap) (simp_all add: unat_max64)
    with no have "unat (p_vaddr ph) + unat (p_memsz ph) < 2 ^ 64"
      using unat64_less [of "p_vaddr ph"] by (simp add: word_less_nat_alt not_less)
    then have sum: "unat (p_vaddr ph + p_memsz ph) = unat (p_vaddr ph) + unat (p_memsz ph)"
      by (intro unat_add_no_wrap) simp
    have mn: "unat (if x < y then x else y) = min (unat x) (unat y)"
      and mx: "unat (if x > y then x else y) = max (unat x) (unat y)" for x y :: u64
      by (auto simp: word_less_nat_alt min_def max_def)
    let ?S = "set (loads phs)"
    have "loads (ph # phs) = ph # loads phs" using True by (simp add: loads_def)
    then have im: "f ` set (loads (ph # phs)) = insert (f ph) (f ` ?S)" for f :: "elf_phdr \<Rightarrow> nat" by simp
    have "extent_loop phs (if p_vaddr ph < lo then p_vaddr ph else lo)
        (if p_vaddr ph + p_memsz ph > hi then p_vaddr ph + p_memsz ph else hi)
        (if p_align ph > a then p_align ph else a) = Inr (lo', hi', a')"
      using "2.prems" True no by (simp add: Let_def)
    then have "unat lo' = Min (insert (unat (if p_vaddr ph < lo then p_vaddr ph else lo)) ((\<lambda>ph. unat (p_vaddr ph)) ` ?S)) \<and>
      unat hi' = Max (insert (unat (if p_vaddr ph + p_memsz ph > hi then p_vaddr ph + p_memsz ph else hi))
         ((\<lambda>ph. unat (p_vaddr ph) + unat (p_memsz ph)) ` ?S)) \<and>
      unat a' = Max (insert (unat (if p_align ph > a then p_align ph else a)) ((\<lambda>ph. unat (p_align ph)) ` ?S))"
      using "2.IH" True no by (simp add: Let_def)
    then show ?thesis
      unfolding mn mx sum im by (simp add: Min_insert_min Max_insert_max insert_commute)
  qed
qed

section \<open>Properties\<close>

text \<open>
  C14. No operation on an image that \<^verbatim>\<open>ELF64LE::create\<close> accepted, whatever its contents, reads
  outside the image; \<^verbatim>\<open>find_symbol\<close> returns on every image below 96 GiB; and an object of
  the requested size lies inside the image at the address \<^verbatim>\<open>lookup\<close> returns.
\<close>

theorem accepted_image_is_safe:
  assumes "elf_create addr buf = Inr img"
  shows "img = buf \<and> phdrs img \<noteq> Inl UB \<and> elf_sections img \<noteq> Inl UB \<and>
     segment_data img ph \<noteq> Inl UB \<and> load_extent img \<noteq> Inl UB \<and>
     section_name img sh \<noteq> Inl UB \<and> section_data img sh \<noteq> Inl UB \<and>
     symbol_address img s \<noteq> Inl UB \<and> symbols img \<noteq> Inl UB \<and>
     find_symbol img name \<noteq> Inl UB \<and> elf_lookup sz img name \<noteq> Inl UB \<and>
     (length img < 24 * 2 ^ 32 \<longrightarrow> find_symbol img name \<noteq> Inl HANGS) \<and>
     (\<forall>off. elf_lookup sz img name = Inr off \<longrightarrow> off + sz \<le> length img)"
proof -
  have img: "img = buf" and ok: "image_ok buf" using elf_createD [OF assms] by auto
  obtain shs where shs: "elf_sections buf = Inr shs" using sections_ok [OF ok] by blast
  obtain phs where phs: "phdrs buf = Inr phs" using phdrs_ok [OF ok] by blast
  have find: "find_symbol buf name \<noteq> Inl UB" "length buf < 24 * 2 ^ 32 \<longrightarrow> find_symbol buf name \<noteq> Inl HANGS"
    using find_in_sections_safe [OF shs, of name shs] by (simp_all add: find_symbol_def shs)
  have "load_extent buf \<noteq> Inl UB"
    by (auto simp: load_extent_def phs kfd_try_eq_Inl fail_if_eq_Inl extent_loop_no_ub)
  moreover have "elf_lookup sz buf name \<noteq> Inl UB"
    using find symbol_address_no_ub [OF shs]
    by (auto simp: elf_lookup_def kfd_try_eq_Inl fail_if_eq_Inl split: option.splits)
  moreover have "off + sz \<le> length buf" if "elf_lookup sz buf name = Inr off" for off
    using that by (auto simp: elf_lookup_def symbol_address_def res_simps Let_def split: option.splits)
  ultimately show ?thesis
    unfolding img
    using phs shs find symbol_address_no_ub [OF shs] symbols_from_no_ub
    by (simp add: img segment_data_no_ub section_data_no_ub section_name_no_ub [OF ok] symbols_def)
qed

theorem accepted_image_is_safe_witness:
  "396 + 4 \<le> length demo_image \<and> section_name demo_image (demo_sections ! 0) \<noteq> Inl UB"
  using accepted_image_is_safe [OF demo_accepted, where name = "[0x6b]" and sz = 4] demo_address by blast



text \<open>
  C16. On a hash table that keeps the documented contract, the hashed search succeeds exactly when a
  linear search of the hashed symbols would: bloom filter, buckets and chains neither hide a symbol
  nor invent one.
\<close>

theorem gnu_hash_equals_linear_search:
  assumes "ht + unat ht_size \<le> length buf" and "16 \<le> unat ht_size" and "strtab + unat sz \<le> length buf"
    and "length syms < 2 ^ 32" and "gnu_indexed buf ht ht_size syms strtab sz"
  shows "(\<exists>s. lookup_gnu_hash buf name ht ht_size syms strtab sz = Inr (Some s)) \<longleftrightarrow>
     (\<exists>s\<in>set (drop (unat (field buf (ht + 4) 4 :: u32)) syms). sym_name buf s strtab sz = Inr name)"
    (is "?found \<longleftrightarrow> ?listed")
proof -
  define nb :: u32 where "nb = field buf ht 4"
  define mw :: u32 where "mw = field buf (ht + 8) 4"
  define symndx :: u32 where "symndx = field buf (ht + 4) 4"
  define shift2 :: u32 where "shift2 = field buf (ht + 12) 4"
  note defs = nb_def mw_def symndx_def shift2_def
  define vals where "vals = ht + 16 + 8 * unat mw + 4 * unat nb"
  define nv where "nv = n_values ht_size nb mw"
  define first :: "u32 \<Rightarrow> u32" where "first h = field buf (ht + 16 + 8 * unat mw + 4 * unat (h mod nb)) 4" for h
  have fits: "table_fits ht_size nb mw shift2" using assms(5) by (simp add: gnu_indexed_def Let_def defs)
  have lookup: "lookup_gnu_hash buf name ht ht_size syms strtab sz =
      (if \<not> bloom_hit buf ht mw shift2 (hash_gnu name) then Inr None
       else hash_chain (Suc (length syms)) buf name (hash_gnu name) symndx vals nv syms strtab sz
              (first (hash_gnu name)))"
    using fits unfolding lookup_gnu_hash_eq [OF assms(1,2)] gnu_search_eq [OF assms(1)]
    by (simp add: defs vals_def nv_def first_def)
  show ?thesis
  proof
    assume ?found
    then obtain s where "hash_chain (Suc (length syms)) buf name (hash_gnu name) symndx vals nv syms strtab sz
        (first (hash_gnu name)) = Inr (Some s)"
      unfolding lookup by (auto simp del: hash_chain.simps split: if_splits)
    from hash_chain_sound [OF this] show ?listed unfolding Bex_def set_drop_conv defs by blast
  next
    assume ?listed
    then obtain t where t: "unat symndx \<le> t" "t < length syms" "sym_name buf (syms ! t) strtab sz = Inr name"
      by (auto simp: defs set_drop_conv)
    note ix0 = bspec [OF conjunct2 [OF assms(5) [unfolded gnu_indexed_def Let_def]], of t]
    have ix: "bloom_hit buf ht mw shift2 (hash_gnu name)" "symndx \<le> first (hash_gnu name)"
      "unat (first (hash_gnu name)) \<le> t" "t - unat symndx < nv"
      "chain_value buf vals symndx t OR 1 = hash_gnu name OR 1"
      "\<forall>j. unat (first (hash_gnu name)) \<le> j \<and> j < t \<longrightarrow> chain_value buf vals symndx j AND 1 = 0"
      using ix0 t by (simp_all add: defs vals_def nv_def first_def)
    have "vals + 4 * nv \<le> length buf"
      using table_fits_values [OF fits assms(1)] by (simp add: vals_def nv_def)
    then show ?found
      unfolding lookup using t ix assms(3,4)
      by (simp add: hash_chain_finds [where t = t] del: hash_chain.simps)
  qed
qed

theorem gnu_hash_equals_linear_search_witness:
  "\<exists>s. lookup_gnu_hash demo_image [0x6b] 312 32 demo_syms 392 8 = Inr (Some s)"
proof -
  have n: "sym_name demo_image demo_sym 392 8 = Inr [0x6b]" "unat (field demo_image 316 4 :: u32) = 1"
    by code_simp+
  have ix: "gnu_indexed demo_image 312 32 demo_syms 392 8" by code_simp
  show ?thesis
    by (subst gnu_hash_equals_linear_search [OF _ _ _ _ ix]) (simp_all add: n, simp_all add: n demo_syms_def)
qed

text \<open>
  C17. The extent of an image is exactly the smallest range that holds all its loadable segments:
  every segment lies inside it without wrapping, both ends are reached, and the alignment is the
  largest asked for.
\<close>

theorem load_extent_covers:
  assumes "load_extent img = Inr (lo, hi, max_align)" and "phdrs img = Inr phs"
  shows "loads phs \<noteq> [] \<and> unat lo < unat hi \<and>
     unat lo = Min ((\<lambda>ph. unat (p_vaddr ph)) ` set (loads phs)) \<and>
     unat hi = Max ((\<lambda>ph. unat (p_vaddr ph) + unat (p_memsz ph)) ` set (loads phs)) \<and>
     unat max_align = Max (insert 1 ((\<lambda>ph. unat (p_align ph)) ` set (loads phs)))"
proof -
  have l: "extent_loop phs (- 1) 0 1 = Inr (lo, hi, max_align)" and lt: "unat lo < unat hi"
    using assms by (auto simp: load_extent_def res_simps word_le_nat_alt)
  note e = extent_loop_value [OF l]
  have ne: "loads phs \<noteq> []" using e lt by auto
  let ?V = "(\<lambda>ph. unat (p_vaddr ph)) ` set (loads phs)"
  have "Min ?V \<le> unat (- 1 :: u64)"
    using ne unat64_less [of "p_vaddr (hd (loads phs))"]
    by (intro Min.coboundedI [THEN le_trans, of _ "unat (p_vaddr (hd (loads phs)))"])
       (simp_all add: unat_max64)
  then have "Min (insert (unat (- 1 :: u64)) ?V) = Min ?V" using ne by (simp add: min_absorb2)
  moreover have "Max (insert (unat (0 :: u64)) S) = Max S" if "finite S" "S \<noteq> {}" for S
    using that by simp
  ultimately show ?thesis using e lt ne by simp
qed

theorem load_extent_covers_witness:
  "unat (0 :: u64) = Min ((\<lambda>ph. unat (p_vaddr ph)) ` set (loads [demo_phdr])) \<and> loads [demo_phdr] \<noteq> []"
  using load_extent_covers [OF demo_extent demo_phdrs] by simp

text \<open>
  A loop over the symbol range of an accepted image reaches the end of the range, each step
  inside the image, after as many steps as the range has names.
\<close>

theorem symbol_iteration_ends:
  assumes "elf_create addr buf = Inr img" and "length img < 2 ^ 64" and "symbols img = Inr (b, e)"
  shows "\<exists>names. range_names (length img) img b e = Inr names \<and> sizeof_Sym * length names \<le> length img"
proof -
  obtain shs where shs: "elf_sections img = Inr shs"
    using sections_ok elf_createD [OF assms(1)] by metis
  then have "symbols_from img shs shs = Inr (b, e)" using assms(3) by (simp add: symbols_def)
  from symbols_from_range [OF this assms(2)] obtain n
    where n: "range_ok img b e n" "sizeof_Sym * n \<le> length img" by blast
  then have "n \<le> length img" by (simp add: sizeof_Sym_def)
  with range_names_ok [OF n(1)] n(2) show ?thesis by metis
qed

theorem symbol_iteration_ends_witness:
  "\<exists>b e names. symbols demo_image = Inr (b, e) \<and> it_cur b = 368 \<and> it_cur e = 392 \<and>
     range_names 400 demo_image b e = Inr names"
proof -
  have "symbols demo_image = Inr (\<lparr>it_cur = 368, it_strtab = 392, it_strtab_size = 8\<rparr>,
      \<lparr>it_cur = 392, it_strtab = 392, it_strtab_size = 8\<rparr>)" (is "_ = Inr (?b, ?e)")
    by code_simp
  with symbol_iteration_ends [OF demo_accepted _ this] show ?thesis by auto
qed

end
