(* ===== verification/System.thy ===== *)
theory System
  imports Kfd_Prelude
begin

text \<open>
  The environment of the stateful components: the operating system and the KFD driver. They are
  not part of the sources, so the model takes them as a parameter, a function from the calls made
  so far (with their replies) and the next call to its reply. A stateful operation is a function
  from the history to a result and the longer history; what it did to the system is read off the
  history. \<^verbatim>\<open>errno\<close> values are the \<open>error\<close> of a failed call.
\<close>

section \<open>Calls\<close>

record queue_args =
  qa_ring :: u64
  qa_write :: u64
  qa_read :: u64
  qa_ring_size :: u32
  qa_gpu :: u32
  qa_type :: u32
  qa_percentage :: u32
  qa_priority :: u32
  qa_eop :: u64
  qa_eop_size :: u64
  qa_cwsr :: u64
  qa_cwsr_size :: u32
  qa_ctl_stack :: u32

datatype sys_call =
    Malloc u64
  | Mmap u64 u64 u32 u32 int u64        \<comment> \<open>address, length, protection, flags, descriptor, offset\<close>
  | Munmap u64 u64
  | Mremap u64 u64 u64
  | Open string
  | Close int
  | GetVersion
  | AllocMemory u64 u64 u64 u32 u32     \<comment> \<open>address, size, offset, GPU, flags\<close>
  | FreeMemory u64
  | MapMemory u64 "u32 list"
  | UnmapMemory u64 "u32 list"
  | ExportDmabuf u64 u32
  | CreateEvent u64 u32 u32             \<comment> \<open>event page, type, auto reset\<close>
  | DestroyEvent u32
  | SetEvent u32
  | ResetEvent u32
  | WaitEvents "u32 list" bool u32      \<comment> \<open>events, wait for all, timeout in milliseconds\<close>
  | Clock
  | LoadFence u64
  | StoreFence u64 u64
  | CreateQueue queue_args
  | DestroyQueue u32
  | SvmSetAttr u64 u64 "(u32 \<times> u32) list"
  | SetScratchVa u64 u32
  | SetTrapHandler u64 u64 u32
  | GetApertures u32
  | SetMemoryPolicy u64 u64 u32 u32 u32
  | AcquireVm u32 u32
  | DrmVersion int
  | DrmInit int                         \<comment> \<open>\<^verbatim>\<open>amdgpu_device_initialize\<close>: handle and its descriptor\<close>
  | DrmDeinit u64
  | SetXnackMode int
  | RuntimeEnable u32 u32
  | Sleep u64
  | Raise u32
  | Clone u64
  | Load32 u64
  | FutexWait u64 u32

text \<open>What a call that succeeded wrote to its output arguments, or the error of one that failed.\<close>

datatype reply = Done "u64 list" | Failed error

type_synonym history = "(sys_call \<times> reply) list"
type_synonym kernel = "history \<Rightarrow> sys_call \<Rightarrow> reply"
type_synonym 'a op = "history \<Rightarrow> 'a res \<times> history"

text \<open>The template \<^verbatim>\<open>ioctl::call\<close>: the raw replies of a request up to the first that is final.\<close>

fun ioctl_call :: "reply list \<Rightarrow> u64 list res" where
  "ioctl_call [] = Inl HANGS"
| "ioctl_call (Failed e # rs) = (if e = EINTR \<or> e = EAGAIN then ioctl_call rs else Inl e)"
| "ioctl_call (Done xs # rs) = Inr xs"

lemma ioctl_call_never_interrupted: "ioctl_call rs \<noteq> Inl EINTR \<and> ioctl_call rs \<noteq> Inl EAGAIN"
  by (induction rs rule: ioctl_call.induct) auto

lemma ioctl_call_first_final:
  "list_all (\<lambda>r. r = Failed EINTR \<or> r = Failed EAGAIN) rs \<Longrightarrow> ioctl_call (rs @ qs) = ioctl_call qs"
  by (induction rs) auto

section \<open>Operations\<close>

named_theorems op_simps \<open>evaluation of stateful operations\<close>

definition op_ret :: "'a \<Rightarrow> 'a op" where "op_ret x h = (Inr x, h)"

definition op_fail :: "error \<Rightarrow> 'a op" where "op_fail e h = (Inl e, h)"

definition op_res :: "'a res \<Rightarrow> 'a op" where "op_res r h = (r, h)"

definition op_try :: "'a op \<Rightarrow> ('a \<Rightarrow> 'b op) \<Rightarrow> 'b op" where
  "op_try m k h = (case m h of (Inl e, h') \<Rightarrow> (Inl e, h') | (Inr a, h') \<Rightarrow> k a h')"

text \<open>A check whose failure runs clean-up code first, and an assertion that aborts the process.\<close>

definition op_else :: "'a op \<Rightarrow> (error \<Rightarrow> 'b op) \<Rightarrow> ('a \<Rightarrow> 'b op) \<Rightarrow> 'b op" where
  "op_else m f k h = (case m h of (Inl e, h') \<Rightarrow> f e h' | (Inr a, h') \<Rightarrow> k a h')"

definition op_assert :: "'a op \<Rightarrow> 'b op \<Rightarrow> 'b op" where
  "op_assert m k h = (case m h of (Inl e, h') \<Rightarrow> (Inl ABORT, h') | (Inr a, h') \<Rightarrow> k h')"

definition op_when :: "bool \<Rightarrow> error \<Rightarrow> 'a op \<Rightarrow> 'a op" where
  "op_when c e m = (if c then op_fail e else m)"

definition sys :: "kernel \<Rightarrow> sys_call \<Rightarrow> u64 list op" where
  "sys K c h = (case K h c of Done xs \<Rightarrow> (Inr xs, h @ [(c, Done xs)]) | Failed e \<Rightarrow> (Inl e, h @ [(c, Failed e)]))"

text \<open>Outcomes that end the process or are undefined; no error path of the code sees them.\<close>

definition fatal :: "error \<Rightarrow> bool" where
  "fatal e \<longleftrightarrow> e = ABORT \<or> e = UB \<or> e = HANGS"

definition op_catch :: "'a op \<Rightarrow> (error \<Rightarrow> 'b op) \<Rightarrow> ('a \<Rightarrow> 'b op) \<Rightarrow> 'b op" where
  "op_catch m f k = op_else m (\<lambda>e. if fatal e then op_fail e else f e) k"

text \<open>\<^verbatim>\<open>raise\<close>, whose result the code ignores.\<close>

definition SIGABRT :: u32 where "SIGABRT = 6"
definition SIGSEGV :: u32 where "SIGSEGV = 11"

definition raise_signal :: "kernel \<Rightarrow> u32 \<Rightarrow> unit op" where
  "raise_signal K n = op_else (sys K (Raise n)) (\<lambda>_. op_ret ()) (\<lambda>_. op_ret ())"

text \<open>The output word of a call that has one.\<close>

definition out_word :: "u64 list \<Rightarrow> nat \<Rightarrow> u64" where
  "out_word xs i = (if i < length xs then xs ! i else 0)"

lemma op_simps_basic [op_simps]:
  "op_ret x h = (Inr x, h)" "op_fail e h = (Inl e, h)" "op_res r h = (r, h)"
  by (simp_all add: op_ret_def op_fail_def op_res_def)

lemma op_try_eq:
  "op_try m k h = (r, h') \<longleftrightarrow>
     (\<exists>e. m h = (Inl e, h') \<and> r = Inl e) \<or> (\<exists>a h1. m h = (Inr a, h1) \<and> k a h1 = (r, h'))"
  by (cases "m h"; cases "fst (m h)") (auto simp: op_try_def)

lemma op_else_eq:
  "op_else m f k h = (r, h') \<longleftrightarrow>
     (\<exists>e h1. m h = (Inl e, h1) \<and> f e h1 = (r, h')) \<or> (\<exists>a h1. m h = (Inr a, h1) \<and> k a h1 = (r, h'))"
  by (cases "m h"; cases "fst (m h)") (auto simp: op_else_def)

lemma op_assert_eq:
  "op_assert m k h = (r, h') \<longleftrightarrow>
     (\<exists>e. m h = (Inl e, h') \<and> r = Inl ABORT) \<or> (\<exists>a h1. m h = (Inr a, h1) \<and> k h1 = (r, h'))"
  by (cases "m h"; cases "fst (m h)") (auto simp: op_assert_def)

lemma op_when_eq: "op_when c e m h = (r, h') \<longleftrightarrow> (if c then r = Inl e \<and> h' = h else m h = (r, h'))"
  by (auto simp: op_when_def op_fail_def)

lemma op_ret_eq: "op_ret x h = (r, h') \<longleftrightarrow> r = Inr x \<and> h' = h"
  by (auto simp: op_ret_def)

lemma op_fail_eq: "op_fail e h = (r, h') \<longleftrightarrow> r = Inl e \<and> h' = h"
  by (auto simp: op_fail_def)

lemma sys_eq:
  "sys K c h = (r, h') \<longleftrightarrow>
     (\<exists>xs. K h c = Done xs \<and> r = Inr xs \<and> h' = h @ [(c, Done xs)]) \<or>
     (\<exists>e. K h c = Failed e \<and> r = Inl e \<and> h' = h @ [(c, Failed e)])"
  by (auto simp: sys_def split: reply.splits)

lemma op_catch_eq:
  "op_catch m f k h = (r, h') \<longleftrightarrow>
     (\<exists>e h1. m h = (Inl e, h1) \<and> (if fatal e then op_fail e else f e) h1 = (r, h')) \<or>
     (\<exists>a h1. m h = (Inr a, h1) \<and> k a h1 = (r, h'))"
  by (simp add: op_catch_def op_else_eq)

lemma op_res_eq: "op_res x h = (r, h') \<longleftrightarrow> r = x \<and> h' = h"
  by (auto simp: op_res_def)

lemmas op_eqs = op_try_eq op_else_eq op_assert_eq op_when_eq op_ret_eq op_fail_eq sys_eq

section \<open>What a history did to the system\<close>

text \<open>The bytes of the address space that are mapped.\<close>

definition vm_step :: "nat set \<Rightarrow> sys_call \<times> reply \<Rightarrow> nat set" where
  "vm_step S cr = (case cr of
       (Mmap a l p f d off, Done xs) \<Rightarrow> S \<union> {unat (out_word xs 0)..<unat (out_word xs 0) + unat l}
     | (Munmap a l, Done xs) \<Rightarrow> S - {unat a..<unat a + unat l}
     | (Mremap a l n, Done xs) \<Rightarrow> S \<union> {unat a..<unat a + unat n}
     | _ \<Rightarrow> S)"

definition vm :: "history \<Rightarrow> nat set" where "vm h = foldl vm_step {} h"

text \<open>The GPU memory objects that are allocated, and the devices each is mapped on.\<close>

definition gpu_step :: "u64 set \<Rightarrow> sys_call \<times> reply \<Rightarrow> u64 set" where
  "gpu_step S cr = (case cr of
       (AllocMemory a l off g f, Done xs) \<Rightarrow> insert (out_word xs 0) S
     | (FreeMemory gh, Done xs) \<Rightarrow> S - {gh}
     | _ \<Rightarrow> S)"

definition gpu_objects :: "history \<Rightarrow> u64 set" where "gpu_objects h = foldl gpu_step {} h"

definition map_step :: "u64 \<Rightarrow> u32 set \<Rightarrow> sys_call \<times> reply \<Rightarrow> u32 set" where
  "map_step gh S cr = (case cr of
       (MapMemory gh' ids, Done xs) \<Rightarrow> if gh' = gh then S \<union> set ids else S
     | (UnmapMemory gh' ids, Done xs) \<Rightarrow> if gh' = gh then S - set ids else S
     | (FreeMemory gh', Done xs) \<Rightarrow> if gh' = gh then {} else S
     | _ \<Rightarrow> S)"

definition gpu_maps :: "u64 \<Rightarrow> history \<Rightarrow> u32 set" where "gpu_maps gh h = foldl (map_step gh) {} h"

lemma vm_snoc [op_simps]: "vm (h @ [cr]) = vm_step (vm h) cr"
  by (simp add: vm_def)

lemma gpu_objects_snoc [op_simps]: "gpu_objects (h @ [cr]) = gpu_step (gpu_objects h) cr"
  by (simp add: gpu_objects_def)

lemma gpu_maps_snoc [op_simps]: "gpu_maps gh (h @ [cr]) = map_step gh (gpu_maps gh h) cr"
  by (simp add: gpu_maps_def)

lemma failed_steps [op_simps]:
  "vm_step S (c, Failed e) = S" "gpu_step G (c, Failed e) = G" "map_step gh M (c, Failed e) = M"
  by (simp_all add: vm_step_def gpu_step_def map_step_def split: sys_call.splits)

lemma vm_steps [op_simps]:
  "vm_step S (Malloc n, r) = S" "vm_step S (AllocMemory a l off g f, r) = S" "vm_step S (FreeMemory gh, r) = S"
  "vm_step S (MapMemory gh ids, r) = S" "vm_step S (UnmapMemory gh ids, r) = S"
  "vm_step S (Munmap a l, Done xs) = S - {unat a..<unat a + unat l}"
  "vm_step S (Mmap a l p fl d off, Done xs) = S \<union> {unat (out_word xs 0)..<unat (out_word xs 0) + unat l}"
  "vm_step S (Mremap a l n, Done xs) = S \<union> {unat a..<unat a + unat n}"
  "vm_step S (CreateEvent pg t ar, r) = S" "vm_step S (DestroyEvent i, r) = S" "vm_step S (ExportDmabuf gh ef, r) = S"
  by (cases r; simp add: vm_step_def)+

lemma gpu_steps [op_simps]:
  "gpu_step G (Malloc n, r) = G" "gpu_step G (Mmap a l p fl d off, r) = G" "gpu_step G (Munmap a l, r) = G"
  "gpu_step G (Mremap a l n, r) = G"
  "gpu_step G (MapMemory gh ids, r) = G" "gpu_step G (UnmapMemory gh ids, r) = G"
  "gpu_step G (AllocMemory a l off g f, Done xs) = insert (out_word xs 0) G"
  "gpu_step G (FreeMemory gh, Done xs) = G - {gh}"
  "gpu_step G (CreateEvent pg t ar, r) = G" "gpu_step G (DestroyEvent i, r) = G" "gpu_step G (ExportDmabuf gh ef, r) = G"
  by (cases r; simp add: gpu_step_def)+

lemma map_steps [op_simps]:
  "map_step gh M (Malloc n, r) = M" "map_step gh M (Mmap a l p fl d off, r) = M" "map_step gh M (Munmap a l, r) = M"
  "map_step gh M (Mremap a l n, r) = M" "map_step gh M (AllocMemory a l off g f, r) = M"
  "map_step gh M (MapMemory gh' ids, Done xs) = (if gh' = gh then M \<union> set ids else M)"
  "map_step gh M (UnmapMemory gh' ids, Done xs) = (if gh' = gh then M - set ids else M)"
  "map_step gh M (FreeMemory gh', Done xs) = (if gh' = gh then {} else M)"
  "map_step gh M (ExportDmabuf gh' ef, r) = M"
  by (cases r; simp add: map_step_def)+

lemma vm_step_other [op_simps]:
  "vm_step S (Open pth, r) = S" "vm_step S (Close d, r) = S" "vm_step S (GetVersion, r) = S"
  "vm_step S (SetEvent i, r) = S" "vm_step S (ResetEvent i, r) = S" "vm_step S (WaitEvents ids w t, r) = S"
  "vm_step S (Clock, r) = S" "vm_step S (LoadFence a, r) = S" "vm_step S (StoreFence a fv, r) = S"
  "vm_step S (CreateQueue qa, r) = S" "vm_step S (DestroyQueue i, r) = S"
  "vm_step S (SvmSetAttr a l ats, r) = S" "vm_step S (SetScratchVa a g, r) = S"
  "vm_step S (SetTrapHandler a b g, r) = S" "vm_step S (GetApertures na, r) = S"
  "vm_step S (SetMemoryPolicy a l g p q, r) = S" "vm_step S (AcquireVm dg g, r) = S"
  "vm_step S (DrmVersion d, r) = S" "vm_step S (DrmInit d, r) = S" "vm_step S (DrmDeinit dh, r) = S"
  "vm_step S (SetXnackMode d, r) = S" "vm_step S (RuntimeEnable rm rn, r) = S" "vm_step S (Sleep ns, r) = S"
  "vm_step S (Raise sn, r) = S" "vm_step S (Clone a, r) = S" "vm_step S (Load32 a, r) = S"
  "vm_step S (FutexWait a fx, r) = S"
  by (cases r; simp add: vm_step_def)+

lemma gpu_step_other [op_simps]:
  "gpu_step G (Open pth, r) = G" "gpu_step G (Close d, r) = G" "gpu_step G (GetVersion, r) = G"
  "gpu_step G (SetEvent i, r) = G" "gpu_step G (ResetEvent i, r) = G"
  "gpu_step G (WaitEvents ids w t, r) = G" "gpu_step G (Clock, r) = G" "gpu_step G (LoadFence a, r) = G"
  "gpu_step G (StoreFence a fv, r) = G" "gpu_step G (CreateQueue qa, r) = G"
  "gpu_step G (DestroyQueue i, r) = G" "gpu_step G (SvmSetAttr a l ats, r) = G"
  "gpu_step G (SetScratchVa a g, r) = G" "gpu_step G (SetTrapHandler a b g, r) = G"
  "gpu_step G (GetApertures na, r) = G" "gpu_step G (SetMemoryPolicy a l g p q, r) = G"
  "gpu_step G (AcquireVm dg g, r) = G" "gpu_step G (DrmVersion d, r) = G" "gpu_step G (DrmInit d, r) = G"
  "gpu_step G (DrmDeinit dh, r) = G" "gpu_step G (SetXnackMode d, r) = G"
  "gpu_step G (RuntimeEnable rm rn, r) = G" "gpu_step G (Sleep ns, r) = G" "gpu_step G (Raise sn, r) = G"
  "gpu_step G (Clone a, r) = G" "gpu_step G (Load32 a, r) = G" "gpu_step G (FutexWait a fx, r) = G"
  by (cases r; simp add: gpu_step_def)+

lemma map_step_other [op_simps]:
  "map_step gh M (Open pth, r) = M" "map_step gh M (Close d, r) = M" "map_step gh M (GetVersion, r) = M"
  "map_step gh M (SetEvent i, r) = M" "map_step gh M (ResetEvent i, r) = M"
  "map_step gh M (WaitEvents ids w t, r) = M" "map_step gh M (Clock, r) = M"
  "map_step gh M (LoadFence a, r) = M" "map_step gh M (StoreFence a fv, r) = M"
  "map_step gh M (CreateQueue qa, r) = M" "map_step gh M (DestroyQueue i, r) = M"
  "map_step gh M (SvmSetAttr a l ats, r) = M" "map_step gh M (SetScratchVa a g, r) = M"
  "map_step gh M (SetTrapHandler a b g, r) = M" "map_step gh M (GetApertures na, r) = M"
  "map_step gh M (SetMemoryPolicy a l g p q, r) = M" "map_step gh M (AcquireVm dg g, r) = M"
  "map_step gh M (DrmVersion d, r) = M" "map_step gh M (DrmInit d, r) = M"
  "map_step gh M (DrmDeinit dh, r) = M" "map_step gh M (SetXnackMode d, r) = M"
  "map_step gh M (RuntimeEnable rm rn, r) = M" "map_step gh M (Sleep ns, r) = M"
  "map_step gh M (Raise sn, r) = M" "map_step gh M (Clone a, r) = M" "map_step gh M (Load32 a, r) = M"
  "map_step gh M (FutexWait a fx, r) = M"
  "map_step gh M (CreateEvent pg t ar, r) = M" "map_step gh M (DestroyEvent i, r) = M"
  by (cases r; simp add: map_step_def)+

section \<open>Shapes of operations\<close>

text \<open>An operation only adds to the history; and one that never fails with a given error.\<close>

named_theorems op_shapes \<open>operations extend the history, operations without a given error\<close>

definition extends :: "'a op \<Rightarrow> bool" where "extends m \<longleftrightarrow> (\<forall>h. \<exists>t. snd (m h) = h @ t)"

definition avoids :: "error \<Rightarrow> 'a op \<Rightarrow> bool" where "avoids e m \<longleftrightarrow> (\<forall>h. fst (m h) \<noteq> Inl e)"

lemma extends_basic [op_shapes]: "extends (op_ret x)" "extends (op_fail e)" "extends (op_res r)" "extends (sys K c)"
  by (auto simp: extends_def op_ret_def op_fail_def op_res_def sys_def split: reply.splits)

lemma extends_try [op_shapes]:
  assumes "extends m" and "\<And>a. extends (k a)"
  shows "extends (op_try m k)"
  unfolding extends_def
proof
  fix h
  obtain r h1 where m: "m h = (r, h1)" by (cases "m h")
  obtain t where t: "h1 = h @ t" using assms(1) m unfolding extends_def by (metis snd_conv)
  show "\<exists>t. snd (op_try m k h) = h @ t"
    using assms(2) m t unfolding extends_def op_try_def by (cases r) (auto, metis append.assoc)
qed

lemma extends_else [op_shapes]:
  assumes "extends m" and "\<And>e. extends (f e)" and "\<And>a. extends (k a)"
  shows "extends (op_else m f k)"
  unfolding extends_def
proof
  fix h
  obtain r h1 where m: "m h = (r, h1)" by (cases "m h")
  obtain t where t: "h1 = h @ t" using assms(1) m unfolding extends_def by (metis snd_conv)
  show "\<exists>t. snd (op_else m f k h) = h @ t"
    using assms(2,3) m t unfolding extends_def op_else_def by (cases r) (auto, metis append.assoc, metis append.assoc)
qed

lemma extends_assert [op_shapes]: "extends m \<Longrightarrow> extends k \<Longrightarrow> extends (op_assert m k)"
proof -
  assume a: "extends m" "extends k"
  have "op_assert m k = op_else m (\<lambda>e. op_fail ABORT) (\<lambda>_. k)"
    by (auto simp: op_assert_def op_else_def op_fail_def fun_eq_iff split: prod.splits sum.splits)
  with a show ?thesis by (auto intro: op_shapes)
qed

lemma extends_when [op_shapes]: "extends m \<Longrightarrow> extends (op_when c e m)"
  by (simp add: op_when_def op_shapes)

lemma extends_length: "extends m \<Longrightarrow> m h = (r, h') \<Longrightarrow> length h \<le> length h'"
  unfolding extends_def by (metis length_append le_add1 snd_conv)

lemma avoids_basic [op_shapes]: "avoids e (op_ret x)" "e' \<noteq> e \<Longrightarrow> avoids e (op_fail e')"
  by (auto simp: avoids_def op_ret_def op_fail_def)

lemma avoids_try [op_shapes]: "avoids e m \<Longrightarrow> (\<And>a. avoids e (k a)) \<Longrightarrow> avoids e (op_try m k)"
  unfolding avoids_def op_try_def by (auto split: prod.splits sum.splits) (metis fst_conv)

lemma avoids_else [op_shapes]:
  "(\<And>e'. avoids e (f e')) \<Longrightarrow> (\<And>a. avoids e (k a)) \<Longrightarrow> avoids e (op_else m f k)"
  unfolding avoids_def op_else_def by (auto split: prod.splits sum.splits)

lemma avoids_when [op_shapes]: "e' \<noteq> e \<Longrightarrow> avoids e m \<Longrightarrow> avoids e (op_when c e' m)"
  by (simp add: op_when_def op_shapes)

text \<open>The kernel reports none of the errors that only the model has.\<close>

definition honest :: "kernel \<Rightarrow> bool" where
  "honest K \<longleftrightarrow> (\<forall>h c e. K h c = Failed e \<longrightarrow> e \<noteq> HANGS \<and> e \<noteq> UB \<and> e \<noteq> ABORT)"

lemma avoids_sys [op_shapes]: "honest K \<Longrightarrow> avoids HANGS (sys K c)"
  unfolding avoids_def sys_def honest_def by (auto split: reply.splits)

end
