(* ===== verification/Mapped_Region.thy ===== *)
theory Mapped_Region
  imports System
begin

text \<open>
  \<^verbatim>\<open>detail/mapped_region.h\<close> and \<^verbatim>\<open>lib/detail/mapped_region.cpp\<close>: the owner of a mapped
  range. A moved-from region is the null region, and so is the consumed side of the operations
  that return a second region.
\<close>

section \<open>Operations\<close>

record region =
  rg_addr :: u64
  rg_len :: u64

definition null_region :: region where "null_region = \<lparr>rg_addr = 0, rg_len = 0\<rparr>"

definition PROT_NONE :: u32 where "PROT_NONE = 0"
definition PROT_RW :: u32 where "PROT_RW = 3"
definition MAP_SHARED :: u32 where "MAP_SHARED = 0x1"
definition MAP_PRIVATE :: u32 where "MAP_PRIVATE = 0x2"
definition MAP_FIXED :: u32 where "MAP_FIXED = 0x10"
definition MAP_ANONYMOUS :: u32 where "MAP_ANONYMOUS = 0x20"
definition MAP_NORESERVE :: u32 where "MAP_NORESERVE = 0x4000"

definition region_create :: "kernel \<Rightarrow> u64 \<Rightarrow> u32 \<Rightarrow> u32 \<Rightarrow> region op" where
  "region_create K len prot flags =
     op_try (sys K (Mmap 0 len prot flags (- 1) 0)) (\<lambda>xs. op_ret \<lparr>rg_addr = out_word xs 0, rg_len = len\<rparr>)"

definition region_reserve :: "kernel \<Rightarrow> u64 \<Rightarrow> u64 \<Rightarrow> region op" where
  "region_reserve K len addr =
     (let flags = MAP_PRIVATE OR MAP_ANONYMOUS OR MAP_NORESERVE;
          flags' = (if addr \<noteq> 0 then flags OR MAP_FIXED else flags)
      in op_try (sys K (Mmap addr len PROT_NONE flags' (- 1) 0))
           (\<lambda>xs. op_ret \<lparr>rg_addr = out_word xs 0, rg_len = len\<rparr>))"

definition munmap_asserted :: "kernel \<Rightarrow> u64 \<Rightarrow> u64 \<Rightarrow> 'a op \<Rightarrow> 'a op" where
  "munmap_asserted K addr len k = (if len \<noteq> 0 then op_assert (sys K (Munmap addr len)) k else k)"

definition region_reserve_aligned :: "kernel \<Rightarrow> u64 \<Rightarrow> u64 \<Rightarrow> region op" where
  "region_reserve_aligned K len alignment =
     op_when (alignment = 0 \<or> len > - 1 - (alignment - 1)) EINVAL (
     op_try (region_reserve K (len + alignment - 1) 0) (\<lambda>region.
       let raw = rg_addr region;
           aligned = (raw + alignment - 1) AND NOT (alignment - 1);
           prefix = aligned - raw;
           suffix = rg_len region - prefix - len
       in munmap_asserted K raw prefix (
          munmap_asserted K (aligned + len) suffix (
          op_ret \<lparr>rg_addr = aligned, rg_len = len\<rparr>))))"

text \<open>\<^verbatim>\<open>rebind\<close>: the new region and what is left of the old one; on an error the old one stays.\<close>

definition region_rebind :: "kernel \<Rightarrow> region \<Rightarrow> int \<Rightarrow> u32 \<Rightarrow> u64 \<Rightarrow> (region \<times> region) op" where
  "region_rebind K r fd prot off =
     op_try (sys K (Mmap (rg_addr r) (rg_len r) prot (MAP_SHARED OR MAP_FIXED) fd off))
       (\<lambda>xs. op_ret (\<lparr>rg_addr = out_word xs 0, rg_len = rg_len r\<rparr>, null_region))"

definition region_destroy :: "kernel \<Rightarrow> region \<Rightarrow> unit op" where
  "region_destroy K r =
     (if rg_addr r \<noteq> 0 then op_assert (sys K (Munmap (rg_addr r) (rg_len r))) (op_ret ()) else op_ret ())"

definition region_assign :: "kernel \<Rightarrow> region \<Rightarrow> region \<Rightarrow> (region \<times> region) op" where
  "region_assign K dest source = op_try (region_destroy K dest) (\<lambda>_. op_ret (source, null_region))"

definition region_try_grow :: "kernel \<Rightarrow> region \<Rightarrow> u64 \<Rightarrow> (bool \<times> region) op" where
  "region_try_grow K r new_size =
     (if new_size \<le> rg_len r then op_ret (True, r)
      else op_else (sys K (Mremap (rg_addr r) (rg_len r) new_size))
             (\<lambda>_. op_ret (False, r)) (\<lambda>_. op_ret (True, r\<lparr>rg_len := new_size\<rparr>)))"

definition region_release :: "region \<Rightarrow> u64 \<times> region" where
  "region_release r = (rg_addr r, null_region)"

section \<open>What mmap promises\<close>

text \<open>
  A successful \<^verbatim>\<open>mmap\<close> without an address returns a range that is not null, does not wrap and
  was not mapped; with \<^verbatim>\<open>MAP_FIXED\<close> it returns the address it was given.
\<close>

definition region_bytes :: "region \<Rightarrow> nat set" where
  "region_bytes r = {unat (rg_addr r)..<unat (rg_addr r) + unat (rg_len r)}"

definition mmap_contract :: "kernel \<Rightarrow> bool" where
  "mmap_contract K \<longleftrightarrow>
     (\<forall>h l p f d off xs. K h (Mmap 0 l p f d off) = Done xs \<longrightarrow>
        out_word xs 0 \<noteq> 0 \<and> unat (out_word xs 0) + unat l \<le> 2 ^ 64 \<and>
        {unat (out_word xs 0)..<unat (out_word xs 0) + unat l} \<inter> vm h = {}) \<and>
     (\<forall>h a l p f d off xs. a \<noteq> 0 \<longrightarrow> K h (Mmap a l p f d off) = Done xs \<longrightarrow> out_word xs 0 = a)"

lemma mmap_anywhere:
  assumes "mmap_contract K" and "K h (Mmap 0 l p f d off) = Done xs"
  shows "out_word xs 0 \<noteq> 0" and "unat (out_word xs 0) + unat l \<le> 2 ^ 64"
    and "{unat (out_word xs 0)..<unat (out_word xs 0) + unat l} \<inter> vm h = {}"
  using assms unfolding mmap_contract_def by blast+

lemma mmap_fixed:
  "mmap_contract K \<Longrightarrow> a \<noteq> 0 \<Longrightarrow> K h (Mmap a l p f d off) = Done xs \<Longrightarrow> out_word xs 0 = a"
  unfolding mmap_contract_def by blast

lemma region_create_ok:
  assumes "mmap_contract K" and "region_create K len prot flags h = (Inr r, h')"
  shows "rg_addr r \<noteq> 0 \<and> rg_len r = len \<and> region_bytes r \<inter> vm h = {} \<and> vm h' = vm h \<union> region_bytes r"
proof -
  obtain xs where "K h (Mmap 0 len prot flags (- 1) 0) = Done xs"
    "r = \<lparr>rg_addr = out_word xs 0, rg_len = len\<rparr>" "h' = h @ [(Mmap 0 len prot flags (- 1) 0, Done xs)]"
    using assms(2) by (auto simp: region_create_def op_eqs)
  with mmap_anywhere [OF assms(1) this(1)] show ?thesis by (simp add: op_simps region_bytes_def)
qed

lemma region_reserve_ok:
  assumes "mmap_contract K" and "region_reserve K len addr h = (Inr r, h')"
  shows "rg_addr r \<noteq> 0 \<and> rg_len r = len \<and> vm h' = vm h \<union> region_bytes r \<and>
     (addr = 0 \<longrightarrow> unat (rg_addr r) + unat len \<le> 2 ^ 64 \<and> region_bytes r \<inter> vm h = {}) \<and>
     (addr \<noteq> 0 \<longrightarrow> rg_addr r = addr)"
proof -
  obtain f xs where x: "K h (Mmap addr len PROT_NONE f (- 1) 0) = Done xs"
    "r = \<lparr>rg_addr = out_word xs 0, rg_len = len\<rparr>" "h' = h @ [(Mmap addr len PROT_NONE f (- 1) 0, Done xs)]"
    using assms(2) by (auto simp: region_reserve_def Let_def op_eqs)
  show ?thesis
  proof (cases "addr = 0")
    case True
    with x mmap_anywhere [OF assms(1), of h len] show ?thesis by (simp add: op_simps region_bytes_def)
  next
    case False
    with x mmap_fixed [OF assms(1) False x(1)] show ?thesis by (simp add: op_simps region_bytes_def)
  qed
qed

lemma munmap_asserted_ok:
  "munmap_asserted K a l k h = (Inr x, h') \<Longrightarrow>
   \<exists>h1. k h1 = (Inr x, h') \<and> vm h1 = vm h - {unat a..<unat a + unat l}"
  by (auto simp: munmap_asserted_def op_eqs op_simps split: if_splits)

lemma region_destroy_ok:
  "region_destroy K r h = (Inr u, h') \<Longrightarrow> rg_addr r \<noteq> 0 \<Longrightarrow>
   vm h' = vm h - region_bytes r \<and> gpu_objects h' = gpu_objects h"
  by (auto simp: region_destroy_def op_eqs op_simps region_bytes_def)

section \<open>Aligned reservations\<close>

text \<open>The cut removes exactly what the alignment added, without wrapping.\<close>

lemma aligned_reservation:
  assumes "mmap_contract K" and "k < 64" and "0 < len"
    and "region_reserve_aligned K len (2 ^ k) h = (Inr r, h')"
  shows "2 ^ k dvd unat (rg_addr r) \<and> rg_len r = len \<and> unat (rg_addr r) + unat len \<le> 2 ^ 64 \<and>
     region_bytes r \<inter> vm h = {} \<and> vm h' = vm h \<union> region_bytes r \<and> rg_addr r \<noteq> 0"
proof -
  let ?A = "2 ^ k :: nat" and ?L = "unat len"
  have pA: "unat (2 ^ k :: u64) = ?A" using assms(2) by simp
  then have a0: "(2 ^ k :: u64) \<noteq> 0" by (metis power_not_zero unat_0 zero_neq_numeral)
  have guard: "\<not> len > - 1 - (2 ^ k - 1)"
    and rest: "op_try (region_reserve K (len + 2 ^ k - 1) 0) (\<lambda>region.
       let raw = rg_addr region; aligned = (raw + 2 ^ k - 1) AND NOT (2 ^ k - 1);
           prefix = aligned - raw; suffix = rg_len region - prefix - len
       in munmap_asserted K raw prefix (munmap_asserted K (aligned + len) suffix (
          op_ret \<lparr>rg_addr = aligned, rg_len = len\<rparr>))) h = (Inr r, h')"
    using assms(4) a0 by (auto simp: region_reserve_aligned_def op_when_eq split: if_splits)
  obtain q h1 where q: "region_reserve K (len + 2 ^ k - 1) 0 h = (Inr q, h1)"
    using rest by (auto simp: op_try_eq)
  define raw where "raw = rg_addr q"
  define aligned where "aligned = (raw + 2 ^ k - 1) AND NOT (2 ^ k - 1)"
  define prefix where "prefix = aligned - raw"
  define suffix where "suffix = rg_len q - prefix - len"
  have pos: "0 < ?L" using assms(3) by (simp add: word_less_nat_alt)
  have "unat (2 ^ k - 1 :: u64) = ?A - 1" using pA by (subst unat_sub_no_wrap) simp_all
  moreover have A63: "?A \<le> 2 ^ 63" using assms(2) by (intro power_increasing) simp_all
  ultimately have "unat (- 1 - (2 ^ k - 1) :: u64) = 2 ^ 64 - 1 - (?A - 1)"
    by (subst unat_sub_no_wrap) (simp_all add: unat_max64)
  with guard have "?L \<le> 2 ^ 64 - 1 - (?A - 1)" by (simp only: word_less_nat_alt not_less)
  moreover have "0 < ?A" "(2::nat) ^ 64 = 2 * 2 ^ 63" by simp_all
  ultimately have fit: "?L + ?A - 1 < 2 ^ 64" using A63 by linarith
  note R = region_reserve_ok [OF assms(1) q]
  have total: "unat (len + 2 ^ k - 1) = ?L + ?A - 1"
  proof -
    have m: "unat (2 ^ k - 1 :: u64) = ?A - 1" using pA by (subst unat_sub_no_wrap) simp_all
    have "0 < ?A" by simp
    then have "?L + (?A - 1) < 2 ^ 64" using fit by linarith
    then have "unat (len + (2 ^ k - 1)) = ?L + (?A - 1)"
      using m by (subst unat_add_no_wrap) simp_all
    then show ?thesis
      unfolding add_diff_eq [symmetric] using \<open>0 < ?A\<close> by (simp only: add_diff_assoc)
  qed
  with R have len_q: "unat (rg_len q) = ?L + ?A - 1" and room: "unat raw + (?L + ?A - 1) \<le> 2 ^ 64"
    by (simp_all add: raw_def)
  then have "unat raw + ?A \<le> 2 ^ 64" using pos by linarith
  then have al: "unat aligned = round_up (unat raw) ?A"
    using unat_align_up [of k raw] assms(2) by (simp add: align_up_def aligned_def)
  have lo: "unat raw \<le> unat aligned" and hi: "unat aligned < unat raw + ?A"
    using round_up_ge [of ?A "unat raw"] round_up_less [of ?A "unat raw"] by (simp_all add: al)
  have up: "unat prefix = unat aligned - unat raw" unfolding prefix_def using lo by (rule unat_sub_no_wrap)
  have us: "unat suffix = ?L + ?A - 1 - (unat aligned - unat raw) - ?L"
    unfolding suffix_def using up len_q hi lo pos by (simp add: unat_sub_no_wrap)
  have ue: "unat (aligned + len) = unat aligned + ?L \<or> unat suffix = 0"
    using us hi lo room unat_add_no_wrap [of aligned len] by (cases "unat aligned + ?L < 2 ^ 64") simp_all
  obtain h2 where "munmap_asserted K raw prefix (munmap_asserted K (aligned + len) suffix
      (op_ret \<lparr>rg_addr = aligned, rg_len = len\<rparr>)) h1 = (Inr r, h')"
    using rest q by (auto simp: op_try_def Let_def raw_def aligned_def prefix_def suffix_def)
  from munmap_asserted_ok [OF this] obtain h2 h3 where
    v2: "vm h2 = vm h1 - {unat raw..<unat raw + unat prefix}"
    and v3: "vm h3 = vm h2 - {unat (aligned + len)..<unat (aligned + len) + unat suffix}"
    and r: "r = \<lparr>rg_addr = aligned, rg_len = len\<rparr>" "h' = h3"
    by (auto dest!: munmap_asserted_ok simp: op_ret_eq)
  have rb: "region_bytes r = {unat aligned..<unat aligned + ?L}" by (simp add: region_bytes_def r)
  have qb: "region_bytes q = {unat raw..<unat raw + (?L + ?A - 1)}"
    using len_q by (simp add: region_bytes_def raw_def)
  have "{unat (aligned + len)..<unat (aligned + len) + unat suffix} = {unat aligned + ?L..<unat raw + (?L + ?A - 1)}"
    using ue us lo hi pos by auto
  moreover have "{unat raw..<unat raw + unat prefix} = {unat raw..<unat aligned}" using up lo by simp
  ultimately have "vm h' = vm h \<union> region_bytes q - {unat raw..<unat aligned} - {unat aligned + ?L..<unat raw + (?L + ?A - 1)}"
    using v2 v3 r R by simp
  also have "\<dots> = vm h \<union> region_bytes r"
  proof -
    have "region_bytes q = {unat raw..<unat aligned} \<union> region_bytes r \<union>
        {unat aligned + ?L..<unat raw + (?L + ?A - 1)}"
      using qb rb lo hi pos by auto
    moreover have "region_bytes r \<inter> {unat raw..<unat aligned} = {}"
      "region_bytes r \<inter> {unat aligned + ?L..<unat raw + (?L + ?A - 1)} = {}"
      using rb by auto
    moreover have "region_bytes q \<inter> vm h = {}" using R by blast
    ultimately show ?thesis by blast
  qed
  finally have "vm h' = vm h \<union> region_bytes r" .
  moreover have "region_bytes r \<subseteq> region_bytes q" using qb rb lo hi by auto
  moreover have "2 ^ k dvd unat (rg_addr r)" by (simp add: r al)
  moreover have "region_bytes q \<inter> vm h = {}" using R by blast
  moreover have "unat aligned + ?L \<le> 2 ^ 64" using hi room by linarith
  moreover have "raw \<noteq> 0" using R by (simp add: raw_def)
  then have "aligned \<noteq> 0" using lo by (metis le_zero_eq unat_0 unat_eq_zero)
  ultimately show ?thesis using r by auto
qed

text \<open>
  An aligned reservation of a positive length is aligned, has exactly the length asked for
  and is all that stays mapped of the larger range it was cut from; no step of its address
  arithmetic wraps.
\<close>

theorem reserve_aligned_exact:
  assumes "mmap_contract K" and "k < 64" and "0 < len"
    and "region_reserve_aligned K len (2 ^ k) h = (Inr r, h')"
  shows "2 ^ k dvd unat (rg_addr r) \<and> rg_len r = len \<and> unat (rg_addr r) + unat len \<le> 2 ^ 64 \<and>
     region_bytes r \<inter> vm h = {} \<and> vm h' = vm h \<union> region_bytes r"
  using aligned_reservation [OF assms] by blast

text \<open>A small system that keeps the contract: one anonymous range, one memory object at a time.\<close>

definition is_mapping :: "sys_call \<Rightarrow> bool" where
  "is_mapping c = (case c of Mmap a l p f d off \<Rightarrow> True | Mremap a l n \<Rightarrow> True | _ \<Rightarrow> False)"

definition is_alloc :: "sys_call \<Rightarrow> bool" where
  "is_alloc c = (case c of AllocMemory a l off g f \<Rightarrow> True | MapMemory gh ids \<Rightarrow> True | _ \<Rightarrow> False)"

definition demo_kernel :: kernel where
  "demo_kernel h c =
     (case c of
        Mmap a l p f d off \<Rightarrow>
          if a \<noteq> 0 then Done [a]
          else if \<not> list_ex (\<lambda>(c, r). is_mapping c) h \<and> l \<le> 0x100000 then Done [0x12345000] else Failed ENOMEM
      | AllocMemory a l off g f \<Rightarrow> if \<not> list_ex (\<lambda>(c, r). is_alloc c) h then Done [7, 0x1000] else Failed ENOMEM
      | CreateEvent pg t ar \<Rightarrow> Done [3, 9, 3]
      | _ \<Rightarrow> Done [])"

lemma no_mapping_vm: "\<not> list_ex (\<lambda>(c, r). is_mapping c) h \<Longrightarrow> vm h = {}"
proof (induction h rule: rev_induct)
  case Nil
  then show ?case by (simp add: vm_def)
next
  case (snoc cr h)
  then show ?case
    by (cases cr; cases "fst cr"; cases "snd cr") (auto simp: vm_snoc vm_step_def is_mapping_def)
qed

lemma no_alloc_gpu: "\<not> list_ex (\<lambda>(c, r). is_alloc c) h \<Longrightarrow> gpu_objects h = {} \<and> gpu_maps gh h = {}"
proof (induction h rule: rev_induct)
  case Nil
  then show ?case by (simp add: gpu_objects_def gpu_maps_def)
next
  case (snoc cr h)
  then show ?case
    by (cases cr; cases "fst cr"; cases "snd cr")
       (auto simp: gpu_objects_snoc gpu_maps_snoc gpu_step_def map_step_def is_alloc_def)
qed

lemma demo_kernel_contract: "mmap_contract demo_kernel"
proof -
  have "unat l \<le> 0x100000" if "l \<le> 0x100000" for l :: u64
    using that by (simp add: word_le_nat_alt)
  then show ?thesis
    by (fastforce simp: mmap_contract_def demo_kernel_def out_word_def no_mapping_vm split: if_splits)
qed

theorem reserve_aligned_exact_witness:
  "2 ^ 16 dvd unat (0x12350000 :: u64) \<and>
   (\<exists>h'. region_reserve_aligned demo_kernel 0x1000 0x10000 [] = (Inr \<lparr>rg_addr = 0x12350000, rg_len = 0x1000\<rparr>, h') \<and>
      vm h' = vm [] \<union> region_bytes \<lparr>rg_addr = 0x12350000, rg_len = 0x1000\<rparr>)"
proof -
  have "fst (region_reserve_aligned demo_kernel 0x1000 (2 ^ 16) []) = Inr \<lparr>rg_addr = 0x12350000, rg_len = 0x1000\<rparr>"
    by code_simp
  then obtain h' where r: "region_reserve_aligned demo_kernel 0x1000 (2 ^ 16) []
      = (Inr \<lparr>rg_addr = 0x12350000, rg_len = 0x1000\<rparr>, h')" by (metis prod.collapse)
  from reserve_aligned_exact [OF demo_kernel_contract _ _ r] r show ?thesis by auto
qed

text \<open>
  The mask needs a power of two, which the code does not ask for: a request for alignment 7 is
  granted at an address that is no multiple of 7.
\<close>

lemma reserve_aligned_other_alignment:
  "fst (region_reserve_aligned demo_kernel 0x1000 7 []) = Inr \<lparr>rg_addr = 0x12345000, rg_len = 0x1000\<rparr> \<and>
   (0x12345000 :: u64) mod 7 = 1"
  by code_simp

end
