(* ===== verification/Memory.thy ===== *)
theory Memory
  imports Mapped_Region
begin

text \<open>
  \<^verbatim>\<open>memory.h\<close> and \<^verbatim>\<open>lib/memory.cpp\<close>: GPU buffers and their DMA-buffer handles. A
  buffer is the record of its members; the owning device is reduced to what the operations read
  from it. Members are destroyed at the end of their scope as in the code, so every early return
  carries its clean-up calls. Operations run under the buffer's mutex and are atomic here.
\<close>

section \<open>Types\<close>

datatype mem_type = VRAM | GTT

fun mem_type_bits :: "mem_type \<Rightarrow> u32" where
  "mem_type_bits VRAM = 0x1"
| "mem_type_bits GTT = 0x2"

definition MF_WRITABLE :: u32 where "MF_WRITABLE = 0x80000000"
definition MF_EXECUTABLE :: u32 where "MF_EXECUTABLE = 0x40000000"
definition MF_HOST_ACCESS :: u32 where "MF_HOST_ACCESS = 0x20000000"
definition MF_NO_SUBSTITUTE :: u32 where "MF_NO_SUBSTITUTE = 0x10000000"
definition MF_COHERENT :: u32 where "MF_COHERENT = 0x4000000"
definition MF_UNCACHED :: u32 where "MF_UNCACHED = 0x2000000"
definition MF_USERPTR :: u32 where "MF_USERPTR = 0x4"

record mem_dev =
  md_gpu :: u32
  md_host_visible :: bool
  md_render_fd :: int

record buffer =
  b_len :: u64
  b_handle :: u64
  b_mapping :: region
  b_ids :: "u32 list"
  b_cap :: nat
  b_owner :: "u32 option"

definition null_buffer :: buffer where
  "null_buffer = \<lparr>b_len = 0, b_handle = 0, b_mapping = null_region, b_ids = [], b_cap = 2, b_owner = None\<rparr>"

section \<open>Heap\<close>

text \<open>\<^verbatim>\<open>Box<Mutex>::create\<close>, and appending to a \<^verbatim>\<open>SmallVector\<close> of capacity \<open>cap\<close>.\<close>

definition mutex_box :: "kernel \<Rightarrow> unit op" where
  "mutex_box K = op_else (sys K (Malloc 4)) (\<lambda>_. op_fail ENOMEM) (\<lambda>_. op_ret ())"

definition push_one :: "kernel \<Rightarrow> u64 \<Rightarrow> nat \<Rightarrow> 'a list \<Rightarrow> 'a \<Rightarrow> (nat \<times> 'a list) op" where
  "push_one K sz cap xs x =
     (if length xs = cap
      then op_else (sys K (Malloc (of_nat (2 * cap) * sz))) (\<lambda>_. op_fail ENOMEM) (\<lambda>_. op_ret (2 * cap, xs @ [x]))
      else op_ret (cap, xs @ [x]))"

fun push_all :: "kernel \<Rightarrow> u64 \<Rightarrow> nat \<Rightarrow> 'a list \<Rightarrow> 'a list \<Rightarrow> 'a list op" where
  "push_all K sz cap acc [] = op_ret acc"
| "push_all K sz cap acc (x # xs) =
     op_try (push_one K sz cap acc x) (\<lambda>(cap', acc'). push_all K sz cap' acc' xs)"

definition vec_reserve :: "kernel \<Rightarrow> u64 \<Rightarrow> nat \<Rightarrow> nat \<Rightarrow> nat op" where
  "vec_reserve K sz cap n =
     (if n \<le> cap then op_ret cap
      else op_else (sys K (Malloc (of_nat n * sz))) (\<lambda>_. op_fail ENOMEM) (\<lambda>_. op_ret n))"

section \<open>Destruction and moves\<close>

definition buffer_destroy :: "kernel \<Rightarrow> buffer \<Rightarrow> buffer op" where
  "buffer_destroy K b =
     (if b_handle b = 0 then op_ret b
      else let free = op_assert (sys K (FreeMemory (b_handle b))) (op_ret (b\<lparr>b_handle := 0\<rparr>))
           in if b_ids b \<noteq> [] then op_assert (sys K (UnmapMemory (b_handle b) (b_ids b))) free else free)"

text \<open>The destructor: \<^verbatim>\<open>destroy\<close>, then the destructor of the mapping.\<close>

definition buffer_drop :: "kernel \<Rightarrow> buffer \<Rightarrow> unit op" where
  "buffer_drop K b = op_try (buffer_destroy K b) (\<lambda>b'. region_destroy K (b_mapping b'))"

definition release_device :: "kernel \<Rightarrow> buffer \<Rightarrow> buffer op" where
  "release_device K b = buffer_destroy K (b\<lparr>b_mapping := snd (region_release (b_mapping b))\<rparr>)"

definition buffer_release :: "buffer \<Rightarrow> u64 \<times> buffer" where
  "buffer_release b =
     (b_handle b, b\<lparr>b_len := 0, b_mapping := snd (region_release (b_mapping b)), b_owner := None, b_handle := 0\<rparr>)"

text \<open>The moves: the new value of the target and what remains of the source.\<close>

definition buffer_move :: "buffer \<Rightarrow> buffer \<times> buffer" where
  "buffer_move other = (other, null_buffer)"

definition buffer_assign :: "kernel \<Rightarrow> buffer \<Rightarrow> buffer \<Rightarrow> (buffer \<times> buffer) op" where
  "buffer_assign K dest other =
     op_try (buffer_destroy K dest) (\<lambda>dest'.
     op_try (region_assign K (b_mapping dest') (b_mapping other)) (\<lambda>(m, _).
     op_ret (other\<lparr>b_mapping := m\<rparr>, null_buffer)))"

section \<open>Allocation\<close>

definition buffer_allocate :: "kernel \<Rightarrow> u64 \<Rightarrow> mem_dev \<Rightarrow> u64 \<Rightarrow> mem_type \<Rightarrow> u32 \<Rightarrow> u64 \<Rightarrow> buffer op" where
  "buffer_allocate K page d sz type flags addr =
     op_when (type = VRAM \<and> flags AND MF_HOST_ACCESS \<noteq> 0 \<and> \<not> md_host_visible d) ENOTSUP (
     let sz' = align_up sz page
     in op_try (region_reserve K sz' addr) (\<lambda>reservation.
        op_else (sys K (AllocMemory (rg_addr reservation) sz' 0 (md_gpu d) (mem_type_bits type OR flags)))
          (\<lambda>e. op_try (region_destroy K reservation) (\<lambda>_. op_fail e))
          (\<lambda>out.
            let host_rw = type = GTT \<or> flags AND MF_HOST_ACCESS \<noteq> 0;
                prot = (if host_rw then PROT_RW else PROT_NONE)
            in op_else (region_rebind K reservation (md_render_fd d) prot (out_word out 1))
                 (\<lambda>e. op_assert (sys K (FreeMemory (out_word out 0)))
                        (op_try (region_destroy K reservation) (\<lambda>_. op_fail e)))
                 (\<lambda>(rebound, _).
                   op_else (mutex_box K)
                     (\<lambda>e. op_try (region_destroy K rebound) (\<lambda>_. op_fail e))
                     (\<lambda>_. op_ret \<lparr>b_len = sz', b_handle = out_word out 0, b_mapping = rebound, b_ids = [],
                                  b_cap = 2, b_owner = Some (md_gpu d)\<rparr>)))))"

definition buffer_pin :: "kernel \<Rightarrow> u64 \<Rightarrow> mem_dev \<Rightarrow> u64 \<Rightarrow> u64 \<Rightarrow> u32 \<Rightarrow> buffer op" where
  "buffer_pin K page d ptr sz flags =
     (let sz' = align_up sz page
      in op_try (sys K (AllocMemory ptr sz' ptr (md_gpu d) (MF_USERPTR OR flags))) (\<lambda>out.
         op_try (mutex_box K) (\<lambda>_.
         op_ret \<lparr>b_len = sz', b_handle = out_word out 0, b_mapping = null_region, b_ids = [], b_cap = 2,
                 b_owner = Some (md_gpu d)\<rparr>)))"

section \<open>Mapping on devices\<close>

text \<open>
  The operations change the buffer in place, so they return it beside their result; only an
  abort has no buffer to return.
\<close>

fun note_ids :: "kernel \<Rightarrow> nat \<Rightarrow> u32 list \<Rightarrow> u32 list \<Rightarrow> (nat \<times> u32 list) op" where
  "note_ids K cap ids [] = op_ret (cap, ids)"
| "note_ids K cap ids (x # xs) =
     (if list_ex (\<lambda>y. y = x) ids then note_ids K cap ids xs
      else op_else (push_one K 4 cap ids x) (\<lambda>_. op_fail ABORT)
             (\<lambda>(cap', ids'). note_ids K cap' ids' xs))"

definition buffer_map :: "kernel \<Rightarrow> buffer \<Rightarrow> u32 list \<Rightarrow> (unit res \<times> buffer) op" where
  "buffer_map K b targets =
     (if b_handle b = 0 then op_ret (Inl EINVAL, b)
      else op_else (push_all K 4 8 [] targets) (\<lambda>e. op_ret (Inl e, b)) (\<lambda>ids.
           op_else (vec_reserve K 4 (b_cap b) (length (b_ids b) + length ids)) (\<lambda>e. op_ret (Inl e, b)) (\<lambda>cap.
           op_else (sys K (MapMemory (b_handle b) ids)) (\<lambda>e. op_ret (Inl e, b\<lparr>b_cap := cap\<rparr>)) (\<lambda>_.
           op_try (note_ids K cap (b_ids b) ids) (\<lambda>(cap', ids').
           op_ret (Inr (), b\<lparr>b_ids := ids', b_cap := cap'\<rparr>))))))"

definition buffer_unmap :: "kernel \<Rightarrow> buffer \<Rightarrow> u32 list \<Rightarrow> (unit res \<times> buffer) op" where
  "buffer_unmap K b targets =
     (if b_handle b = 0 then op_ret (Inl EINVAL, b)
      else op_else (push_all K 4 8 [] targets) (\<lambda>e. op_ret (Inl e, b)) (\<lambda>ids.
           op_else (sys K (UnmapMemory (b_handle b) ids)) (\<lambda>e. op_ret (Inl e, b)) (\<lambda>_.
           op_ret (Inr (), b\<lparr>b_ids := foldl (\<lambda>m x. remove_first (\<lambda>y. y = x) m) (b_ids b) ids\<rparr>))))"

section \<open>DMA buffers\<close>

definition dmabuf_create :: "kernel \<Rightarrow> buffer \<Rightarrow> u32 \<Rightarrow> int op" where
  "dmabuf_create K b flags =
     op_when (b_handle b = 0) EINVAL (
     op_try (sys K (ExportDmabuf (b_handle b) flags)) (\<lambda>out. op_ret (sint (ucast (out_word out 0) :: u32))))"

definition dmabuf_drop :: "kernel \<Rightarrow> int \<Rightarrow> unit op" where
  "dmabuf_drop K fd = (if fd \<ge> 0 then op_else (sys K (Close fd)) (\<lambda>_. op_ret ()) (\<lambda>_. op_ret ()) else op_ret ())"

definition dmabuf_assign :: "kernel \<Rightarrow> int \<Rightarrow> int \<Rightarrow> (int \<times> int) op" where
  "dmabuf_assign K dest source = op_try (dmabuf_drop K dest) (\<lambda>_. op_ret (source, - 1))"

section \<open>Allocation is all or nothing\<close>

text \<open>The driver returns a handle that is not in use; a new object is mapped on no device.\<close>

definition alloc_contract :: "kernel \<Rightarrow> bool" where
  "alloc_contract K \<longleftrightarrow>
     (\<forall>h a l off g f xs. K h (AllocMemory a l off g f) = Done xs \<longrightarrow>
        out_word xs 0 \<noteq> 0 \<and> out_word xs 0 \<notin> gpu_objects h \<and> gpu_maps (out_word xs 0) h = {})"

lemma undo_reservation:
  assumes "op_try (region_destroy K r) (\<lambda>_. op_fail e) h = (x, h')" and "rg_addr r \<noteq> 0"
  shows "x = Inl ABORT \<or> x = Inl e \<and> vm h' = vm h - region_bytes r \<and> gpu_objects h' = gpu_objects h"
  using assms by (auto simp: region_destroy_def op_eqs op_simps region_bytes_def)

lemma undo_keeps_history:
  "op_try (region_destroy K r) (\<lambda>_. op_fail e) h = (x, h') \<Longrightarrow> \<exists>t. h' = h @ t"
  by (auto simp: region_destroy_def op_eqs split: if_splits)

definition no_mutex :: "history \<Rightarrow> history \<Rightarrow> bool" where
  "no_mutex h h' \<longleftrightarrow> list_ex (\<lambda>cr. case cr of (Malloc n, Failed _) \<Rightarrow> n = 4 | _ \<Rightarrow> False) (drop (length h) h')"

definition allocated :: "history \<Rightarrow> history \<Rightarrow> buffer \<Rightarrow> bool" where
  "allocated h h' b \<longleftrightarrow>
     b_handle b \<noteq> 0 \<and> b_handle b \<notin> gpu_objects h \<and> gpu_objects h' = insert (b_handle b) (gpu_objects h) \<and>
     region_bytes (b_mapping b) \<inter> vm h = {} \<and> vm h' = vm h \<union> region_bytes (b_mapping b) \<and>
     rg_addr (b_mapping b) \<noteq> 0 \<and> rg_len (b_mapping b) = b_len b \<and>
     b_ids b = [] \<and> b_cap b = 2 \<and> gpu_maps (b_handle b) h' = {}"

lemma rebind_ok:
  assumes "mmap_contract K" and "rg_addr r \<noteq> 0" and "region_rebind K r fd prot off h = (x, h')"
  shows "(\<exists>e. x = Inl e \<and> vm h' = vm h) \<or>
         (x = Inr (r, null_region) \<and> vm h' = vm h \<union> region_bytes r)"
    and "gpu_objects h' = gpu_objects h" and "\<exists>t. h' = h @ t" and "gpu_maps gh h' = gpu_maps gh h"
  using assms(3) mmap_fixed [OF assms(1,2)]
  by (auto simp: region_rebind_def op_eqs op_simps region_bytes_def)

lemma buffer_allocation:
  assumes "mmap_contract K" and "alloc_contract K"
    and "buffer_allocate K page d sz type flags 0 h = (r, h')"
  shows "case r of
     Inr b \<Rightarrow> allocated h h' b \<and> b_len b = align_up sz page
   | Inl e \<Rightarrow> e = ABORT \<or> vm h' = vm h \<and> (gpu_objects h' = gpu_objects h \<or> no_mutex h h')"
proof (cases "type = VRAM \<and> flags AND MF_HOST_ACCESS \<noteq> 0 \<and> \<not> md_host_visible d")
  case True
  with assms(3) show ?thesis by (auto simp: buffer_allocate_def op_eqs)
next
  case False
  let ?sz = "align_up sz page"
  obtain rr h1 where rr: "region_reserve K ?sz 0 h = (rr, h1)" by fastforce
  show ?thesis
  proof (cases rr)
    case (Inl e)
    with rr have "vm h1 = vm h" "gpu_objects h1 = gpu_objects h"
      by (auto simp: region_reserve_def op_eqs op_simps)
    then show ?thesis using Inl False rr assms(3) by (auto simp: buffer_allocate_def op_eqs Let_def)
  next
    case (Inr res)
    have h1: "\<exists>t. h1 = h @ t" "gpu_objects h1 = gpu_objects h"
      using rr Inr by (auto simp: region_reserve_def op_eqs op_simps)
    note R = region_reserve_ok [OF assms(1) rr [unfolded Inr]]
    then have a: "rg_addr res \<noteq> 0" and dj: "region_bytes res \<inter> vm h = {}" and v1: "vm h1 = vm h \<union> region_bytes res"
      by auto
    then have undo: "vm h1 - region_bytes res = vm h" by blast
    define call where "call = AllocMemory (rg_addr res) ?sz 0 (md_gpu d) (mem_type_bits type OR flags)"
    show ?thesis
    proof (cases "K h1 call")
      case (Failed e)
      then have "op_try (region_destroy K res) (\<lambda>_. op_fail e) (h1 @ [(call, Failed e)]) = (r, h')"
        using assms(3) False rr Inr by (auto simp: buffer_allocate_def op_eqs Let_def call_def)
      from undo_reservation [OF this a] undo h1(2) show ?thesis by (auto simp: op_simps)
    next
      case (Done out)
      let ?h2 = "h1 @ [(call, Done out)]"
      have g: "out_word out 0 \<noteq> 0" "out_word out 0 \<notin> gpu_objects h" "gpu_maps (out_word out 0) h1 = {}"
        using assms(2) Done h1(2) unfolding alloc_contract_def call_def by (metis, metis, metis)
      have g2: "gpu_objects ?h2 = insert (out_word out 0) (gpu_objects h)" "vm ?h2 = vm h1"
          "gpu_maps (out_word out 0) ?h2 = {}"
        using h1(2) g(3) by (simp_all add: op_simps call_def)
      define prot where "prot = (if type = GTT \<or> flags AND MF_HOST_ACCESS \<noteq> 0 then PROT_RW else PROT_NONE)"
      obtain br h3 where br: "region_rebind K res (md_render_fd d) prot (out_word out 1) ?h2 = (br, h3)"
        by fastforce
      note B = rebind_ok [OF assms(1) a br]
      have v3: "vm h3 = vm h1" using B(1) v1 g2(2) by auto
      note run = assms(3) [unfolded buffer_allocate_def]
      show ?thesis
      proof (cases br)
        case (Inl e)
        then have f: "op_assert (sys K (FreeMemory (out_word out 0)))
            (op_try (region_destroy K res) (\<lambda>_. op_fail e)) h3 = (r, h')"
          using run False rr Inr Done br
          by (auto simp: op_when_eq op_try_def op_else_def Let_def sys_def call_def prot_def)
        show ?thesis
        proof (cases "K h3 (FreeMemory (out_word out 0))")
          case (Failed x)
          with f show ?thesis by (auto simp: op_eqs)
        next
          case (Done ys)
          with f have "op_try (region_destroy K res) (\<lambda>_. op_fail e)
              (h3 @ [(FreeMemory (out_word out 0), Done ys)]) = (r, h')" by (auto simp: op_eqs)
          from undo_reservation [OF this a] show ?thesis
            using v3 undo B(2) g g2 by (auto simp: op_simps)
        qed
      next
        case (Inr pair)
        with B have pair: "pair = (res, null_region)" by auto
        have m: "op_else (mutex_box K) (\<lambda>e. op_try (region_destroy K res) (\<lambda>_. op_fail e))
            (\<lambda>_. op_ret \<lparr>b_len = ?sz, b_handle = out_word out 0, b_mapping = res, b_ids = [],
                         b_cap = 2, b_owner = Some (md_gpu d)\<rparr>) h3 = (r, h')"
          using run False rr \<open>rr = Inr res\<close> Done br Inr
          by (auto simp: op_when_eq op_try_def op_else_def Let_def sys_def call_def prot_def pair)
        show ?thesis
        proof (cases "K h3 (Malloc 4)")
          case (Failed x)
          with m have u: "op_try (region_destroy K res) (\<lambda>_. op_fail ENOMEM) (h3 @ [(Malloc 4, Failed x)]) = (r, h')"
            by (auto simp: op_eqs mutex_box_def)
          have "\<exists>t. h' = h @ t \<and> (Malloc 4, Failed x) \<in> set t"
            using undo_keeps_history [OF u] h1(1) B(3) by fastforce
          then have "no_mutex h h'" by (auto simp: no_mutex_def list_ex_iff intro!: bexI)
          with undo_reservation [OF u a] v3 undo show ?thesis by (auto simp: op_simps)
        next
          case (Done ys)
          with m have "r = Inr \<lparr>b_len = ?sz, b_handle = out_word out 0, b_mapping = res, b_ids = [],
              b_cap = 2, b_owner = Some (md_gpu d)\<rparr>" "h' = h3 @ [(Malloc 4, Done ys)]"
            by (auto simp: op_eqs mutex_box_def)
          then show ?thesis
            using g g2 B(2,4) v3 v1 dj R by (auto simp: allocated_def op_simps)
        qed
      qed
    qed
  qed
qed

text \<open>
  An allocation at an address of the kernel's choice either yields a buffer that owns one new
  memory object and one new range of exactly the rounded size, or leaves both the address space
  and the set of memory objects as they were. The one exception the code has is shown too: when
  the mutex of the finished buffer cannot be allocated, the memory object stays.
\<close>

theorem buffer_allocate_all_or_nothing:
  assumes "mmap_contract K" and "alloc_contract K"
    and "buffer_allocate K page d sz type flags 0 h = (r, h')"
  shows "case r of
     Inr b \<Rightarrow> allocated h h' b \<and> b_len b = align_up sz page
   | Inl e \<Rightarrow> e = ABORT \<or> vm h' = vm h \<and> (gpu_objects h' = gpu_objects h \<or> no_mutex h h')"
  using assms by (rule buffer_allocation)

lemma demo_alloc_contract: "alloc_contract demo_kernel"
  by (auto simp: alloc_contract_def demo_kernel_def out_word_def no_alloc_gpu split: if_splits)

text \<open>
  The exception is real: the memory object survives an allocation that reports \<^verbatim>\<open>ENOMEM\<close>.
\<close>

definition no_malloc_kernel :: kernel where
  "no_malloc_kernel h c = (case c of Malloc n \<Rightarrow> Failed ENOMEM | _ \<Rightarrow> demo_kernel h c)"

definition demo_dev :: mem_dev where
  "demo_dev = \<lparr>md_gpu = 1, md_host_visible = False, md_render_fd = 5\<rparr>"

lemma allocate_leaks_handle:
  "map fst (snd (buffer_allocate no_malloc_kernel 0x1000 demo_dev 1 GTT MF_WRITABLE 0 [])) =
     [Mmap 0 0x1000 0 0x4022 (- 1) 0, AllocMemory 0x12345000 0x1000 0 1 0x80000002,
      Mmap 0x12345000 0x1000 3 0x11 5 0x1000, Malloc 4, Munmap 0x12345000 0x1000]"
  by code_simp

text \<open>
  At a given address the reservation replaces what was mapped there, so giving it back on a
  failure leaves a hole in the range the caller owns. The scratch handler allocates this way
  inside the device's scratch reservation.
\<close>

lemma allocate_at_failure_unmaps:
  assumes "mmap_contract K" and "addr \<noteq> 0"
    and "\<And>h f. \<exists>e. K h (AllocMemory addr sz' 0 (md_gpu d) f) = Failed e"
    and "buffer_allocate K page d sz GTT flags addr h = (Inl e, h')" and "e \<noteq> ABORT"
    and "region_reserve K sz' addr h = (Inr res, h1)" and "sz' = align_up sz page"
  shows "vm h' = vm h - {unat addr..<unat addr + unat sz'}"
proof -
  note R = region_reserve_ok [OF assms(1,6)]
  then have a: "rg_addr res = addr" "rg_addr res \<noteq> 0" "vm h1 = vm h \<union> region_bytes res" using assms(2) by auto
  define call where "call = AllocMemory addr sz' 0 (md_gpu d) (mem_type_bits GTT OR flags)"
  obtain x where x: "K h1 call = Failed x" using assms(3) call_def by blast
  then have "op_try (region_destroy K res) (\<lambda>_. op_fail x) (h1 @ [(call, Failed x)]) = (Inl e, h')"
    using assms(4,6,7) a by (auto simp: buffer_allocate_def op_eqs Let_def call_def)
  from undo_reservation [OF this a(2)] assms(5) a(3) show ?thesis
    using a(1) R by (auto simp: op_simps region_bytes_def)
qed

section \<open>The device list of a buffer\<close>

text \<open>The list names each device the object is mapped on once.\<close>

definition buf_inv :: "buffer \<Rightarrow> history \<Rightarrow> bool" where
  "buf_inv b h \<longleftrightarrow> b_handle b \<noteq> 0 \<and> distinct (b_ids b) \<and> set (b_ids b) = gpu_maps (b_handle b) h \<and>
     length (b_ids b) \<le> b_cap b"

lemma push_one_cases:
  "push_one K sz cap xs x h = (r, h') \<Longrightarrow>
   (r = Inl ENOMEM \<or> (\<exists>cap'. r = Inr (cap', xs @ [x]))) \<and> vm h' = vm h \<and> gpu_objects h' = gpu_objects h \<and>
   gpu_maps gh h' = gpu_maps gh h"
  by (auto simp: push_one_def op_eqs op_simps split: if_splits)

lemma push_all_cases:
  "push_all K sz cap acc xs h = (r, h') \<Longrightarrow>
   (r = Inl ENOMEM \<or> r = Inr (acc @ xs)) \<and> vm h' = vm h \<and> gpu_objects h' = gpu_objects h \<and>
   gpu_maps gh h' = gpu_maps gh h"
proof (induction xs arbitrary: cap acc h)
  case Nil
  then show ?case by (auto simp: op_eqs)
next
  case (Cons x xs)
  from Cons.prems consider e where "push_one K sz cap acc x h = (Inl e, h')" "r = Inl e"
    | c a h1 where "push_one K sz cap acc x h = (Inr (c, a), h1)" "push_all K sz c a xs h1 = (r, h')"
    by (auto simp: op_eqs)
  then show ?case
  proof cases
    case 1
    with push_one_cases [OF 1(1)] show ?thesis by auto
  next
    case 2
    with push_one_cases [OF 2(1)] Cons.IH [OF 2(2)] show ?thesis by auto
  qed
qed

lemma vec_reserve_cases:
  "vec_reserve K sz cap n h = (r, h') \<Longrightarrow>
   (r = Inl ENOMEM \<or> (\<exists>c. r = Inr c \<and> n \<le> c \<and> cap \<le> c)) \<and> vm h' = vm h \<and> gpu_objects h' = gpu_objects h \<and>
   gpu_maps gh h' = gpu_maps gh h"
  by (auto simp: vec_reserve_def op_eqs op_simps split: if_splits)

lemma note_ids_room:
  "length ids + length xs \<le> cap \<Longrightarrow> distinct ids \<Longrightarrow> note_ids K cap ids xs h = (r, h') \<Longrightarrow>
   \<exists>ids'. r = Inr (cap, ids') \<and> h' = h \<and> distinct ids' \<and> set ids' = set ids \<union> set xs \<and>
     length ids' \<le> length ids + length xs"
proof (induction xs arbitrary: ids)
  case Nil
  then show ?case by (auto simp: op_eqs)
next
  case (Cons x xs)
  show ?case
  proof (cases "list_ex (\<lambda>y. y = x) ids")
    case True
    with Cons.prems have "note_ids K cap ids xs h = (r, h')" by simp
    with Cons.IH [of ids] Cons.prems True show ?thesis by (fastforce simp: list_ex_iff)
  next
    case False
    then have "x \<notin> set ids" by (auto simp: list_ex_iff)
    moreover have "note_ids K cap (ids @ [x]) xs h = (r, h')"
      using Cons.prems False by (auto simp: push_one_def op_eqs)
    ultimately show ?thesis using Cons.IH [of "ids @ [x]"] Cons.prems by fastforce
  qed
qed

lemma unmap_ids:
  assumes "distinct m"
  shows "set (foldl (\<lambda>m x. remove_first (\<lambda>y. y = x) m) m xs) = set m - set xs \<and>
    distinct (foldl (\<lambda>m x. remove_first (\<lambda>y. y = x) m) m xs) \<and>
    length (foldl (\<lambda>m x. remove_first (\<lambda>y. y = x) m) m xs) \<le> length m"
  using assms
proof (induction xs arbitrary: m)
  case Nil
  then show ?case by simp
next
  case (Cons x xs)
  have "length (remove_first (\<lambda>y. y = x) m) \<le> length m" by (rule length_remove_first)
  with Cons.IH [OF remove_first_eq(2) [OF Cons.prems, of x]] remove_first_eq(1) [OF Cons.prems, of x]
  show ?case by auto
qed

text \<open>
  Mapping and unmapping a live buffer never abort, and on every path the buffer's list names
  exactly the devices the driver has it mapped on, each once.
\<close>

definition tracks :: "buffer \<Rightarrow> history \<Rightarrow> (unit res \<times> buffer) res \<times> history \<Rightarrow> (u32 set \<Rightarrow> u32 set) \<Rightarrow> bool" where
  "tracks b h out upd \<longleftrightarrow>
     (case out of
        (Inl e, h') \<Rightarrow> False
      | (Inr (res, b'), h') \<Rightarrow> buf_inv b' h' \<and> b_handle b' = b_handle b \<and> b_mapping b' = b_mapping b \<and>
          set (b_ids b') = (if res = Inr () then upd (set (b_ids b)) else set (b_ids b)) \<and>
          vm h' = vm h \<and> gpu_objects h' = gpu_objects h)"

lemma tracksD:
  "tracks b h out upd \<Longrightarrow> \<exists>res b1 h1. out = (Inr (res, b1), h1) \<and> buf_inv b1 h1 \<and>
     b_handle b1 = b_handle b \<and> b_mapping b1 = b_mapping b \<and> vm h1 = vm h \<and> gpu_objects h1 = gpu_objects h"
  by (auto simp: tracks_def split: prod.splits sum.splits)

lemma buffer_map_tracks:
  assumes "buf_inv b h"
  shows "tracks b h (buffer_map K b targets h) (\<lambda>S. S \<union> set targets)"
proof -
  obtain r h' where m: "buffer_map K b targets h = (r, h')" by fastforce
  have nz: "b_handle b \<noteq> 0" using assms by (simp add: buf_inv_def)
  obtain pr h1 where p: "push_all K 4 8 [] targets h = (pr, h1)" by fastforce
  note P = push_all_cases [OF p]
  show ?thesis
  proof (cases pr)
    case (Inl e)
    with m nz p P assms show ?thesis by (auto simp: buffer_map_def op_eqs tracks_def buf_inv_def)
  next
    case (Inr ids)
    with P have ids: "ids = targets" by auto
    obtain vr h2 where v: "vec_reserve K 4 (b_cap b) (length (b_ids b) + length ids) h1 = (vr, h2)" by fastforce
    note V = vec_reserve_cases [OF v]
    show ?thesis
    proof (cases vr)
      case (Inl e)
      with m nz p P Inr v V assms show ?thesis by (auto simp: buffer_map_def op_eqs tracks_def buf_inv_def)
    next
      case (Inr cap)
      with V have cap: "length (b_ids b) + length ids \<le> cap" "b_cap b \<le> cap" by auto
      let ?c = "MapMemory (b_handle b) ids"
      show ?thesis
      proof (cases "K h2 ?c")
        case (Failed e)
        with m nz p P \<open>pr = Inr ids\<close> v V Inr assms cap show ?thesis
          by (auto simp: buffer_map_def op_eqs op_simps tracks_def buf_inv_def)
      next
        case (Done out)
        let ?h3 = "h2 @ [(?c, Done out)]"
        obtain nr h4 where n: "note_ids K cap (b_ids b) ids ?h3 = (nr, h4)" by fastforce
        from note_ids_room [OF cap(1) _ n] assms obtain ids' where
          N: "nr = Inr (cap, ids')" "h4 = ?h3" "distinct ids'" "set ids' = set (b_ids b) \<union> set ids"
            "length ids' \<le> length (b_ids b) + length ids" by (auto simp: buf_inv_def)
        have "r = Inr (Inr (), b\<lparr>b_ids := ids', b_cap := cap\<rparr>)" "h' = ?h3"
          using m nz p \<open>pr = Inr ids\<close> v Inr Done n N by (auto simp: buffer_map_def op_eqs)
        with m N V P assms cap show ?thesis
          by (auto simp: tracks_def buf_inv_def op_simps ids)
      qed
    qed
  qed
qed

lemma buffer_unmap_tracks:
  assumes "buf_inv b h"
  shows "tracks b h (buffer_unmap K b targets h) (\<lambda>S. S - set targets)"
proof -
  obtain r h' where m: "buffer_unmap K b targets h = (r, h')" by fastforce
  have nz: "b_handle b \<noteq> 0" using assms by (simp add: buf_inv_def)
  obtain pr h1 where p: "push_all K 4 8 [] targets h = (pr, h1)" by fastforce
  note P = push_all_cases [OF p]
  show ?thesis
  proof (cases pr)
    case (Inl e)
    with m nz p P assms show ?thesis by (auto simp: buffer_unmap_def op_eqs tracks_def buf_inv_def)
  next
    case (Inr ids)
    with P have ids: "ids = targets" by auto
    show ?thesis
    proof (cases "K h1 (UnmapMemory (b_handle b) ids)")
      case (Failed e)
      with m nz p P Inr assms show ?thesis
        by (auto simp: buffer_unmap_def op_eqs op_simps tracks_def buf_inv_def)
    next
      case (Done out)
      let ?new = "foldl (\<lambda>m x. remove_first (\<lambda>y. y = x) m) (b_ids b) ids"
      have "r = Inr (Inr (), b\<lparr>b_ids := ?new\<rparr>)" "h' = h1 @ [(UnmapMemory (b_handle b) ids, Done out)]"
        using m nz p Inr Done by (auto simp: buffer_unmap_def op_eqs)
      with m P assms unmap_ids [of "b_ids b" ids] show ?thesis
        by (auto simp: tracks_def buf_inv_def op_simps ids simp del: foldl_Cons)
    qed
  qed
qed

section \<open>The life of a buffer\<close>

datatype map_op = MapOn "u32 list" | UnmapFrom "u32 list"

text \<open>A client's calls on a buffer, in order; their errors do not stop the client.\<close>

fun buffer_run :: "kernel \<Rightarrow> map_op list \<Rightarrow> buffer \<Rightarrow> buffer op" where
  "buffer_run K [] b = op_ret b"
| "buffer_run K (MapOn ts # ops) b = op_try (buffer_map K b ts) (\<lambda>(_, b'). buffer_run K ops b')"
| "buffer_run K (UnmapFrom ts # ops) b = op_try (buffer_unmap K b ts) (\<lambda>(_, b'). buffer_run K ops b')"

lemma buffer_run_inv:
  "buf_inv b h \<Longrightarrow>
   \<exists>b' h'. buffer_run K ops b h = (Inr b', h') \<and> buf_inv b' h' \<and> b_handle b' = b_handle b \<and>
     b_mapping b' = b_mapping b \<and> vm h' = vm h \<and> gpu_objects h' = gpu_objects h"
proof (induction ops arbitrary: b h)
  case Nil
  then show ?case by (simp add: op_simps)
next
  case (Cons o1 ops)
  have step: "\<exists>b1 h1. buffer_run K (o1 # ops) b h = buffer_run K ops b1 h1 \<and> buf_inv b1 h1 \<and>
      b_handle b1 = b_handle b \<and> b_mapping b1 = b_mapping b \<and> vm h1 = vm h \<and> gpu_objects h1 = gpu_objects h"
  proof (cases o1)
    case (MapOn ts)
    then show ?thesis using tracksD [OF buffer_map_tracks [OF Cons.prems, of K ts]]
      by (fastforce simp: op_try_def)
  next
    case (UnmapFrom ts)
    then show ?thesis using tracksD [OF buffer_unmap_tracks [OF Cons.prems, of K ts]]
      by (fastforce simp: op_try_def)
  qed
  then show ?case using Cons.IH by metis
qed

text \<open>
  Destruction unmaps exactly the mapped devices before it frees the object: when the object is
  freed, no device maps it.
\<close>

lemma buffer_drop_releases:
  assumes "buf_inv b h" and "rg_addr (b_mapping b) \<noteq> 0" and "buffer_drop K b h = (Inr u, h')"
  shows "gpu_objects h' = gpu_objects h - {b_handle b} \<and> vm h' = vm h - region_bytes (b_mapping b) \<and>
     (\<exists>h1 xs t. h' = h1 @ (FreeMemory (b_handle b), Done xs) # t \<and> gpu_maps (b_handle b) h1 = {})"
proof -
  have nz: "b_handle b \<noteq> 0" and ids: "set (b_ids b) = gpu_maps (b_handle b) h" using assms(1) by (auto simp: buf_inv_def)
  let ?f = "FreeMemory (b_handle b)"
  obtain h1 where h1: "vm h1 = vm h" "gpu_objects h1 = gpu_objects h" "gpu_maps (b_handle b) h1 = {}"
    and rest: "op_try (op_assert (sys K ?f) (op_ret (b\<lparr>b_handle := 0\<rparr>)))
        (\<lambda>b'. region_destroy K (b_mapping b')) h1 = (Inr u, h')"
  proof (cases "b_ids b = []")
    case True
    then show ?thesis using that [of h] assms(3) nz ids by (simp add: buffer_drop_def buffer_destroy_def)
  next
    case False
    then obtain xs where "K h (UnmapMemory (b_handle b) (b_ids b)) = Done xs"
      using assms(3) nz by (auto simp: buffer_drop_def buffer_destroy_def op_eqs)
    then show ?thesis using that [of "h @ [(UnmapMemory (b_handle b) (b_ids b), Done xs)]"] False assms(3) nz ids
      by (auto simp: buffer_drop_def buffer_destroy_def op_simps op_try_def op_assert_def sys_def)
  qed
  from rest obtain xs where f: "K h1 ?f = Done xs"
    and d: "region_destroy K (b_mapping b) (h1 @ [(?f, Done xs)]) = (Inr u, h')"
    by (auto simp: op_eqs)
  obtain t where "h' = (h1 @ [(?f, Done xs)]) @ t" using d by (auto simp: region_destroy_def op_eqs split: if_splits)
  then have "\<exists>h1 xs t. h' = h1 @ (?f, Done xs) # t \<and> gpu_maps (b_handle b) h1 = {}" using h1(3) by auto
  with region_destroy_ok [OF d assms(2)] h1(1,2) show ?thesis by (simp add: op_simps)
qed

text \<open>
  C18. Whatever a client maps and unmaps in between and whichever of those calls fail, a buffer
  that is allocated and destroyed leaves the address space and the memory objects as they were,
  and its object is freed only when no device maps it any more.
\<close>

theorem buffer_lifecycle_leaves_nothing:
  assumes "mmap_contract K" and "alloc_contract K"
    and "buffer_allocate K page d sz type flags 0 h = (Inr b, h1)"
    and "op_try (buffer_run K ops b) (buffer_drop K) h1 = (Inr u, h2)"
  shows "vm h2 = vm h \<and> gpu_objects h2 = gpu_objects h \<and>
     (\<exists>h3 xs t. h2 = h3 @ (FreeMemory (b_handle b), Done xs) # t \<and> gpu_maps (b_handle b) h3 = {})"
proof -
  from buffer_allocation [OF assms(1-3)] have a: "allocated h h1 b" by simp
  then have inv: "buf_inv b h1" by (simp add: allocated_def buf_inv_def)
  obtain b' h' where r: "buffer_run K ops b h1 = (Inr b', h')" "buf_inv b' h'" "b_handle b' = b_handle b"
    "b_mapping b' = b_mapping b" "vm h' = vm h1" "gpu_objects h' = gpu_objects h1"
    using buffer_run_inv [OF inv] by blast
  then have d: "buffer_drop K b' h' = (Inr u, h2)" using assms(4) by (simp add: op_try_def)
  have "rg_addr (b_mapping b') \<noteq> 0" using a r(4) by (simp add: allocated_def)
  from buffer_drop_releases [OF r(2) this d] a r(3-6) show ?thesis by (auto simp: allocated_def)
qed

definition demo_buffer :: buffer where
  "demo_buffer = \<lparr>b_len = 0x1000, b_handle = 7, b_mapping = \<lparr>rg_addr = 0x12345000, rg_len = 0x1000\<rparr>,
     b_ids = [], b_cap = 2, b_owner = Some 1\<rparr>"

lemma demo_allocate:
  "\<exists>h1. buffer_allocate demo_kernel 0x1000 demo_dev 1 GTT MF_WRITABLE 0 [] = (Inr demo_buffer, h1) \<and>
     fst (op_try (buffer_run demo_kernel [MapOn [1, 2], UnmapFrom [1]] demo_buffer) (buffer_drop demo_kernel) h1)
       = Inr ()"
proof -
  have "fst (buffer_allocate demo_kernel 0x1000 demo_dev 1 GTT MF_WRITABLE 0 []) = Inr demo_buffer"
    "fst (op_try (buffer_run demo_kernel [MapOn [1, 2], UnmapFrom [1]] demo_buffer) (buffer_drop demo_kernel)
       (snd (buffer_allocate demo_kernel 0x1000 demo_dev 1 GTT MF_WRITABLE 0 []))) = Inr ()"
    by code_simp+
  then show ?thesis by (metis prod.collapse)
qed

theorem buffer_allocate_all_or_nothing_witness:
  "\<exists>h1. buffer_allocate demo_kernel 0x1000 demo_dev 1 GTT MF_WRITABLE 0 [] = (Inr demo_buffer, h1) \<and>
     allocated [] h1 demo_buffer"
  using demo_allocate buffer_allocate_all_or_nothing [OF demo_kernel_contract demo_alloc_contract]
  by fastforce

theorem buffer_lifecycle_leaves_nothing_witness:
  "\<exists>h2. vm h2 = vm [] \<and> gpu_objects h2 = gpu_objects [] \<and>
     (\<exists>h3 xs t. h2 = h3 @ (FreeMemory 7, Done xs) # t \<and> gpu_maps 7 h3 = {})"
proof -
  obtain h1 where a: "buffer_allocate demo_kernel 0x1000 demo_dev 1 GTT MF_WRITABLE 0 [] = (Inr demo_buffer, h1)"
    and f: "fst (op_try (buffer_run demo_kernel [MapOn [1, 2], UnmapFrom [1]] demo_buffer)
        (buffer_drop demo_kernel) h1) = Inr ()" using demo_allocate by blast
  obtain h2 where "op_try (buffer_run demo_kernel [MapOn [1, 2], UnmapFrom [1]] demo_buffer)
      (buffer_drop demo_kernel) h1 = (Inr (), h2)" using f by (metis prod.collapse)
  from buffer_lifecycle_leaves_nothing [OF demo_kernel_contract demo_alloc_contract a this]
  show ?thesis by (auto simp: demo_buffer_def)
qed

end
