(* ===== verification/Loader.thy ===== *)
theory Loader
  imports Elf Elf_Target Abi
begin

text \<open>
  \<^verbatim>\<open>loader.h\<close> and \<^verbatim>\<open>lib/loader.cpp\<close>: the checks on a code object, the copy of its
  segments into the staging buffer, the relocations, and the lookup of symbols and kernels in the
  loaded executable. The staging buffer is a byte list of the footprint; a store outside it is
  \<open>UB\<close>. The transfer to the device at the end of \<^verbatim>\<open>Executable::load\<close> is queue work and is
  part of \<open>Loading\<close>.
\<close>

section \<open>Checks\<close>

definition EM_AMDGPU :: u16 where "EM_AMDGPU = 224"
definition EI_ABIVERSION :: nat where "EI_ABIVERSION = 8"
definition ELFABIVERSION_AMDGPU_HSA_V5 :: u8 where "ELFABIVERSION_AMDGPU_HSA_V5 = 3"

text \<open>What the loader reads from the device and its context.\<close>

record load_dev =
  ld_gfx :: u32
  ld_sramecc :: bool
  ld_xnack :: bool

definition loadable :: "load_dev \<Rightarrow> u64 \<Rightarrow> bytes \<Rightarrow> bool" where
  "loadable d addr obj =
     (case elf_create addr obj of
        Inl _ \<Rightarrow> False
      | Inr img \<Rightarrow>
          (case elf_header img of
             Inl _ \<Rightarrow> False
           | Inr h \<Rightarrow>
               if e_machine h \<noteq> EM_AMDGPU then False
               else if e_ident h ! EI_ABIVERSION < ELFABIVERSION_AMDGPU_HSA_V5 then False
               else is_compatible (e_flags h) (ld_gfx d) (ld_xnack d) (ld_sramecc d)))"

text \<open>The part of \<^verbatim>\<open>Executable::load\<close> before the allocations: image, extent and footprint.\<close>

definition load_checks :: "u64 \<Rightarrow> load_dev \<Rightarrow> u64 \<Rightarrow> bytes \<Rightarrow> (bytes \<times> u64 \<times> u64 \<times> u64) res" where
  "load_checks page d addr obj =
     kfd_try (elf_create addr obj) (\<lambda>img. kfd_try (elf_header img) (\<lambda>h.
     fail_if (e_machine h \<noteq> EM_AMDGPU) ENOEXEC (
     fail_if (e_ident h ! EI_ABIVERSION < ELFABIVERSION_AMDGPU_HSA_V5) ENOEXEC (
     fail_if (\<not> is_compatible (e_flags h) (ld_gfx d) (ld_xnack d) (ld_sramecc d)) ENOEXEC (
     kfd_try (load_extent img) (\<lambda>(lo, hi, align0).
       let max_align = (if align0 > page then align0 else page);
           footprint = align_up (hi - lo) max_align
       in fail_if (footprint > 0xffffffff) EFBIG (Inr (img, lo, hi, footprint))))))))"

section \<open>Staging\<close>

fun copy_segments :: "bytes \<Rightarrow> u64 \<Rightarrow> u64 \<Rightarrow> elf_phdr list \<Rightarrow> bytes \<Rightarrow> bytes res" where
  "copy_segments img lo footprint [] staging = Inr staging"
| "copy_segments img lo footprint (ph # phs) staging =
     (if p_type ph \<noteq> PT_LOAD \<or> p_filesz ph = 0 then copy_segments img lo footprint phs staging
      else kfd_try (segment_data img ph) (\<lambda>seg.
           let off = p_vaddr ph - lo
           in fail_if (off + p_filesz ph > footprint) ERANGE (
              kfd_try (mem_write staging (unat off) seg) (\<lambda>st. copy_segments img lo footprint phs st))))"

section \<open>Relocations\<close>

definition PT_DYNAMIC :: u32 where "PT_DYNAMIC = 2"
definition DT_NULL :: u64 where "DT_NULL = 0"
definition DT_RELA :: u64 where "DT_RELA = 7"
definition DT_RELASZ :: u64 where "DT_RELASZ = 8"
definition R_AMDGPU_RELATIVE64 :: u32 where "R_AMDGPU_RELATIVE64 = 13"

fun scan_dyns :: "elf_dyn list \<Rightarrow> u64 \<Rightarrow> u64 \<Rightarrow> u64 \<times> u64" where
  "scan_dyns [] rela_ptr rela_size = (rela_ptr, rela_size)"
| "scan_dyns (d # ds) rela_ptr rela_size =
     (if d_tag d = DT_NULL then (rela_ptr, rela_size)
      else if d_tag d = DT_RELA then scan_dyns ds (d_val d) rela_size
      else if d_tag d = DT_RELASZ then scan_dyns ds rela_ptr (d_val d)
      else scan_dyns ds rela_ptr rela_size)"

text \<open>One relocation; the table is read from the staging buffer that is being patched.\<close>

definition relocate_one :: "u64 \<Rightarrow> u64 \<Rightarrow> u64 \<Rightarrow> elf_rela \<Rightarrow> bytes \<Rightarrow> bytes res" where
  "relocate_one lo footprint bias rel staging =
     (if rela_type rel = R_AMDGPU_RELATIVE64
      then let value = bias + r_addend rel
           in if r_offset rel < lo then Inr staging
              else let off = r_offset rel - lo
                   in if off + 8 \<le> footprint then mem_write staging (unat off) (le_bytes 8 value)
                      else Inr staging
      else Inr staging)"

fun reloc_loop :: "u64 \<Rightarrow> u64 \<Rightarrow> u64 \<Rightarrow> nat \<Rightarrow> nat \<Rightarrow> bytes \<Rightarrow> bytes res" where
  "reloc_loop lo footprint bias at_off 0 staging = Inr staging"
| "reloc_loop lo footprint bias at_off (Suc n) staging =
     kfd_try (rd_struct rela_of sizeof_Rela staging at_off) (\<lambda>rel.
     kfd_try (relocate_one lo footprint bias rel staging) (\<lambda>st.
     reloc_loop lo footprint bias (at_off + sizeof_Rela) n st))"

definition apply_rela :: "u64 \<Rightarrow> u64 \<Rightarrow> u64 \<Rightarrow> u64 \<Rightarrow> u64 \<Rightarrow> bytes \<Rightarrow> bytes res" where
  "apply_rela lo footprint bias rela_ptr rela_size staging =
     (if rela_ptr \<noteq> 0 \<and> rela_size \<noteq> 0
      then fail_if (rela_ptr < lo \<or> rela_ptr - lo > footprint \<or> rela_size > footprint - (rela_ptr - lo)) ERANGE (
           reloc_loop lo footprint bias (unat (rela_ptr - lo)) (unat rela_size div sizeof_Rela) staging)
      else Inr staging)"

fun relocate_image :: "bytes \<Rightarrow> u64 \<Rightarrow> u64 \<Rightarrow> u64 \<Rightarrow> elf_phdr list \<Rightarrow> bytes \<Rightarrow> bytes res" where
  "relocate_image img lo footprint bias [] staging = Inr staging"
| "relocate_image img lo footprint bias (ph # phs) staging =
     (if p_type ph \<noteq> PT_DYNAMIC then relocate_image img lo footprint bias phs staging
      else kfd_try (segment_data img ph) (\<lambda>dyn_data.
           kfd_try (rd_array dyn_of sizeof_Dyn dyn_data 0 (length dyn_data div sizeof_Dyn)) (\<lambda>dyns.
           case scan_dyns dyns 0 0 of (rela_ptr, rela_size) \<Rightarrow>
             apply_rela lo footprint bias rela_ptr rela_size staging)))"

text \<open>The whole contents of the staging buffer for an image loaded at \<open>img_addr\<close>.\<close>

definition stage_image :: "bytes \<Rightarrow> u64 \<Rightarrow> u64 \<Rightarrow> u64 \<Rightarrow> bytes res" where
  "stage_image img lo footprint img_addr =
     kfd_try (phdrs img) (\<lambda>phs.
     kfd_try (copy_segments img lo footprint phs (replicate (unat footprint) 0)) (\<lambda>st.
     relocate_image img lo footprint (img_addr - lo) phs st))"

section \<open>The loaded executable\<close>

record executable =
  ex_elf :: bytes
  ex_addr :: u64
  ex_size :: u64
  ex_base :: u64

text \<open>The address and size of a symbol on the device.\<close>

definition exec_symbol :: "executable \<Rightarrow> bytes \<Rightarrow> (u64 \<times> u64) res" where
  "exec_symbol ex name = kfd_try (find_symbol (ex_elf ex) name) (\<lambda>r.
     case r of None \<Rightarrow> Inl ENOENT
     | Some s \<Rightarrow>
         fail_if (st_value s < ex_base ex) ERANGE (
         let off = st_value s - ex_base ex
         in fail_if (off > ex_size ex \<or> st_size s > ex_size ex - off) ERANGE (
            Inr (ex_addr ex + off, st_size s))))"

definition STT_OBJECT :: u8 where "STT_OBJECT = 1"

definition ends_with :: "bytes \<Rightarrow> bytes \<Rightarrow> bool" where
  "ends_with s suffix \<longleftrightarrow> length suffix \<le> length s \<and> drop (length s - length suffix) s = suffix"

definition kd_suffix :: bytes where "kd_suffix = [0x2e, 0x6b, 0x64]"

record kernel_object =
  ko_kd :: kernel_descriptor
  ko_entry :: u64

text \<open>The sum of two signed 64-bit integers, undefined when it leaves their range.\<close>

definition add_int64 :: "u64 \<Rightarrow> u64 \<Rightarrow> u64 res" where
  "add_int64 a b =
     (if - (2 ^ 63) \<le> sint a + sint b \<and> sint a + sint b < 2 ^ 63 then Inr (a + b) else Inl UB)"

definition exec_kernel :: "executable \<Rightarrow> bytes \<Rightarrow> kernel_object res" where
  "exec_kernel ex name = kfd_try (find_symbol (ex_elf ex) name) (\<lambda>r.
     case r of None \<Rightarrow> Inl ENOENT
     | Some s \<Rightarrow>
         fail_if (unat (st_size s) < sizeof_KernelDescriptor) EINVAL (
         fail_if (sym_type s \<noteq> STT_OBJECT \<or> \<not> ends_with name kd_suffix) EINVAL (
         fail_if (st_value s < ex_base ex) ERANGE (
         let kd_off = st_value s - ex_base ex
         in fail_if (kd_off > ex_size ex \<or> st_size s > ex_size ex - kd_off) ERANGE (
            kfd_try (symbol_address (ex_elf ex) s) (\<lambda>descriptor.
            kfd_try (read_kernel_descriptor (ex_elf ex) descriptor) (\<lambda>kd.
            kfd_try (add_int64 (kernel_code_entry_byte_offset kd) kd_off) (\<lambda>entry_off.
            fail_if (sint entry_off < 0 \<or> entry_off \<ge> ex_size ex) ERANGE (
            Inr \<lparr>ko_kd = kd, ko_entry = ex_addr ex + entry_off\<rparr>)))))))))"

section \<open>Kernel arguments\<close>

text \<open>\<^verbatim>\<open>Kernel::fill\<close> on the bytes of the kernarg buffer.\<close>

definition kernel_fill :: "kernel_descriptor \<Rightarrow> bytes \<Rightarrow> bytes \<Rightarrow> dispatch_config \<Rightarrow> bytes res" where
  "kernel_fill kd buf explicit_args cfg =
     (let total = kernarg_alloc_size (kernarg_size kd)
      in kfd_try (mem_write buf 0 (replicate (unat total) 0)) (\<lambda>b.
         kfd_try (if explicit_args \<noteq> []
                  then mem_write b 0 (take (min (length explicit_args) (unat total)) explicit_args)
                  else Inr b) (\<lambda>b'.
         fill_implicit_args b' (of_nat (length explicit_args)) kd cfg)))"

section \<open>Copying the segments\<close>

definition copied :: "elf_phdr \<Rightarrow> bool" where
  "copied ph \<longleftrightarrow> p_type ph = PT_LOAD \<and> p_filesz ph \<noteq> 0"

definition segment_store :: "bytes \<Rightarrow> u64 \<Rightarrow> elf_phdr \<Rightarrow> nat \<times> bytes" where
  "segment_store img lo ph = (unat (p_vaddr ph - lo), peek img (unat (p_offset ph)) (unat (p_filesz ph)))"

lemma copy_segments_stores:
  "copy_segments img lo footprint phs staging = Inr st \<Longrightarrow>
   write_all staging (map (segment_store img lo) (filter copied phs)) = Inr st"
proof (induction phs arbitrary: staging)
  case Nil
  then show ?case by simp
next
  case (Cons ph phs)
  then show ?case
    by (auto simp: copied_def res_simps segment_data_def not_outside mem_read_ok Let_def segment_store_def
        split: if_splits)
qed

text \<open>The extent of the image bounds every segment, so the guard against the footprint is exact.\<close>

lemma extent_bounds:
  assumes "extent_loop phs l h a = Inr (lo, hi, al)" and "ph \<in> set (loads phs)"
  shows "unat lo \<le> unat (p_vaddr ph)" and "unat (p_vaddr ph) + unat (p_memsz ph) \<le> unat hi"
  using extent_loop_value [OF assms(1)] assms(2) by auto

lemma copy_segments_no_ub:
  assumes "\<forall>ph\<in>set (loads phs). unat lo \<le> unat (p_vaddr ph) \<and> unat (p_vaddr ph) - unat lo \<le> unat footprint"
    and "unat footprint < 2 ^ 32" and "length img < 2 ^ 63" and "length staging = unat footprint"
  shows "copy_segments img lo footprint phs staging \<noteq> Inl UB"
  using assms(1,4)
proof (induction phs arbitrary: staging)
  case Nil
  then show ?case by simp
next
  case (Cons ph phs)
  have rest: "\<forall>ph\<in>set (loads phs). unat lo \<le> unat (p_vaddr ph) \<and> unat (p_vaddr ph) - unat lo \<le> unat footprint"
    using Cons.prems by (auto simp: loads_def)
  show ?case
  proof (cases "copied ph \<and> \<not> outside (p_offset ph) (p_filesz ph) (length img)")
    case False
    then show ?thesis using Cons.IH [OF rest Cons.prems(2)]
      by (auto simp: copied_def segment_data_def kfd_try_eq_Inl fail_if_eq_Inl)
  next
    case True
    let ?off = "p_vaddr ph - lo"
    have ph: "unat lo \<le> unat (p_vaddr ph)" "unat (p_vaddr ph) - unat lo \<le> unat footprint"
      using Cons.prems(1) True by (auto simp: loads_def copied_def)
    have off: "unat ?off = unat (p_vaddr ph) - unat lo" using ph(1) by (rule unat_sub_no_wrap)
    have sz: "unat (p_offset ph) + unat (p_filesz ph) \<le> length img" using True by (simp add: not_outside)
    have "unat ?off + unat (p_filesz ph) < 2 ^ 64" using off ph(2) sz assms(2,3) by simp
    then have sum: "unat (?off + p_filesz ph) = unat ?off + unat (p_filesz ph)"
      by (intro unat_add_no_wrap) simp
    have "copy_segments img lo footprint phs st \<noteq> Inl UB"
      if "mem_write staging (unat ?off) (peek img (unat (p_offset ph)) (unat (p_filesz ph))) = Inr st" for st
      using Cons.IH [OF rest] mem_write_length [OF that] Cons.prems(2) by simp
    moreover have "mem_write staging (unat ?off) (peek img (unat (p_offset ph)) (unat (p_filesz ph))) \<noteq> Inl UB"
      if "\<not> ?off + p_filesz ph > footprint"
      using that sum sz Cons.prems(2) by (simp add: mem_write_def word_less_nat_alt not_less)
    ultimately show ?thesis
      using True sz
      by (auto simp: copied_def segment_data_def kfd_try_eq_Inl fail_if_eq_Inl mem_read_ok Let_def)
  qed
qed

section \<open>Applying the relocations\<close>

definition reloc_target :: "u64 \<Rightarrow> u64 \<Rightarrow> elf_rela \<Rightarrow> bool" where
  "reloc_target lo footprint rel \<longleftrightarrow> rela_type rel = R_AMDGPU_RELATIVE64 \<and> lo \<le> r_offset rel \<and>
     unat (r_offset rel - lo) + 8 \<le> unat footprint"

definition reloc_store :: "u64 \<Rightarrow> u64 \<Rightarrow> elf_rela \<Rightarrow> nat \<times> bytes" where
  "reloc_store lo bias rel = (unat (r_offset rel - lo), le_bytes 8 (bias + r_addend rel))"

text \<open>The addition in the guard wraps for an offset in the last eight bytes of the address space.\<close>

definition reloc_wraps :: "u64 \<Rightarrow> elf_rela \<Rightarrow> bool" where
  "reloc_wraps lo rel \<longleftrightarrow> lo \<le> r_offset rel \<and> unat (r_offset rel - lo) + 8 \<ge> 2 ^ 64"

definition rela_table :: "bytes \<Rightarrow> nat \<Rightarrow> nat \<Rightarrow> elf_rela list" where
  "rela_table st off n = map (\<lambda>i. rela_of (peek st (off + sizeof_Rela * i) sizeof_Rela)) [0..<n]"

lemma relocate_one_eq:
  assumes "\<not> reloc_wraps lo rel" and "length st = unat footprint"
  shows "relocate_one lo footprint bias rel st =
     (if reloc_target lo footprint rel then write_all st [reloc_store lo bias rel] else Inr st)"
proof -
  have "unat (r_offset rel - lo + 8) = unat (r_offset rel - lo) + 8" if "lo \<le> r_offset rel"
    using assms(1) that by (subst unat_add_no_wrap) (simp_all add: reloc_wraps_def)
  then show ?thesis
    by (cases "lo \<le> r_offset rel")
       (auto simp: relocate_one_def reloc_target_def reloc_store_def Let_def word_le_nat_alt word_less_nat_alt
        kfd_try_def split: sum.splits)
qed

lemma relocate_one_no_ub:
  assumes "\<not> reloc_wraps lo rel" and "length st = unat footprint"
  shows "\<exists>st'. relocate_one lo footprint bias rel st = Inr st' \<and> length st' = unat footprint"
proof (cases "reloc_target lo footprint rel")
  case True
  then have "\<forall>w\<in>set [reloc_store lo bias rel]. fst w + length (snd w) \<le> length st"
    using assms(2) by (simp add: reloc_store_def reloc_target_def)
  from write_all_defined [OF this] show ?thesis
    using True write_all_length assms(2) by (metis relocate_one_eq [OF assms])
next
  case False
  then show ?thesis using assms by (simp add: relocate_one_eq)
qed

lemma high_base_never_wraps: "8 \<le> unat lo \<Longrightarrow> \<not> reloc_wraps lo rel"
proof
  assume lo: "8 \<le> unat lo" and w: "reloc_wraps lo rel"
  then have "unat (r_offset rel - lo) = unat (r_offset rel) - unat lo"
    by (intro unat_sub_no_wrap) (simp add: reloc_wraps_def word_le_nat_alt)
  moreover have "2 ^ 64 \<le> unat (r_offset rel - lo) + 8" using w by (simp add: reloc_wraps_def)
  moreover have "(8 :: nat) < 2 ^ 64" by simp
  ultimately show False using lo unat64_less [of "r_offset rel"] by linarith
qed

lemma reloc_loop_no_ub:
  assumes "8 \<le> unat lo"
  shows "length st = unat footprint \<Longrightarrow> off + sizeof_Rela * n \<le> length st \<Longrightarrow>
    \<exists>st'. reloc_loop lo footprint bias off n st = Inr st' \<and> length st' = length st"
proof (induction n arbitrary: off st)
  case 0
  then show ?case by simp
next
  case (Suc n)
  have rd: "rd_struct rela_of sizeof_Rela st off = Inr (rela_of (peek st off sizeof_Rela))"
    using Suc.prems by (intro rd_struct_ok) simp
  obtain st1 where s: "relocate_one lo footprint bias (rela_of (peek st off sizeof_Rela)) st = Inr st1"
    "length st1 = unat footprint"
    using relocate_one_no_ub [OF high_base_never_wraps [OF assms] Suc.prems(1)] by blast
  from Suc.IH [of st1 "off + sizeof_Rela"] Suc.prems s show ?case by (auto simp: rd)
qed

lemma apply_rela_no_ub:
  assumes "8 \<le> unat lo" and "length st = unat footprint"
  shows "apply_rela lo footprint bias rela_ptr rela_size st \<noteq> Inl UB"
proof (cases "rela_ptr < lo \<or> rela_ptr - lo > footprint \<or> rela_size > footprint - (rela_ptr - lo)")
  case True
  then show ?thesis by (simp add: apply_rela_def)
next
  case False
  then have le: "unat (rela_ptr - lo) \<le> unat footprint" by (simp only: not_less word_le_nat_alt de_Morgan_disj)
  then have "unat (footprint - (rela_ptr - lo)) = unat footprint - unat (rela_ptr - lo)"
    by (rule unat_sub_no_wrap)
  then have "unat rela_size \<le> unat footprint - unat (rela_ptr - lo)"
    using False by (simp add: word_less_nat_alt not_less)
  then have "unat (rela_ptr - lo) + unat rela_size \<le> length st" using le assms(2) by linarith
  moreover have "sizeof_Rela * (unat rela_size div sizeof_Rela) \<le> unat rela_size" by simp
  ultimately have "unat (rela_ptr - lo) + sizeof_Rela * (unat rela_size div sizeof_Rela) \<le> length st" by linarith
  from reloc_loop_no_ub [OF assms this, of bias] show ?thesis by (auto simp: apply_rela_def fail_if_eq_Inl)
qed

text \<open>
  A table that no relocation targets reads the same throughout the loop: the loop is then the
  sequence of its stores.
\<close>

definition reloc_stores :: "u64 \<Rightarrow> u64 \<Rightarrow> u64 \<Rightarrow> elf_rela list \<Rightarrow> (nat \<times> bytes) list" where
  "reloc_stores lo footprint bias rels = map (reloc_store lo bias) (filter (reloc_target lo footprint) rels)"

lemma rela_table_Suc:
  "rela_table st off (Suc n) = rela_of (peek st off sizeof_Rela) # rela_table st (off + sizeof_Rela) n"
  by (simp add: rela_table_def upt_conv_Cons map_Suc_upt [symmetric] add.assoc del: upt_Suc)

lemma rela_table_same:
  assumes "length st' = length st" and "off + sizeof_Rela * n \<le> length st"
    and "\<And>k. off \<le> k \<Longrightarrow> k < off + sizeof_Rela * n \<Longrightarrow> st' ! k = st ! k"
  shows "rela_table st' off n = rela_table st off n"
proof -
  have "peek st' (off + sizeof_Rela * i) sizeof_Rela = peek st (off + sizeof_Rela * i) sizeof_Rela" if "i < n" for i
  proof (rule peek_eqI [OF _ assms(1)])
    have "sizeof_Rela * Suc i \<le> sizeof_Rela * n" using that by (intro mult_le_mono2) simp
    then have b: "off + sizeof_Rela * i + sizeof_Rela \<le> off + sizeof_Rela * n" by simp
    then show "off + sizeof_Rela * i + sizeof_Rela \<le> length st" using assms(2) by linarith
    fix k assume "k < sizeof_Rela"
    then show "st' ! (off + sizeof_Rela * i + k) = st ! (off + sizeof_Rela * i + k)"
      using b by (intro assms(3)) linarith+
  qed
  then show ?thesis by (simp add: rela_table_def)
qed

lemma reloc_loop_stores:
  assumes "length st = unat footprint" and "off + sizeof_Rela * n \<le> length st"
    and "\<forall>rel\<in>set (rela_table st off n). \<not> reloc_wraps lo rel"
    and "\<forall>w\<in>set (reloc_stores lo footprint bias (rela_table st off n)).
           fst w + length (snd w) \<le> off \<or> off + sizeof_Rela * n \<le> fst w"
  shows "reloc_loop lo footprint bias off n st =
    write_all st (reloc_stores lo footprint bias (rela_table st off n))"
  using assms
proof (induction n arbitrary: off st)
  case 0
  then show ?case by (simp add: rela_table_def reloc_stores_def)
next
  case (Suc n)
  let ?rel = "rela_of (peek st off sizeof_Rela)" and ?off = "off + sizeof_Rela"
  let ?tail = "rela_table st ?off n"
  have tab: "rela_table st off (Suc n) = ?rel # ?tail" by (rule rela_table_Suc)
  have rd: "rd_struct rela_of sizeof_Rela st off = Inr ?rel" using Suc.prems(2) by (intro rd_struct_ok) simp
  have nw: "\<not> reloc_wraps lo ?rel" using Suc.prems(3) by (simp add: tab)
  obtain st1 where one: "relocate_one lo footprint bias ?rel st = Inr st1" and len: "length st1 = unat footprint"
    using relocate_one_no_ub [OF nw Suc.prems(1)] by blast
  have w1: "write_all st (reloc_stores lo footprint bias [?rel]) = Inr st1"
    using one by (simp add: relocate_one_eq [OF nw Suc.prems(1)] reloc_stores_def split: if_splits)
  have same: "rela_table st1 ?off n = ?tail"
  proof (rule rela_table_same)
    show "length st1 = length st" using len Suc.prems(1) by simp
    show "?off + sizeof_Rela * n \<le> length st" using Suc.prems(2) by simp
    fix k assume k: "?off \<le> k" "k < ?off + sizeof_Rela * n"
    show "st1 ! k = st ! k"
    proof (rule write_all_untouched [OF w1])
      show "k < length st" using k Suc.prems(2) by simp
      show "\<forall>w\<in>set (reloc_stores lo footprint bias [?rel]). \<not> touches w k"
      proof
        fix w assume "w \<in> set (reloc_stores lo footprint bias [?rel])"
        then have "w \<in> set (reloc_stores lo footprint bias (rela_table st off (Suc n)))"
          by (auto simp: tab reloc_stores_def)
        then have "fst w + length (snd w) \<le> off \<or> off + sizeof_Rela * Suc n \<le> fst w"
          using Suc.prems(4) by blast
        with k show "\<not> touches w k" by (auto simp: touches_def)
      qed
    qed
  qed
  have "reloc_loop lo footprint bias ?off n st1 = write_all st1 (reloc_stores lo footprint bias (rela_table st1 ?off n))"
  proof (rule Suc.IH [OF len])
    show "?off + sizeof_Rela * n \<le> length st1" using Suc.prems(1,2) len by simp
    show "\<forall>rel\<in>set (rela_table st1 ?off n). \<not> reloc_wraps lo rel" using Suc.prems(3) by (simp add: tab same)
    show "\<forall>w\<in>set (reloc_stores lo footprint bias (rela_table st1 ?off n)).
        fst w + length (snd w) \<le> ?off \<or> ?off + sizeof_Rela * n \<le> fst w"
    proof
      fix w assume "w \<in> set (reloc_stores lo footprint bias (rela_table st1 ?off n))"
      then have "w \<in> set (reloc_stores lo footprint bias (rela_table st off (Suc n)))"
        by (auto simp: tab same reloc_stores_def)
      then have "fst w + length (snd w) \<le> off \<or> off + sizeof_Rela * Suc n \<le> fst w"
        using Suc.prems(4) by blast
      then show "fst w + length (snd w) \<le> ?off \<or> ?off + sizeof_Rela * n \<le> fst w" by auto
    qed
  qed
  moreover have "write_all st (reloc_stores lo footprint bias (?rel # ?tail)) =
      write_all st1 (reloc_stores lo footprint bias ?tail)"
    using w1 write_all_append [of st "reloc_stores lo footprint bias [?rel]" "reloc_stores lo footprint bias ?tail"]
    by (simp add: reloc_stores_def split: if_splits)
  ultimately show ?case by (simp add: rd one tab same)
qed

lemma relocate_image_no_ub:
  assumes "8 \<le> unat lo \<or> (\<forall>ph\<in>set phs. p_type ph \<noteq> PT_DYNAMIC)" and "length st = unat footprint"
  shows "relocate_image img lo footprint bias phs st \<noteq> Inl UB"
  using assms
proof (induction phs)
  case Nil
  then show ?case by simp
next
  case (Cons ph phs)
  have "rd_array dyn_of sizeof_Dyn dd 0 (length dd div sizeof_Dyn) =
      Inr (map (\<lambda>i. dyn_of (peek dd (0 + sizeof_Dyn * i) sizeof_Dyn)) [0..<length dd div sizeof_Dyn])" for dd :: bytes
    by (rule rd_array_ok) simp
  then show ?case
    using Cons apply_rela_no_ub [OF _ Cons.prems(2)]
    by (auto simp: kfd_try_eq_Inl segment_data_no_ub split: prod.splits)
qed

subsection \<open>The footprint\<close>

lemma align_up_ge:
  fixes v a :: "'a::len word"
  assumes "a \<noteq> 0" and "unat v + unat a \<le> 2 ^ LENGTH('a)"
  shows "unat v \<le> unat (align_up v a)"
proof -
  have a1: "unat (a - 1) = unat a - 1" and a0: "0 < unat a"
    using assms(1) by (simp_all add: unat_minus_one unat_gt_0)
  have e: "v + a - 1 = v + (a - 1)" by (rule add_diff_eq [symmetric])
  have sum: "unat (v + (a - 1)) = unat v + (unat a - 1)"
    using assms(2) a0 a1 by (subst unat_add_no_wrap) simp_all
  have "(v + (a - 1)) AND NOT (a - 1) = (v + (a - 1)) - ((v + (a - 1)) AND (a - 1))"
  proof -
    let ?x = "v + (a - 1)" and ?m = "a - 1"
    have "(?x AND ?m) AND (?x AND NOT ?m) = 0" "(?x AND ?m) OR (?x AND NOT ?m) = ?x"
      by (auto intro: bit_word_eqI simp: bit_simps)
    then have "(?x AND ?m) + (?x AND NOT ?m) = ?x" by (metis disjunctive_add_eq_or)
    then show ?thesis by (metis add_diff_cancel_left')
  qed
  moreover have "(v + (a - 1)) AND (a - 1) \<le> a - 1" by (rule word_and_le1)
  then have "unat ((v + (a - 1)) AND (a - 1)) \<le> unat a - 1" by (simp only: word_le_nat_alt a1)
  moreover have "unat ((v + (a - 1)) AND (a - 1)) \<le> unat (v + (a - 1))"
    by (metis word_and_le2 word_le_nat_alt)
  then have "unat ((v + (a - 1)) - ((v + (a - 1)) AND (a - 1))) =
      unat (v + (a - 1)) - unat ((v + (a - 1)) AND (a - 1))" by (rule unat_sub_no_wrap)
  ultimately have "unat v \<le> unat ((v + (a - 1)) AND NOT (a - 1))" using sum by simp
  then show ?thesis by (simp only: align_up_def e)
qed

section \<open>Properties\<close>


lemma demo_checks:
  assumes "elf_create addr demo_image = Inr demo_image"
  shows "load_checks 4096 \<lparr>ld_gfx = 110000, ld_sramecc = False, ld_xnack = False\<rparr> addr demo_image
      = Inr (demo_image, 0, 512, 4096)"
proof -
  have "elf_header demo_image = Inr (ehdr_of (peek demo_image 0 sizeof_Ehdr))"
    using elf_createD [OF demo_accepted] by (intro header_ok)
  moreover have "e_machine (ehdr_of (peek demo_image 0 sizeof_Ehdr)) = EM_AMDGPU"
    "\<not> e_ident (ehdr_of (peek demo_image 0 sizeof_Ehdr)) ! EI_ABIVERSION < ELFABIVERSION_AMDGPU_HSA_V5"
    "e_flags (ehdr_of (peek demo_image 0 sizeof_Ehdr)) = 0x41"
    by code_simp+
  moreover have "is_compatible 0x41 110000 False False" by code_simp
  moreover have "align_up (512 - 0) (if (4096 :: u64) > 4096 then 4096 else 4096) = (4096 :: u64)" by code_simp
  ultimately show ?thesis using assms demo_extent by (simp add: load_checks_def Let_def)
qed


section \<open>Why the premises are needed\<close>

text \<open>
  A relocation offset in the last eight bytes of the address space passes the guard of the code,
  and the store goes in front of the staging buffer.
\<close>


lemma unat_minus4: "unat (- 4 :: u64) = 2 ^ 64 - 4"
proof -
  have "(- 4 :: u64) = - 1 - 3" by simp
  moreover have "unat (- 1 - 3 :: u64) = unat (- 1 :: u64) - unat (3 :: u64)"
    by (rule unat_sub_no_wrap) (simp add: unat_max64)
  ultimately show ?thesis by (simp add: unat_max64)
qed

lemma crafted_relocation_escapes:
  "relocate_one 0 4096 0 \<lparr>r_offset = - 4, r_info = 13, r_addend = 0\<rparr> (replicate 4096 0) = Inl UB"
proof -
  have "- 4 + 8 \<le> (4096 :: u64)" "rela_type \<lparr>r_offset = - 4, r_info = 13, r_addend = 0\<rparr> = R_AMDGPU_RELATIVE64"
    by code_simp+
  then show ?thesis by (simp add: relocate_one_def mem_write_def unat_minus4)
qed

text \<open>
  An alignment that is no power of two makes the rounded footprint of a huge extent wrap to a
  small one; a segment at the end of that extent then passes the guard of the copy.
\<close>

definition crafted_phdrs :: "elf_phdr list" where
  "crafted_phdrs =
     [\<lparr>p_type = 1, p_flags = 5, p_offset = 0, p_vaddr = 0, p_paddr = 0, p_filesz = 0, p_memsz = 0, p_align = 1\<rparr>,
      \<lparr>p_type = 1, p_flags = 5, p_offset = 0, p_vaddr = - 16, p_paddr = 0, p_filesz = 32, p_memsz = 15,
       p_align = 0x2801\<rparr>]"

lemma crafted_alignment_extent:
  "extent_loop crafted_phdrs (- 1) 0 1 = Inr (0, - 1, 0x2801)" "align_up (- 1 - 0) 0x2801 = (0x7ff :: u64)"
  by code_simp+

lemma crafted_alignment_escapes:
  "copy_segments (replicate 64 7) 0 0x7ff crafted_phdrs (replicate 0x7ff 0) = Inl UB"
proof -
  have "unat (- 16 :: u64) = 2 ^ 64 - 16"
  proof -
    have "(- 16 :: u64) = - 1 - 15" by simp
    moreover have "unat (- 1 - 15 :: u64) = unat (- 1 :: u64) - unat (15 :: u64)"
      by (rule unat_sub_no_wrap) (simp add: unat_max64)
    ultimately show ?thesis by (simp add: unat_max64)
  qed
  moreover have "\<not> (- 16 + 32 :: u64) > 0x7ff" by code_simp
  ultimately show ?thesis
    by (simp add: crafted_phdrs_def PT_LOAD_def segment_data_def outside_def mem_read_def mem_write_def Let_def)
qed


section \<open>What the loaded image holds\<close>

lemma copy_segments_sources:
  "copy_segments img lo footprint phs staging = Inr st \<Longrightarrow> ph \<in> set phs \<Longrightarrow> copied ph \<Longrightarrow>
   unat (p_offset ph) + unat (p_filesz ph) \<le> length img"
proof (induction phs arbitrary: staging)
  case Nil
  then show ?case by simp
next
  case (Cons p phs)
  then show ?case
    by (auto simp: copied_def res_simps segment_data_def not_outside Let_def split: if_splits)
qed

text \<open>
  C20. When the segments are copied and their places are apart, the staging buffer holds every
  segment at its address relative to the base, and every byte outside them is zero: the tails
  beyond the file size and the gaps between segments.
\<close>

theorem segments_staged:
  assumes copy: "copy_segments img lo footprint phs (replicate n 0) = Inr st"
    and ap: "sorted_wrt apart (map (segment_store img lo) (filter copied phs))"
  shows "length st = n \<and>
    (\<forall>ph\<in>set phs. copied ph \<longrightarrow>
       peek st (unat (p_vaddr ph - lo)) (unat (p_filesz ph)) = peek img (unat (p_offset ph)) (unat (p_filesz ph))) \<and>
    (\<forall>k<n. (\<forall>ph\<in>set phs. copied ph \<longrightarrow> k < unat (p_vaddr ph - lo) \<or>
        unat (p_vaddr ph - lo) + unat (p_filesz ph) \<le> k) \<longrightarrow> st ! k = 0)"
proof (intro conjI ballI allI impI)
  note ws = copy_segments_stores [OF copy]
  show "length st = n" using write_all_length [OF ws] by simp
  fix ph assume ph: "ph \<in> set phs" "copied ph"
  have "length (peek img (unat (p_offset ph)) (unat (p_filesz ph))) = unat (p_filesz ph)"
    using copy_segments_sources [OF copy ph] by simp
  moreover have "(unat (p_vaddr ph - lo), peek img (unat (p_offset ph)) (unat (p_filesz ph)))
      \<in> set (map (segment_store img lo) (filter copied phs))"
    using ph by (auto simp: segment_store_def)
  ultimately show "peek st (unat (p_vaddr ph - lo)) (unat (p_filesz ph)) = peek img (unat (p_offset ph)) (unat (p_filesz ph))"
    using write_all_apart [OF ws ap] by metis
next
  note ws = copy_segments_stores [OF copy]
  fix k assume k: "k < n" and out: "\<forall>ph\<in>set phs. copied ph \<longrightarrow> k < unat (p_vaddr ph - lo) \<or>
        unat (p_vaddr ph - lo) + unat (p_filesz ph) \<le> k"
  have "st ! k = replicate n 0 ! k"
  proof (rule write_all_untouched [OF ws])
    show "k < length (replicate n (0 :: u8))" using k by simp
    show "\<forall>w\<in>set (map (segment_store img lo) (filter copied phs)). \<not> touches w k"
      using out copy_segments_sources [OF copy] by (fastforce simp: touches_def segment_store_def)
  qed
  then show "st ! k = 0" using k by simp
qed

theorem segments_staged_witness:
  "copy_segments demo_image 0 512 [demo_phdr] (replicate 512 0) = Inr (demo_image @ replicate 112 0) \<and>
   (demo_image @ replicate 112 0) ! 450 = 0"
proof -
  have c: "copy_segments demo_image 0 512 [demo_phdr] (replicate 512 0) = Inr (demo_image @ replicate 112 0)"
  proof -
    have "segment_data demo_image demo_phdr = Inr demo_image"
      by (simp add: segment_data_def demo_phdr_def outside_def mem_read_def)
    moreover have "mem_write (replicate 512 0) 0 demo_image = Inr (demo_image @ replicate 112 0)"
      by (simp add: mem_write_def)
    ultimately show ?thesis by (simp add: demo_phdr_def PT_LOAD_def)
  qed
  have "sorted_wrt apart (map (segment_store demo_image 0) (filter copied [demo_phdr]))" by simp
  from segments_staged [OF c this] c show ?thesis by (simp add: demo_phdr_def copied_def)
qed

text \<open>
  C21. When the slots of the relocations are apart from each other and from the table, the loader
  adds the load bias to the addend of every relative relocation whose slot lies in the image, and
  leaves every other byte alone; relocations of other types and slots outside are skipped.
\<close>

theorem relocations_applied:
  assumes len: "length st = unat footprint"
    and table: "unat (rela_ptr - lo) + unat rela_size \<le> length st" "lo \<le> rela_ptr"
    and nz: "rela_ptr \<noteq> 0" "rela_size \<noteq> 0"
    and rels: "rels = rela_table st (unat (rela_ptr - lo)) (unat rela_size div sizeof_Rela)"
    and nw: "\<forall>rel\<in>set rels. \<not> reloc_wraps lo rel"
    and off: "\<forall>w\<in>set (reloc_stores lo footprint bias rels). fst w + 8 \<le> unat (rela_ptr - lo) \<or>
      unat (rela_ptr - lo) + unat rela_size \<le> fst w"
    and ap: "sorted_wrt apart (reloc_stores lo footprint bias rels)"
  shows "\<exists>st'. apply_rela lo footprint bias rela_ptr rela_size st = Inr st' \<and> length st' = length st \<and>
    (\<forall>rel\<in>set rels. reloc_target lo footprint rel \<longrightarrow>
       le_word (peek st' (unat (r_offset rel - lo)) 8) = bias + r_addend rel) \<and>
    (\<forall>k<length st. (\<forall>rel\<in>set rels. reloc_target lo footprint rel \<longrightarrow>
       k < unat (r_offset rel - lo) \<or> unat (r_offset rel - lo) + 8 \<le> k) \<longrightarrow> st' ! k = st ! k)"
proof -
  let ?o = "unat (rela_ptr - lo)" and ?n = "unat rela_size div sizeof_Rela"
  let ?ws = "reloc_stores lo footprint bias rels"
  have fits: "sizeof_Rela * ?n \<le> unat rela_size" by simp
  have len8: "length (snd w) = 8" if "w \<in> set ?ws" for w using that by (auto simp: reloc_stores_def reloc_store_def)
  have loop: "reloc_loop lo footprint bias ?o ?n st = write_all st ?ws"
    unfolding rels
  proof (rule reloc_loop_stores [OF len])
    show "?o + sizeof_Rela * ?n \<le> length st" using table(1) fits by linarith
    show "\<forall>rel\<in>set (rela_table st ?o ?n). \<not> reloc_wraps lo rel" using nw rels by simp
    show "\<forall>w\<in>set (reloc_stores lo footprint bias (rela_table st ?o ?n)).
        fst w + length (snd w) \<le> ?o \<or> ?o + sizeof_Rela * ?n \<le> fst w"
    proof
      fix w assume "w \<in> set (reloc_stores lo footprint bias (rela_table st ?o ?n))"
      then have w: "w \<in> set ?ws" by (simp add: rels)
      from off w have "fst w + 8 \<le> ?o \<or> ?o + unat rela_size \<le> fst w" by blast
      with fits len8 [OF w] show "fst w + length (snd w) \<le> ?o \<or> ?o + sizeof_Rela * ?n \<le> fst w" by linarith
    qed
  qed
  have "\<forall>w\<in>set ?ws. fst w + length (snd w) \<le> length st"
    by (auto simp: reloc_stores_def reloc_store_def reloc_target_def len)
  then obtain st' where st': "write_all st ?ws = Inr st'" using write_all_defined by blast
  have guard: "\<not> (rela_ptr < lo \<or> rela_ptr - lo > footprint \<or> rela_size > footprint - (rela_ptr - lo))"
  proof -
    have "unat (footprint - (rela_ptr - lo)) = unat footprint - ?o"
      using table(1) len by (intro unat_sub_no_wrap) linarith
    then show ?thesis using table len by (auto simp: word_less_nat_alt word_le_nat_alt not_less)
  qed
  have "apply_rela lo footprint bias rela_ptr rela_size st = Inr st'"
    using nz guard loop st' by (simp add: apply_rela_def)
  moreover have "le_word (peek st' (unat (r_offset rel - lo)) 8) = bias + r_addend rel"
    if "rel \<in> set rels" "reloc_target lo footprint rel" for rel
  proof -
    have "(unat (r_offset rel - lo), le_bytes 8 (bias + r_addend rel)) \<in> set ?ws"
      using that by (auto simp: reloc_stores_def reloc_store_def)
    from write_all_apart [OF st' ap this] show ?thesis by simp
  qed
  moreover have "st' ! k = st ! k"
    if "k < length st" "\<forall>rel\<in>set rels. reloc_target lo footprint rel \<longrightarrow>
       k < unat (r_offset rel - lo) \<or> unat (r_offset rel - lo) + 8 \<le> k" for k
    using that(2) by (intro write_all_untouched [OF st' that(1)])
      (auto simp: reloc_stores_def reloc_store_def touches_def)
  ultimately show ?thesis using write_all_length [OF st'] by blast
qed

definition demo_staging :: bytes where
  "demo_staging = le_bytes 8 (0x118 :: u64) @ le_bytes 8 (13 :: u64) @ le_bytes 8 (0x20 :: u64) @ replicate 16 7"

theorem relocations_applied_witness:
  "\<exists>st. apply_rela 0x100 40 0x7f0000000000 0x100 24 demo_staging = Inr st \<and>
     le_word (peek st 24 8) = (0x7f0000000020 :: u64) \<and> st ! 32 = 7"
proof -
  define rel where "rel = \<lparr>r_offset = 0x118, r_info = 13, r_addend = 0x20\<rparr>"
  have t: "[rel] = rela_table demo_staging (unat (0x100 - 0x100 :: u64)) (unat (24 :: u64) div sizeof_Rela)"
    unfolding rel_def by code_simp
  have tgt: "reloc_target 0x100 40 rel" "\<not> reloc_wraps 0x100 rel"
    by (simp_all add: rel_def reloc_target_def reloc_wraps_def rela_type_def R_AMDGPU_RELATIVE64_def lo32_def)
  have d: "length demo_staging = 40" by code_simp
  have d7: "demo_staging ! 32 = 7" by code_simp
  have off: "unat (r_offset rel - 0x100) = 24" by (simp add: rel_def)
  have "\<exists>st. apply_rela 0x100 40 0x7f0000000000 0x100 24 demo_staging = Inr st \<and>
      length st = length demo_staging \<and>
      (\<forall>r\<in>set [rel]. reloc_target 0x100 40 r \<longrightarrow>
         le_word (peek st (unat (r_offset r - 0x100)) 8) = 0x7f0000000000 + r_addend r) \<and>
      (\<forall>k<length demo_staging. (\<forall>r\<in>set [rel]. reloc_target 0x100 40 r \<longrightarrow>
         k < unat (r_offset r - 0x100) \<or> unat (r_offset r - 0x100) + 8 \<le> k) \<longrightarrow> st ! k = demo_staging ! k)"
    by (rule relocations_applied [OF _ _ _ _ _ t]) (use tgt in \<open>auto simp: d reloc_stores_def reloc_store_def off\<close>)
  then obtain st where st: "apply_rela 0x100 40 0x7f0000000000 0x100 24 demo_staging = Inr st"
    and v: "le_word (peek st 24 8) = (0x7f0000000000 + r_addend rel :: u64)"
    and k: "st ! 32 = demo_staging ! 32"
    using tgt(1) by (auto simp: off d)
  from st v k d7 show ?thesis by (auto simp: rel_def)
qed


section \<open>Lookups in the loaded executable\<close>

lemma uint64_less: "uint (w :: u64) < 2 ^ 64"
  using uint_lt2p [of w] by simp

lemma sint_u64:
  fixes w :: u64
  shows "sint w = (if uint w < 2 ^ 63 then uint w else uint w - 2 ^ 64)"
proof -
  have s: "sint w = (uint w + 2 ^ 63) mod 2 ^ 64 - 2 ^ 63"
    by (simp add: sint_uint signed_take_bit_eq_take_bit_shift take_bit_eq_mod)
  show ?thesis
  proof (cases "uint w < 2 ^ 63")
    case True
    then show ?thesis by (simp add: s mod_pos_pos_trivial)
  next
    case False
    then have "(uint w + 2 ^ 63) mod 2 ^ 64 = uint w + 2 ^ 63 - 2 ^ 64"
      using uint64_less [of w] by (intro int_mod_pos_eq) simp_all
    then show ?thesis using False by (simp add: s)
  qed
qed

lemma offset_guard:
  assumes "base \<le> v" and "\<not> v - base > sz" and "\<not> n > sz - (v - base)"
  shows "unat v - unat base + unat n \<le> unat sz" and "unat (v - base) = unat v - unat base"
proof -
  show d: "unat (v - base) = unat v - unat base"
    using assms(1) by (intro unat_sub_no_wrap) (simp add: word_le_nat_alt)
  have "unat (sz - (v - base)) = unat sz - unat (v - base)"
    using assms(2) by (intro unat_sub_no_wrap) (simp add: word_less_nat_alt not_less)
  then show "unat v - unat base + unat n \<le> unat sz"
    using assms(2,3) d by (simp add: word_less_nat_alt not_less)
qed

text \<open>
  C22. A symbol range and a kernel entry that the loaded executable hands out lie in its device
  image, at the place of the symbol relative to the base address; a kernel's descriptor is an object
  symbol with the suffix of descriptors, long enough for one, and its entry is the offset the
  descriptor holds, counted from the descriptor.
\<close>

theorem executable_lookups_in_image:
  assumes "unat (ex_addr ex) + unat (ex_size ex) < 2 ^ 64" and "unat (ex_size ex) < 2 ^ 63"
  shows "(\<forall>name p n. exec_symbol ex name = Inr (p, n) \<longrightarrow>
       (\<exists>s. find_symbol (ex_elf ex) name = Inr (Some s) \<and> n = st_size s \<and>
          unat p = unat (ex_addr ex) + (unat (st_value s) - unat (ex_base ex)) \<and>
          unat (ex_base ex) \<le> unat (st_value s) \<and> unat p + unat n \<le> unat (ex_addr ex) + unat (ex_size ex))) \<and>
     (\<forall>name k. exec_kernel ex name = Inr k \<longrightarrow>
       (\<exists>s at_off. find_symbol (ex_elf ex) name = Inr (Some s) \<and> symbol_address (ex_elf ex) s = Inr at_off \<and>
          read_kernel_descriptor (ex_elf ex) at_off = Inr (ko_kd k) \<and> ends_with name kd_suffix \<and>
          sym_type s = STT_OBJECT \<and> sizeof_KernelDescriptor \<le> unat (st_size s) \<and>
          unat (ex_addr ex) \<le> unat (ko_entry k) \<and> unat (ko_entry k) < unat (ex_addr ex) + unat (ex_size ex) \<and>
          int (unat (ko_entry k)) = int (unat (ex_addr ex)) + sint (kernel_code_entry_byte_offset (ko_kd k))
            + (int (unat (st_value s)) - int (unat (ex_base ex)))))"
proof (intro conjI allI impI)
  fix name p n assume r: "exec_symbol ex name = Inr (p, n)"
  then obtain s where s: "find_symbol (ex_elf ex) name = Inr (Some s)" "ex_base ex \<le> st_value s"
      "\<not> st_value s - ex_base ex > ex_size ex" "\<not> st_size s > ex_size ex - (st_value s - ex_base ex)"
      "p = ex_addr ex + (st_value s - ex_base ex)" "n = st_size s"
    by (auto simp: exec_symbol_def res_simps Let_def not_less split: option.splits)
  note g = offset_guard [OF s(2-4)]
  have "unat p = unat (ex_addr ex) + unat (st_value s - ex_base ex)"
    unfolding s(5) using g assms by (intro unat_add_no_wrap) simp
  with s g show "\<exists>s. find_symbol (ex_elf ex) name = Inr (Some s) \<and> n = st_size s \<and>
          unat p = unat (ex_addr ex) + (unat (st_value s) - unat (ex_base ex)) \<and>
          unat (ex_base ex) \<le> unat (st_value s) \<and> unat p + unat n \<le> unat (ex_addr ex) + unat (ex_size ex)"
    by (auto simp: word_le_nat_alt)
next
  fix name k assume "exec_kernel ex name = Inr k"
  then obtain s a kd eo where s: "find_symbol (ex_elf ex) name = Inr (Some s)" "ex_base ex \<le> st_value s"
      "\<not> st_value s - ex_base ex > ex_size ex" "\<not> st_size s > ex_size ex - (st_value s - ex_base ex)"
      "sizeof_KernelDescriptor \<le> unat (st_size s)" "sym_type s = STT_OBJECT" "ends_with name kd_suffix"
    and a: "symbol_address (ex_elf ex) s = Inr a" "read_kernel_descriptor (ex_elf ex) a = Inr kd"
    and eo: "add_int64 (kernel_code_entry_byte_offset kd) (st_value s - ex_base ex) = Inr eo"
      "\<not> sint eo < 0" "eo < ex_size ex" "k = \<lparr>ko_kd = kd, ko_entry = ex_addr ex + eo\<rparr>"
    by (auto simp: exec_kernel_def res_simps Let_def not_less not_le split: option.splits)
  note g = offset_guard [OF s(2-4)]
  have e: "unat (ko_entry k) = unat (ex_addr ex) + unat eo"
    using eo(3) assms by (simp add: eo(4)) (intro unat_add_no_wrap, simp add: word_less_nat_alt)
  have eo_int: "int (unat eo) = sint eo"
    using eo(2) uint64_less [of eo] by (auto simp: sint_u64 split: if_splits)
  have sum: "sint eo = sint (kernel_code_entry_byte_offset kd) + sint (st_value s - ex_base ex)"
    using eo(1) by (auto simp: add_int64_def sint_word_add signed_take_bit_int_eq_self split: if_splits)
  have "sint (st_value s - ex_base ex) = int (unat (st_value s)) - int (unat (ex_base ex))"
  proof -
    have "uint (st_value s - ex_base ex) = int (unat (st_value s) - unat (ex_base ex))"
      using g(2) by (metis uint_nat)
    moreover have lt: "uint (st_value s - ex_base ex) < 2 ^ 63"
    proof -
      have "unat (st_value s - ex_base ex) < 9223372036854775808" using g assms(2) by simp
      then have "int (unat (st_value s - ex_base ex)) < 9223372036854775808" by linarith
      then show ?thesis by (simp only: uint_nat) simp
    qed
    moreover have "sint (st_value s - ex_base ex) = uint (st_value s - ex_base ex)"
      unfolding sint_u64 by (rule if_P [OF lt])
    ultimately show ?thesis using s(2) by (simp add: word_le_nat_alt of_nat_diff)
  qed
  with s a eo e eo_int sum show "\<exists>s at_off. find_symbol (ex_elf ex) name = Inr (Some s) \<and> symbol_address (ex_elf ex) s = Inr at_off \<and>
          read_kernel_descriptor (ex_elf ex) at_off = Inr (ko_kd k) \<and> ends_with name kd_suffix \<and>
          sym_type s = STT_OBJECT \<and> sizeof_KernelDescriptor \<le> unat (st_size s) \<and>
          unat (ex_addr ex) \<le> unat (ko_entry k) \<and> unat (ko_entry k) < unat (ex_addr ex) + unat (ex_size ex) \<and>
          int (unat (ko_entry k)) = int (unat (ex_addr ex)) + sint (kernel_code_entry_byte_offset (ko_kd k))
            + (int (unat (st_value s)) - int (unat (ex_base ex)))"
    by (intro exI [of _ s] exI [of _ a]) (simp add: word_less_nat_alt)
qed

theorem executable_lookups_in_image_witness:
  "exec_symbol \<lparr>ex_elf = demo_image, ex_addr = 0x7f0000000000, ex_size = 4096, ex_base = 0\<rparr> [0x6b]
     = Inr (0x7f000000018c, 4) \<and> unat (0x7f000000018c :: u64) + unat (4 :: u64) \<le> 0x7f0000001000"
proof -
  let ?ex = "\<lparr>ex_elf = demo_image, ex_addr = 0x7f0000000000, ex_size = 4096, ex_base = 0\<rparr>"
  have r: "exec_symbol ?ex [0x6b] = Inr (0x7f000000018c, 4)"
    by (simp add: exec_symbol_def demo_found) (simp add: demo_sym_def)
  have "unat (ex_addr ?ex) + unat (ex_size ?ex) < 2 ^ 64" "unat (ex_size ?ex) < 2 ^ 63" by simp_all
  from executable_lookups_in_image [OF this] r
  have "unat (0x7f000000018c :: u64) + unat (4 :: u64) \<le> unat (ex_addr ?ex) + unat (ex_size ?ex)" by blast
  with r show ?thesis by simp
qed

section \<open>Kernel arguments\<close>

text \<open>
  Filling a kernarg buffer never leaves it: the explicit arguments are copied to its front, cut at
  the declared argument size, the declared implicit arguments and the dispatch packet follow, and
  whatever lies behind the packet is kept.
\<close>

theorem kernel_fill_correct:
  assumes len: "unat (kernarg_alloc_size (kernarg_size kd)) \<le> length buf"
    and args: "length args + 8 \<le> 2 ^ 64"
  shows "\<exists>buf'. kernel_fill kd buf args cfg = Inr buf' \<and> length buf' = length buf \<and>
     (\<forall>k. k < length args \<and> k < unat (kernarg_size kd) \<longrightarrow> buf' ! k = args ! k) \<and>
     (\<forall>k. unat (kernarg_alloc_size (kernarg_size kd)) \<le> k \<and> k < length buf \<longrightarrow> buf' ! k = buf ! k) \<and>
     (\<forall>(f, bs)\<in>set (implicit_fields cfg).
        round_up (length args) 8 + arg_offset f + length bs \<le> unat (kernarg_size kd) \<longrightarrow>
        peek buf' (round_up (length args) 8 + arg_offset f) (length bs) = bs) \<and>
     peek buf' (round_up (unat (kernarg_size kd)) 64) 64 =
       packet_bytes (fill_dispatch_packet (grid cfg) (block_dim cfg)
         (private_segment_fixed_size kd) (group_segment_fixed_size kd))"
proof -
  define total where "total = unat (kernarg_alloc_size (kernarg_size kd))"
  define n where "n = min (length args) total"
  have ks: "unat (kernarg_size kd) \<le> total"
    unfolding total_def unat_kernarg_alloc_size using round_up_ge [of 64 "unat (kernarg_size kd)"] by simp
  have es: "unat (of_nat (length args) :: u64) = length args"
    using args by (simp add: unsigned_of_nat take_bit_nat_eq_self)
  obtain b where b: "mem_write buf 0 (replicate total 0) = Inr b"
    using len by (auto simp: mem_write_def total_def)
  note lb = mem_write_length [OF b]
  have "n \<le> length b" using len lb by (simp add: n_def total_def)
  then obtain b1 where b1: "mem_write b 0 (take n args) = Inr b1"
    by (simp add: mem_write_def n_def)
  note lb1 = mem_write_length [OF b1]
  have same: "(if args \<noteq> [] then mem_write b 0 (take n args) else Inr b) = Inr b1"
    using b1 by (auto simp: mem_write_def n_def split: if_splits)
  have fill: "kernel_fill kd buf args cfg = fill_implicit_args b1 (of_nat (length args)) kd cfg"
    using b same by (cases "args = []") (simp_all add: kernel_fill_def total_def [symmetric] n_def [symmetric])
  have front: "b1 ! k = args ! k" if "k < length args" "k < unat (kernarg_size kd)" for k
    using that ks len lb by (subst mem_write_nth [OF b1]) (auto simp: n_def total_def)
  have tail: "b1 ! k = buf ! k" if "total \<le> k" "k < length buf" for k
    using that lb by (simp add: mem_write_nth [OF b1] mem_write_nth [OF b] n_def)
  obtain buf' where buf': "fill_implicit_args b1 (of_nat (length args)) kd cfg = Inr buf'" "length buf' = length b1"
    and keep: "\<forall>k. k < length b1 \<and> (k < length args \<and> k < unat (kernarg_size kd) \<or> total \<le> k) \<longrightarrow> buf' ! k = b1 ! k"
    and fields: "\<forall>(f, bs)\<in>set (implicit_fields cfg).
        round_up (length args) 8 + arg_offset f + length bs \<le> unat (kernarg_size kd) \<longrightarrow>
        peek buf' (round_up (length args) 8 + arg_offset f) (length bs) = bs"
    and pkt: "peek buf' (round_up (unat (kernarg_size kd)) 64) 64 =
       packet_bytes (fill_dispatch_packet (grid cfg) (block_dim cfg)
         (private_segment_fixed_size kd) (group_segment_fixed_size kd))"
    using fill_implicit_args_value [of "of_nat (length args)" kd b1 cfg] args len lb lb1
    unfolding es total_def by auto
  have L: "unat (kernarg_size kd) \<le> length b1" using ks len lb lb1 by (simp add: total_def)
  show ?thesis
    using fill buf' keep fields pkt front tail L lb lb1 by (auto simp: total_def [symmetric])
qed

theorem kernel_fill_correct_witness:
  "\<exists>buf'. kernel_fill demo_kd (replicate 200 9) [1, 2, 3] demo_cfg = Inr buf' \<and>
     buf' ! 2 = 3 \<and> peek buf' 8 4 = [7, 0, 0, 0] \<and> buf' ! 199 = 9"
proof -
  have t: "unat (kernarg_alloc_size (kernarg_size demo_kd)) = 192"
    unfolding unat_kernarg_alloc_size by (simp add: demo_kd_def round_up_def)
  then have "unat (kernarg_alloc_size (kernarg_size demo_kd)) \<le> length (replicate 200 (9 :: u8))" by simp
  from kernel_fill_correct [OF this, of "[1, 2, 3]" demo_cfg]
  obtain buf' where "kernel_fill demo_kd (replicate 200 9) [1, 2, 3] demo_cfg = Inr buf'"
    and "\<forall>k. k < 3 \<and> k < 96 \<longrightarrow> buf' ! k = [1, 2, 3] ! k"
    and "\<forall>k. 192 \<le> k \<and> k < 200 \<longrightarrow> buf' ! k = replicate 200 9 ! k"
    and "\<forall>(f, bs)\<in>set (implicit_fields demo_cfg).
        round_up 3 8 + arg_offset f + length bs \<le> 96 \<longrightarrow>
        peek buf' (round_up 3 8 + arg_offset f) (length bs) = bs"
    unfolding t by (auto simp: demo_kd_def numeral_3_eq_3)
  moreover from this have "peek buf' 8 4 = le_bytes 4 (7 :: u32)"
    by (simp add: implicit_fields_def demo_cfg_def arg_offset_def round_up_def)
  moreover have "le_bytes 4 (7 :: u32) = [7, 0, 0, 0]" by code_simp
  ultimately show ?thesis by auto
qed
end
