(* ===== verification/Futex_Mutex.thy ===== *)
theory Futex_Mutex
  imports Kfd_Prelude
begin

text \<open>
  \<^verbatim>\<open>detail/mutex.h\<close> and \<^verbatim>\<open>lib/detail/mutex.cpp\<close>: the futex lock that every component of the
  library uses. The lock word is shared; each thread runs the code of \<^verbatim>\<open>lock\<close> and \<^verbatim>\<open>unlock\<close>, one
  atomic access to the word per step, in any interleaving. The kernel is the environment: a wait
  sleeps only when the word still has the expected value, a wake wakes one sleeper when there is
  one, and a sleeper may return without a wake.
\<close>

section \<open>The code of one thread\<close>

definition UNLOCKED :: u32 where "UNLOCKED = 0"
definition LOCKED :: u32 where "LOCKED = 1"
definition CONTENDED :: u32 where "CONTENDED = 2"
definition SPIN_LIMIT :: nat where "SPIN_LIMIT = 64"

text \<open>
  Where a thread is: outside, at the fast path, in iteration \<open>i\<close> of the spin loop with its local
  \<^verbatim>\<open>expected\<close>, behind that loop, at the head of the wait loop, at the wait call, asleep in it, at
  the exchange behind it, in its critical section, at the wake call.
\<close>

datatype thread_pc =
    Outside | Fast_path | Spin nat u32 | After_spin u32 | Wait_loop u32 | Futex_wait | Asleep
  | Exchange | Holding | Futex_wake

text \<open>\<^verbatim>\<open>__atomic_compare_exchange_n\<close>: success, the value found, the new word.\<close>

definition compare_exchange :: "u32 \<Rightarrow> u32 \<Rightarrow> u32 \<Rightarrow> bool \<times> u32 \<times> u32" where
  "compare_exchange w expected desired = (if w = expected then (True, expected, desired) else (False, w, w))"

definition lock_fast :: "u32 \<Rightarrow> thread_pc \<times> u32" where
  "lock_fast w =
     (case compare_exchange w UNLOCKED LOCKED of
        (True, _, w') \<Rightarrow> (Holding, w') | (False, expected, w') \<Rightarrow> (Spin 0 expected, w'))"

fun lock_contended :: "thread_pc \<Rightarrow> u32 \<Rightarrow> (thread_pc \<times> u32) option" where
  "lock_contended (Spin i expected) w =
     (if \<not> i < SPIN_LIMIT \<or> expected = CONTENDED then Some (After_spin expected, w)
      else if expected = UNLOCKED
      then (case compare_exchange w expected LOCKED of
              (True, _, w') \<Rightarrow> Some (Holding, w') | (False, e, w') \<Rightarrow> Some (Spin (Suc i) e, w'))
      else Some (Spin (Suc i) w, w))"
| "lock_contended (After_spin expected) w =
     (if expected \<noteq> CONTENDED then Some (Wait_loop w, CONTENDED) else Some (Wait_loop expected, w))"
| "lock_contended (Wait_loop expected) w =
     (if expected \<noteq> UNLOCKED then Some (Futex_wait, w) else Some (Holding, w))"
| "lock_contended Futex_wait w = (if w = CONTENDED then Some (Asleep, w) else Some (Exchange, w))"
| "lock_contended Exchange w = Some (Wait_loop w, CONTENDED)"
| "lock_contended _ w = None"

definition unlock :: "u32 \<Rightarrow> thread_pc \<times> u32" where
  "unlock w = (if w = CONTENDED then Futex_wake else Outside, UNLOCKED)"

fun own_step :: "thread_pc \<Rightarrow> u32 \<Rightarrow> (thread_pc \<times> u32) option" where
  "own_step Fast_path w = Some (lock_fast w)"
| "own_step Holding w = Some (unlock w)"
| "own_step p w = lock_contended p w"

section \<open>All threads\<close>

record lock_state =
  word :: u32
  pcs :: "nat \<Rightarrow> thread_pc"

definition lock_init :: lock_state where
  "lock_init = \<lparr>word = UNLOCKED, pcs = (\<lambda>_. Outside)\<rparr>"

definition at :: "lock_state \<Rightarrow> nat \<Rightarrow> thread_pc \<Rightarrow> u32 \<Rightarrow> lock_state" where
  "at s t p w = \<lparr>word = w, pcs = (pcs s)(t := p)\<rparr>"

text \<open>The last two rules of the wake are \<^verbatim>\<open>unlock_contended\<close>.\<close>

inductive lock_step :: "lock_state \<Rightarrow> lock_state \<Rightarrow> bool" where
  call_lock: "pcs s t = Outside \<Longrightarrow> lock_step s (at s t Fast_path (word s))"
| own: "own_step (pcs s t) (word s) = Some (p, w) \<Longrightarrow> lock_step s (at s t p w)"
| interrupted: "pcs s t = Asleep \<Longrightarrow> lock_step s (at s t Exchange (word s))"
| wake_one: "pcs s t = Futex_wake \<Longrightarrow> pcs s u = Asleep \<Longrightarrow>
    lock_step s (at (at s t Outside (word s)) u Exchange (word s))"
| wake_none: "pcs s t = Futex_wake \<Longrightarrow> \<forall>u. pcs s u \<noteq> Asleep \<Longrightarrow> lock_step s (at s t Outside (word s))"

definition lock_reachable :: "lock_state \<Rightarrow> bool" where
  "lock_reachable s \<longleftrightarrow> lock_step\<^sup>*\<^sup>* lock_init s"

section \<open>The invariant\<close>

text \<open>
  A thread owns the lock in its critical section and just before it, when its exchange found the
  word unlocked. The word is unlocked exactly when nobody owns the lock; while somebody sleeps, the
  word says so or somebody is on the way to say so or to wake.
\<close>

definition owns :: "thread_pc \<Rightarrow> bool" where
  "owns p \<longleftrightarrow> p = Holding \<or> p = Wait_loop UNLOCKED"

definition lock_inv :: "lock_state \<Rightarrow> bool" where
  "lock_inv s \<longleftrightarrow>
     (word s = UNLOCKED \<longleftrightarrow> (\<forall>t. \<not> owns (pcs s t))) \<and>
     (\<forall>t u. owns (pcs s t) \<longrightarrow> owns (pcs s u) \<longrightarrow> t = u) \<and>
     ((\<exists>t. pcs s t = Asleep) \<longrightarrow> word s = CONTENDED \<or> (\<exists>t. pcs s t = Futex_wake \<or> pcs s t = Exchange))"

lemmas word_consts = UNLOCKED_def LOCKED_def CONTENDED_def

lemma consts_differ [simp]:
  "UNLOCKED \<noteq> LOCKED" "LOCKED \<noteq> UNLOCKED" "UNLOCKED \<noteq> CONTENDED" "CONTENDED \<noteq> UNLOCKED"
  "LOCKED \<noteq> CONTENDED" "CONTENDED \<noteq> LOCKED"
  by (simp_all add: word_consts)

lemma owns_simps [simp]:
  "owns Holding" "owns (Wait_loop e) \<longleftrightarrow> e = UNLOCKED" "\<not> owns Outside" "\<not> owns Fast_path"
  "\<not> owns (Spin i e)" "\<not> owns (After_spin e)" "\<not> owns Futex_wait" "\<not> owns Asleep" "\<not> owns Exchange"
  "\<not> owns Futex_wake"
  by (auto simp: owns_def)

lemma at_simps [simp]:
  "word (at s t p w) = w" "pcs (at s t p w) u = (if u = t then p else pcs s u)"
  by (simp_all add: at_def)

text \<open>What a thread's own step does: take a free lock, release its lock, or keep who owns it.\<close>

lemma own_step_cases:
  assumes "own_step p w = Some (p', w')"
  shows "\<not> owns p \<and> owns p' \<and> w = UNLOCKED \<and> w' \<noteq> UNLOCKED \<and> p \<noteq> Asleep \<and> (p = Exchange \<longrightarrow> w' = CONTENDED) \<or>
     owns p \<and> \<not> owns p' \<and> w' = UNLOCKED \<and> (w = CONTENDED \<longrightarrow> p' = Futex_wake) \<and> p' \<noteq> Asleep \<or>
     owns p = owns p' \<and> (w' = w \<or> w \<noteq> UNLOCKED \<and> w' = CONTENDED) \<and>
       (p' = Asleep \<longrightarrow> w' = CONTENDED) \<and> (p = Exchange \<longrightarrow> w' = CONTENDED) \<and> p \<noteq> Futex_wake"
  using assms
  by (cases "(p, w)" rule: own_step.cases)
     (auto simp: lock_fast_def compare_exchange_def unlock_def split: if_splits)

lemma lock_invD:
  assumes "lock_inv s"
  shows "word s = UNLOCKED \<longleftrightarrow> (\<forall>t. \<not> owns (pcs s t))"
    and "owns (pcs s t) \<Longrightarrow> owns (pcs s u) \<Longrightarrow> t = u"
    and "pcs s t = Asleep \<Longrightarrow> word s = CONTENDED \<or> (\<exists>t. pcs s t = Futex_wake \<or> pcs s t = Exchange)"
  using assms unfolding lock_inv_def by blast+

lemma lock_invI:
  assumes "word s = UNLOCKED \<longleftrightarrow> (\<forall>t. \<not> owns (pcs s t))"
    and "\<And>t u. owns (pcs s t) \<Longrightarrow> owns (pcs s u) \<Longrightarrow> t = u"
    and "\<And>t. pcs s t = Asleep \<Longrightarrow> word s = CONTENDED \<or> (\<exists>t. pcs s t = Futex_wake \<or> pcs s t = Exchange)"
  shows "lock_inv s"
  using assms unfolding lock_inv_def by blast

lemma lock_inv_own:
  assumes inv: "lock_inv s" and own: "own_step (pcs s t) (word s) = Some (p, w)"
  shows "lock_inv (at s t p w)"
proof (rule lock_invI)
  note free = lock_invD(1) [OF inv] and one = lock_invD(2) [OF inv] and sleep = lock_invD(3) [OF inv]
  note cs = own_step_cases [OF own]
  show "word (at s t p w) = UNLOCKED \<longleftrightarrow> (\<forall>v. \<not> owns (pcs (at s t p w) v))"
    using cs free one by (auto 0 3)
  show "u = v" if "owns (pcs (at s t p w) u)" "owns (pcs (at s t p w) v)" for u v
    using cs free one that by (auto split: if_splits)
  fix v assume v: "pcs (at s t p w) v = Asleep"
  show "word (at s t p w) = CONTENDED \<or> (\<exists>u. pcs (at s t p w) u = Futex_wake \<or> pcs (at s t p w) u = Exchange)"
  proof (cases "p = Asleep")
    case True
    then show ?thesis using cs by auto
  next
    case False
    then have "pcs s v = Asleep" using v by (auto split: if_splits)
    from sleep [OF this] show ?thesis
    proof
      assume "word s = CONTENDED"
      then show ?thesis using cs by (auto intro: exI [of _ t])
    next
      assume "\<exists>u. pcs s u = Futex_wake \<or> pcs s u = Exchange"
      then obtain u where u: "pcs s u = Futex_wake \<or> pcs s u = Exchange" by blast
      show ?thesis
      proof (cases "u = t")
        case True
        then show ?thesis using u cs own by auto
      next
        case False
        then show ?thesis using u by (auto intro: exI [of _ u])
      qed
    qed
  qed
qed

text \<open>The steps of the environment move threads that do not own the lock and leave the word alone.\<close>

lemma lock_inv_move:
  assumes inv: "lock_inv s" and "\<not> owns (pcs s t)" "\<not> owns p" "p \<noteq> Asleep"
    and "pcs s t = Futex_wake \<or> pcs s t = Exchange \<Longrightarrow>
      word s = CONTENDED \<or> (\<forall>u. pcs s u \<noteq> Asleep) \<or> (\<exists>u. u \<noteq> t \<and> (pcs s u = Futex_wake \<or> pcs s u = Exchange))"
  shows "lock_inv (at s t p (word s))"
proof (rule lock_invI)
  show "word (at s t p (word s)) = UNLOCKED \<longleftrightarrow> (\<forall>v. \<not> owns (pcs (at s t p (word s)) v))"
    using lock_invD(1) [OF inv] assms(2,3) by auto
  show "u = v" if "owns (pcs (at s t p (word s)) u)" "owns (pcs (at s t p (word s)) v)" for u v
    using lock_invD(2) [OF inv] assms(3) that by (auto split: if_splits)
  fix v assume "pcs (at s t p (word s)) v = Asleep"
  then have v: "pcs s v = Asleep" using assms(4) by (auto split: if_splits)
  show "word (at s t p (word s)) = CONTENDED \<or>
      (\<exists>u. pcs (at s t p (word s)) u = Futex_wake \<or> pcs (at s t p (word s)) u = Exchange)"
    using lock_invD(3) [OF inv v] assms(5) v by (metis at_simps)
qed

lemma lock_inv_step:
  assumes "lock_step s s'" and inv: "lock_inv s"
  shows "lock_inv s'"
  using assms(1)
proof (cases rule: lock_step.cases)
  case (own t p w)
  then show ?thesis using lock_inv_own [OF inv] by blast
next
  case (call_lock t)
  then show ?thesis using inv by (auto intro!: lock_inv_move)
next
  case (interrupted t)
  then show ?thesis using inv by (auto intro!: lock_inv_move)
next
  case (wake_one t u)
  let ?s = "at s u Exchange (word s)"
  have ne: "t \<noteq> u" using wake_one(2,3) by auto
  have "lock_inv ?s" using inv wake_one(3) by (auto intro!: lock_inv_move)
  then have "lock_inv (at ?s t Outside (word ?s))"
  proof (rule lock_inv_move)
    show "word ?s = CONTENDED \<or> (\<forall>v. pcs ?s v \<noteq> Asleep) \<or>
        (\<exists>v. v \<noteq> t \<and> (pcs ?s v = Futex_wake \<or> pcs ?s v = Exchange))"
      using ne by (metis at_simps(2))
  qed (use wake_one(2) ne in simp_all)
  moreover have "at ?s t Outside (word ?s) = s'"
    unfolding wake_one(1) using ne by (simp add: at_def fun_upd_twist)
  ultimately show ?thesis by simp
next
  case (wake_none t)
  then show ?thesis using inv by (auto intro!: lock_inv_move)
qed

lemma reachable_lock_inv: "lock_reachable s \<Longrightarrow> lock_inv s"
  unfolding lock_reachable_def
proof (induction rule: rtranclp_induct)
  case base
  then show ?case by (simp add: lock_inv_def lock_init_def)
next
  case (step s s')
  then show ?case using lock_inv_step by blast
qed

section \<open>Properties of the lock\<close>

text \<open>
  C23. In every interleaving of any number of threads at most one is in its critical section, and the
  word is then not the unlocked one, so that no other thread can enter by the fast path.
\<close>

theorem mutual_exclusion:
  assumes "lock_reachable s" and "pcs s t = Holding" and "pcs s u = Holding"
  shows "t = u \<and> word s \<noteq> UNLOCKED"
proof -
  note inv = reachable_lock_inv [OF assms(1)]
  have "owns (pcs s t)" "owns (pcs s u)" using assms(2,3) by simp_all
  then show ?thesis using lock_invD(1,2) [OF inv] by blast
qed

text \<open>A run in which the second thread spins, announces itself and sleeps.\<close>

definition two_threads :: "thread_pc \<Rightarrow> thread_pc \<Rightarrow> u32 \<Rightarrow> lock_state" where
  "two_threads p q w = \<lparr>word = w, pcs = (\<lambda>_. Outside)(0 := p, 1 := q)\<rparr>"

lemma at_two_threads [simp]:
  "at (two_threads p q w) 0 p' w' = two_threads p' q w'" "at (two_threads p q w) (Suc 0) q' w' = two_threads p q' w'"
  "pcs (two_threads p q w) 0 = p" "pcs (two_threads p q w) (Suc 0) = q" "word (two_threads p q w) = w"
  by (auto simp: at_def two_threads_def)

lemma call_first: "lock_step\<^sup>*\<^sup>* (two_threads Outside q w) (two_threads Fast_path q w)"
  using lock_step.call_lock [of "two_threads Outside q w" 0] by auto

lemma call_second: "lock_step\<^sup>*\<^sup>* (two_threads p Outside w) (two_threads p Fast_path w)"
  using lock_step.call_lock [of "two_threads p Outside w" "Suc 0"] by auto

lemma own_first: "own_step p w = Some (p', w') \<Longrightarrow> lock_step\<^sup>*\<^sup>* (two_threads p q w) (two_threads p' q w')"
  using lock_step.own [of "two_threads p q w" 0] by auto

lemma own_second: "own_step q w = Some (q', w') \<Longrightarrow> lock_step\<^sup>*\<^sup>* (two_threads p q w) (two_threads p q' w')"
  using lock_step.own [of "two_threads p q w" "Suc 0"] by auto

lemma spin_down:
  "i \<le> SPIN_LIMIT \<Longrightarrow> lock_step\<^sup>*\<^sup>* (two_threads p (Spin i LOCKED) LOCKED) (two_threads p (Spin SPIN_LIMIT LOCKED) LOCKED)"
proof (induction "SPIN_LIMIT - i" arbitrary: i)
  case 0
  then show ?case by simp
next
  case (Suc n)
  then have "own_step (Spin i LOCKED) LOCKED = Some (Spin (Suc i) LOCKED, LOCKED)" by simp
  note own_second [OF this]
  also have "lock_step\<^sup>*\<^sup>* (two_threads p (Spin (Suc i) LOCKED) LOCKED) (two_threads p (Spin SPIN_LIMIT LOCKED) LOCKED)"
    using Suc.hyps(2) by (intro Suc.hyps(1)) linarith+
  finally show ?case .
qed

lemma sleeper_reached: "lock_reachable (two_threads Holding Asleep CONTENDED)"
proof -
  have i: "two_threads Outside Outside UNLOCKED = lock_init" by (auto simp: two_threads_def lock_init_def)
  have "lock_step\<^sup>*\<^sup>* lock_init (two_threads Fast_path Outside UNLOCKED)"
    unfolding i [symmetric] by (rule call_first)
  also have "lock_step\<^sup>*\<^sup>* \<dots> (two_threads Holding Outside LOCKED)"
    by (rule own_first) (simp add: lock_fast_def compare_exchange_def)
  also have "lock_step\<^sup>*\<^sup>* \<dots> (two_threads Holding Fast_path LOCKED)"
    by (rule call_second)
  also have "lock_step\<^sup>*\<^sup>* \<dots> (two_threads Holding (Spin 0 LOCKED) LOCKED)"
    by (rule own_second) (simp add: lock_fast_def compare_exchange_def)
  also have "lock_step\<^sup>*\<^sup>* \<dots> (two_threads Holding (Spin SPIN_LIMIT LOCKED) LOCKED)"
    by (rule spin_down) simp
  also have "lock_step\<^sup>*\<^sup>* \<dots> (two_threads Holding (After_spin LOCKED) LOCKED)"
    by (rule own_second) simp
  also have "lock_step\<^sup>*\<^sup>* \<dots> (two_threads Holding (Wait_loop LOCKED) CONTENDED)"
    by (rule own_second) simp
  also have "lock_step\<^sup>*\<^sup>* \<dots> (two_threads Holding Futex_wait CONTENDED)"
    by (rule own_second) simp
  also have "lock_step\<^sup>*\<^sup>* \<dots> (two_threads Holding Asleep CONTENDED)"
    by (rule own_second) simp
  finally show ?thesis unfolding lock_reachable_def .
qed

theorem mutual_exclusion_witness:
  "pcs (two_threads Holding Asleep CONTENDED) 0 = Holding \<and> word (two_threads Holding Asleep CONTENDED) \<noteq> UNLOCKED"
  using mutual_exclusion [OF sleeper_reached, of 0 0] by simp

lemma own_step_total:
  "p \<notin> {Outside, Asleep, Futex_wake} \<Longrightarrow> \<exists>p' w'. own_step p w = Some (p', w') \<and> p' \<noteq> p"
  by (cases "(p, w)" rule: own_step.cases) (auto simp: lock_fast_def compare_exchange_def unlock_def split: if_splits)

text \<open>
  C24. No wake-up is lost: when every thread is outside or asleep, none is asleep and the lock is
  free; and a thread that is neither outside nor asleep always has a step of its own, so the lock
  never deadlocks.
\<close>

theorem no_lost_wakeup:
  assumes "lock_reachable s"
  shows "((\<forall>t. pcs s t \<in> {Outside, Asleep}) \<longrightarrow> (\<forall>t. pcs s t = Outside) \<and> word s = UNLOCKED) \<and>
    (\<forall>t. pcs s t \<notin> {Outside, Asleep} \<longrightarrow> (\<exists>s'. lock_step s s' \<and> pcs s' t \<noteq> pcs s t))"
proof (intro conjI impI allI)
  note inv = reachable_lock_inv [OF assms]
  assume quiet: "\<forall>t. pcs s t \<in> {Outside, Asleep}"
  then have "\<not> owns (pcs s t)" for t by (metis insertE owns_simps(3,8) singletonD)
  then show free: "word s = UNLOCKED" using lock_invD(1) [OF inv] by blast
  fix t
  show "pcs s t = Outside"
  proof (rule ccontr)
    assume "pcs s t \<noteq> Outside"
    then have "pcs s t = Asleep" using quiet by blast
    from lock_invD(3) [OF inv this] free obtain u where "pcs s u = Futex_wake \<or> pcs s u = Exchange" by auto
    then show False using quiet [rule_format, of u] by auto
  qed
next
  fix t assume t: "pcs s t \<notin> {Outside, Asleep}"
  show "\<exists>s'. lock_step s s' \<and> pcs s' t \<noteq> pcs s t"
  proof (cases "pcs s t = Futex_wake")
    case False
    then obtain p w where "own_step (pcs s t) (word s) = Some (p, w)" "p \<noteq> pcs s t"
      using own_step_total t by blast
    then show ?thesis by (intro exI [of _ "at s t p w"]) (auto intro: lock_step.own)
  next
    case True
    show ?thesis
    proof (cases "\<exists>u. pcs s u = Asleep")
      case True
      then obtain u where u: "pcs s u = Asleep" by blast
      then have "u \<noteq> t" using t by auto
      then show ?thesis using lock_step.wake_one [OF \<open>pcs s t = Futex_wake\<close> u] \<open>pcs s t = Futex_wake\<close>
        by (intro exI [of _ "at (at s t Outside (word s)) u Exchange (word s)"]) simp
    next
      case False
      then show ?thesis using lock_step.wake_none [OF \<open>pcs s t = Futex_wake\<close>] \<open>pcs s t = Futex_wake\<close>
        by (intro exI [of _ "at s t Outside (word s)"]) simp
    qed
  qed
qed

theorem no_lost_wakeup_witness:
  "\<exists>s'. lock_step (two_threads Holding Asleep CONTENDED) s' \<and> pcs s' 0 \<noteq> Holding"
  using no_lost_wakeup [OF sleeper_reached] by (metis at_two_threads(3) insertE singletonD thread_pc.distinct)

text \<open>
  Whatever the word shows it, a thread leaves the spin phase within two steps more than the limit:
  it owns the lock or has reached the wait loop.
\<close>

fun spin_run :: "thread_pc \<Rightarrow> u32 list \<Rightarrow> thread_pc" where
  "spin_run p [] = p"
| "spin_run p (w # ws) =
     (case own_step p w of
        None \<Rightarrow> p
      | Some (Spin i e, _) \<Rightarrow> spin_run (Spin i e) ws
      | Some (After_spin e, _) \<Rightarrow> spin_run (After_spin e) ws
      | Some (p', _) \<Rightarrow> p')"

lemma spin_phase_ends:
  "SPIN_LIMIT - i + 2 \<le> length ws \<Longrightarrow>
   spin_run (Spin i e) ws = Holding \<or> (\<exists>e'. spin_run (Spin i e) ws = Wait_loop e')"
proof (induction "SPIN_LIMIT - i" arbitrary: i e ws)
  case 0
  then obtain w v vs where "ws = w # v # vs" by (auto simp: numeral_2_eq_2 Suc_le_length_iff)
  then show ?case using 0 by (auto split: if_splits)
next
  case (Suc n)
  then obtain w v vs where ws: "ws = w # v # vs" by (auto simp: numeral_2_eq_2 Suc_le_length_iff)
  show ?case
  proof (cases "e = CONTENDED")
    case True
    then show ?thesis by (simp add: ws)
  next
    case False
    have "spin_run (Spin (Suc i) e') (v # vs) = Holding \<or> (\<exists>e''. spin_run (Spin (Suc i) e') (v # vs) = Wait_loop e'')" for e'
      using Suc.hyps(2) Suc.prems ws by (intro Suc.hyps(1)) auto
    then show ?thesis using False Suc.hyps(2) by (auto simp: ws compare_exchange_def)
  qed
qed

end
