(* ===== verification/Event.thy ===== *)
theory Event
  imports Memory
begin

text \<open>
  \<^verbatim>\<open>event.h\<close> and \<^verbatim>\<open>lib/event.cpp\<close>: kernel events, and the slots of the signal pages of
  \<^verbatim>\<open>lib/context.cpp\<close> they point to. An event that was moved from has the descriptor \<open>-1\<close>. What
  the kernel writes to the event-data array of a wait is a run of words per event in its reply.
\<close>

section \<open>Types\<close>

datatype event_type = SIGNAL | HW_EXCEPTION | MEMORY

fun event_type_bits :: "event_type \<Rightarrow> u32" where
  "event_type_bits SIGNAL = 0"
| "event_type_bits HW_EXCEPTION = 3"
| "event_type_bits MEMORY = 8"

record memory_fault_data =
  mf_va :: u64
  mf_gpu_id :: u32
  mf_error_type :: u32
  mf_not_present :: u32
  mf_read_only :: u32
  mf_no_execute :: u32
  mf_imprecise :: u32

record hw_exception_data =
  hx_gpu_id :: u32
  hx_reset_type :: u32
  hx_reset_cause :: u32
  hx_memory_lost :: u32

record event_data =
  memory_fault :: memory_fault_data
  hw_exception :: hw_exception_data

record event =
  ev_fd :: int
  ev_id :: u32
  ev_trigger :: u32
  ev_slot_idx :: u32
  ev_slot :: u64
  ev_data :: event_data

definition no_event_data :: event_data where
  "no_event_data =
     \<lparr>memory_fault = \<lparr>mf_va = 0, mf_gpu_id = 0, mf_error_type = 0, mf_not_present = 0, mf_read_only = 0,
        mf_no_execute = 0, mf_imprecise = 0\<rparr>,
      hw_exception = \<lparr>hx_gpu_id = 0, hx_reset_type = 0, hx_reset_cause = 0, hx_memory_lost = 0\<rparr>\<rparr>"

definition null_event :: event where
  "null_event = \<lparr>ev_fd = - 1, ev_id = 0, ev_trigger = 0, ev_slot_idx = 0, ev_slot = 0, ev_data = no_event_data\<rparr>"

text \<open>
  Word \<open>k\<close> of the kernel's data for event \<open>i\<close>: the reply to a wait is the wait result and twelve
  words per event, the members of the kernel structure that the library reads.
\<close>

definition data_word :: "u64 list \<Rightarrow> nat \<Rightarrow> nat \<Rightarrow> u64" where
  "data_word out i k = out_word out (1 + 12 * i + k)"

definition make_event_data :: "u64 list \<Rightarrow> nat \<Rightarrow> event_data" where
  "make_event_data out i =
     \<lparr>memory_fault = \<lparr>mf_va = data_word out i 0, mf_gpu_id = ucast (data_word out i 1),
        mf_error_type = ucast (data_word out i 2), mf_not_present = ucast (data_word out i 3),
        mf_read_only = ucast (data_word out i 4), mf_no_execute = ucast (data_word out i 5),
        mf_imprecise = ucast (data_word out i 6)\<rparr>,
      hw_exception = \<lparr>hx_gpu_id = ucast (data_word out i 7), hx_reset_type = ucast (data_word out i 8),
        hx_reset_cause = ucast (data_word out i 9), hx_memory_lost = ucast (data_word out i 10)\<rparr>\<rparr>"

definition last_event_age :: "u64 list \<Rightarrow> nat \<Rightarrow> u64" where "last_event_age out i = data_word out i 11"

text \<open>Values of the kernel interface.\<close>

definition KFD_SIGNAL_EVENT_LIMIT :: u32 where "KFD_SIGNAL_EVENT_LIMIT = 4096"
definition WAIT_RESULT_COMPLETE :: u32 where "WAIT_RESULT_COMPLETE = 0"
definition WAIT_RESULT_TIMEOUT :: u32 where "WAIT_RESULT_TIMEOUT = 1"

section \<open>Slots of the signal pages\<close>

text \<open>The two pages of the process, set once by \<^verbatim>\<open>Context::create\<close>.\<close>

record signal_pages =
  event_page :: u64
  fence_page :: u64

definition event_slot :: "signal_pages \<Rightarrow> u32 \<Rightarrow> u64 res" where
  "event_slot pages i = fail_if (i \<ge> KFD_SIGNAL_EVENT_LIMIT) EINVAL (Inr (event_page pages + 8 * ucast i))"

definition fence_slot :: "signal_pages \<Rightarrow> u32 \<Rightarrow> u64 res" where
  "fence_slot pages i = fail_if (i \<ge> KFD_SIGNAL_EVENT_LIMIT) EINVAL (Inr (fence_page pages + 8 * ucast i))"

section \<open>Operations\<close>

definition event_create :: "kernel \<Rightarrow> int \<Rightarrow> signal_pages \<Rightarrow> event_type \<Rightarrow> event op" where
  "event_create K kfd pages ty =
     (let is_signal = (ty = SIGNAL)
      in op_try (sys K (CreateEvent 0 (event_type_bits ty) (if is_signal then 1 else 0))) (\<lambda>out.
         op_try (if is_signal then op_res (event_slot pages (ucast (out_word out 2))) else op_ret 0) (\<lambda>slot.
         op_ret \<lparr>ev_fd = kfd, ev_id = ucast (out_word out 0), ev_trigger = ucast (out_word out 1),
           ev_slot_idx = ucast (out_word out 2), ev_slot = slot, ev_data = no_event_data\<rparr>)))"

definition event_drop :: "kernel \<Rightarrow> event \<Rightarrow> unit op" where
  "event_drop K ev = (if ev_fd ev < 0 then op_ret () else op_assert (sys K (DestroyEvent (ev_id ev))) (op_ret ()))"

text \<open>Moving does not move the event data: the new event starts with none.\<close>

definition event_move :: "event \<Rightarrow> event \<times> event" where
  "event_move other = (other\<lparr>ev_data := no_event_data\<rparr>,
     other\<lparr>ev_fd := - 1, ev_id := 0, ev_trigger := 0, ev_slot_idx := 0, ev_slot := 0\<rparr>)"

definition event_assign :: "kernel \<Rightarrow> event \<Rightarrow> event \<Rightarrow> (event \<times> event) op" where
  "event_assign K this other = op_try (event_drop K this) (\<lambda>_.
     op_ret (other\<lparr>ev_data := ev_data this\<rparr>,
       other\<lparr>ev_fd := - 1, ev_id := 0, ev_trigger := 0, ev_slot_idx := 0, ev_slot := 0\<rparr>))"

definition timeout_ms :: "u64 \<Rightarrow> u32" where
  "timeout_ms timeout_ns = ucast (timeout_ns div 1000000)"

text \<open>What the code makes of the result of a wait.\<close>

definition check_wait_result :: "u64 list \<Rightarrow> 'a op \<Rightarrow> 'a op" where
  "check_wait_result out k =
     op_when (ucast (out_word out 0) = WAIT_RESULT_TIMEOUT) ETIMEDOUT (
     op_when (ucast (out_word out 0) \<noteq> WAIT_RESULT_COMPLETE) EIO k)"

definition event_wait :: "kernel \<Rightarrow> event \<Rightarrow> u64 \<Rightarrow> event op" where
  "event_wait K ev timeout_ns =
     op_try (sys K (WaitEvents [ev_id ev] True (timeout_ms timeout_ns))) (\<lambda>out.
     check_wait_result out (op_ret (ev\<lparr>ev_data := make_event_data out 0\<rparr>)))"

definition event_reset :: "kernel \<Rightarrow> event \<Rightarrow> unit op" where
  "event_reset K ev = op_try (sys K (ResetEvent (ev_id ev))) (\<lambda>_. op_ret ())"

definition event_signal :: "kernel \<Rightarrow> event \<Rightarrow> unit op" where
  "event_signal K ev = op_try (sys K (SetEvent (ev_id ev))) (\<lambda>_. op_ret ())"

text \<open>The event-data array has room for eight entries inline, of 48 bytes each.\<close>

definition do_wait_events :: "kernel \<Rightarrow> event list \<Rightarrow> bool \<Rightarrow> u64 \<Rightarrow> u64 list op" where
  "do_wait_events K events wait_for_all timeout_ns =
     op_try (vec_reserve K 48 8 (length events)) (\<lambda>_.
     op_try (sys K (WaitEvents (map ev_id events) wait_for_all (timeout_ms timeout_ns))) (\<lambda>out.
     check_wait_result out (op_ret out)))"

definition note_data :: "u64 list \<Rightarrow> event list \<Rightarrow> event list" where
  "note_data out events = map (\<lambda>(i, ev). ev\<lparr>ev_data := make_event_data out i\<rparr>) (enumerate 0 events)"

definition wait_all_events :: "kernel \<Rightarrow> event list \<Rightarrow> u64 \<Rightarrow> event list op" where
  "wait_all_events K events timeout_ns =
     (if events = [] then op_ret []
      else op_try (do_wait_events K events True timeout_ns) (\<lambda>out. op_ret (note_data out events)))"

definition fired :: "u64 list \<Rightarrow> nat \<Rightarrow> bool" where
  "fired out i \<longleftrightarrow> last_event_age out i \<noteq> 0 \<or> hx_gpu_id (hw_exception (make_event_data out i)) \<noteq> 0"

definition wait_any_events :: "kernel \<Rightarrow> event list \<Rightarrow> u64 \<Rightarrow> (nat \<times> event list) op" where
  "wait_any_events K events timeout_ns =
     op_when (events = []) EINVAL (
     op_try (do_wait_events K events False timeout_ns) (\<lambda>out.
     op_ret (case find (fired out) [0..<length events] of None \<Rightarrow> 0 | Some i \<Rightarrow> i, note_data out events)))"

section \<open>Events of the process\<close>

text \<open>The events that exist in the kernel, and its promise that a new event has a fresh id and a valid slot.\<close>

definition event_step :: "u32 set \<Rightarrow> sys_call \<times> reply \<Rightarrow> u32 set" where
  "event_step S cr = (case cr of
       (CreateEvent pg t ar, Done xs) \<Rightarrow> insert (ucast (out_word xs 0)) S
     | (DestroyEvent i, Done xs) \<Rightarrow> S - {i}
     | _ \<Rightarrow> S)"

definition live_events :: "history \<Rightarrow> u32 set" where "live_events h = foldl event_step {} h"

definition event_contract :: "kernel \<Rightarrow> bool" where
  "event_contract K \<longleftrightarrow>
     (\<forall>h pg t ar xs. K h (CreateEvent pg t ar) = Done xs \<longrightarrow>
        ucast (out_word xs 0) \<notin> live_events h \<and> (ucast (out_word xs 2) :: u32) < KFD_SIGNAL_EVENT_LIMIT)"

lemma live_events_snoc [op_simps]: "live_events (h @ [cr]) = event_step (live_events h) cr"
  by (simp add: live_events_def)

lemma event_steps [op_simps]:
  "event_step S (c, Failed e) = S"
  "event_step S (CreateEvent pg t ar, Done xs) = insert (ucast (out_word xs 0)) S"
  "event_step S (DestroyEvent i, Done xs) = S - {i}"
  "event_step S (Malloc n, r) = S" "event_step S (SetEvent i, r) = S" "event_step S (ResetEvent i, r) = S"
  "event_step S (WaitEvents is w t, r) = S"
  by (simp_all add: event_step_def split: sys_call.splits reply.splits)

text \<open>
  Creating an event leaves the kernel with exactly one new event, which the returned object
  names and whose slot lies in the event page, or fails and leaves none; destroying the object, or
  assigning another to it, gives it back, and an event that was moved from destroys nothing.
\<close>

theorem event_lifecycle:
  assumes "event_contract K" and "0 \<le> kfd" and "event_create K kfd pages ty h = (r, h1)"
  shows "case r of
     Inl e \<Rightarrow> live_events h1 = live_events h
   | Inr ev \<Rightarrow> live_events h1 = insert (ev_id ev) (live_events h) \<and> ev_id ev \<notin> live_events h \<and>
       (ty = SIGNAL \<longrightarrow> (\<exists>i < 4096. ev_slot ev = event_page pages + 8 * of_nat i)) \<and>
       (\<forall>h2 h3. event_drop K ev h2 = (Inr (), h3) \<longrightarrow> live_events h3 = live_events h2 - {ev_id ev}) \<and>
       (\<forall>other p h2 h3. event_assign K ev other h2 = (Inr p, h3) \<longrightarrow>
          live_events h3 = live_events h2 - {ev_id ev} \<and> ev_id (fst p) = ev_id other) \<and>
       fst (event_drop K (snd (event_move ev)) h) = Inr () \<and> snd (event_drop K (snd (event_move ev)) h) = h"
proof -
  have slot: "\<exists>i < 4096. event_page pages + 8 * ucast w = event_page pages + 8 * of_nat i"
    if "(w :: u32) < KFD_SIGNAL_EVENT_LIMIT" for w
    using that by (intro exI [of _ "unat w"]) (simp add: KFD_SIGNAL_EVENT_LIMIT_def word_less_nat_alt)
  show ?thesis
    using assms(2,3) slot
    by (auto simp: event_create_def event_drop_def event_assign_def event_move_def event_slot_def
        op_eqs op_simps Let_def fail_if_def not_le dest!: assms(1) [unfolded event_contract_def, rule_format]
        split: sum.splits if_splits)
qed

definition one_event_kernel :: kernel where
  "one_event_kernel h c = (case c of
       CreateEvent pg t ar \<Rightarrow> if 1 \<in> live_events h then Failed ENOMEM else Done [1, 5, 7]
     | _ \<Rightarrow> Done [])"

lemma one_event_contract: "event_contract one_event_kernel"
  by (auto simp: event_contract_def one_event_kernel_def KFD_SIGNAL_EVENT_LIMIT_def out_word_def split: if_splits)

theorem event_lifecycle_witness:
  "\<exists>ev h. event_create one_event_kernel 3 \<lparr>event_page = 0x7f0000000000, fence_page = 0\<rparr> SIGNAL [] = (Inr ev, h) \<and>
     live_events h = {1} \<and> (\<exists>i < 4096. ev_slot ev = 0x7f0000000000 + 8 * of_nat i) \<and>
     (\<forall>h3. event_drop one_event_kernel ev h = (Inr (), h3) \<longrightarrow> live_events h3 = {})"
proof -
  let ?pg = "\<lparr>event_page = 0x7f0000000000, fence_page = 0\<rparr>"
  define ev where "ev = \<lparr>ev_fd = 3, ev_id = 1, ev_trigger = 5, ev_slot_idx = 7, ev_slot = 0x7f0000000038,
    ev_data = no_event_data\<rparr>"
  have r: "event_create one_event_kernel 3 ?pg SIGNAL [] = (Inr ev, [(CreateEvent 0 0 1, Done [1, 5, 7])])"
    by (simp add: event_create_def one_event_kernel_def live_events_def op_try_def sys_def op_simps ev_def
        event_slot_def KFD_SIGNAL_EVENT_LIMIT_def out_word_def)
  have "live_events [] = {}" by (simp add: live_events_def)
  with event_lifecycle [OF one_event_contract _ r] r show ?thesis by (auto simp: ev_def)
qed

text \<open>
  The driver is trusted to hand out slots below the limit: had it not, the failed creation would
  leave the event behind. A timeout is cut to 32 bits of milliseconds, so a wait for \<open>2 ^ 32\<close>
  milliseconds polls instead.
\<close>

lemma event_create_leaks:
  assumes "K h (CreateEvent 0 0 1) = Done [9, 5, 4096]"
  shows "event_create K kfd pages SIGNAL h = (Inl EINVAL, h @ [(CreateEvent 0 0 1, Done [9, 5, 4096])])"
    and "9 \<in> live_events (snd (event_create K kfd pages SIGNAL h))"
proof -
  show r: "event_create K kfd pages SIGNAL h = (Inl EINVAL, h @ [(CreateEvent 0 0 1, Done [9, 5, 4096])])"
    by (simp add: event_create_def assms op_try_def sys_def op_simps event_slot_def KFD_SIGNAL_EVENT_LIMIT_def
        out_word_def)
  show "9 \<in> live_events (snd (event_create K kfd pages SIGNAL h))"
    unfolding r by (simp add: op_simps out_word_def)
qed

lemma long_wait_polls: "timeout_ms (2 ^ 32 * 1000000) = 0"
  by code_simp

end
