(* ===== verification/Resources.thy ===== *)
theory Resources
  imports Event "HOL-Library.Multiset"
begin

text \<open>
  Who owns what. The resources that the library acquires from the system are tokens: mapped bytes,
  memory objects, events, queues, descriptors and DRM handles. An operation is judged by the tokens
  it holds when it returns; the rules of the judgement follow the structure of the code, where
  every early return runs the destructors of the scopes it leaves.
\<close>

section \<open>Tokens\<close>

datatype token = Byte nat | Obj u64 | Evt u32 | Que u32 | Fd int | Drm u64

definition out_fd :: "u64 list \<Rightarrow> int" where
  "out_fd out = sint (ucast (out_word out 0) :: u32)"

text \<open>
  \<^verbatim>\<open>amdgpu_device_deinitialize\<close> has no result, and \<^verbatim>\<open>close\<close> releases the descriptor even when
  it reports an error, so their replies do not matter.
\<close>

definition token_step :: "token set \<Rightarrow> sys_call \<times> reply \<Rightarrow> token set" where
  "token_step S cr = (case cr of
       (DrmDeinit g, _) \<Rightarrow> S - {Drm g}
     | (Close d, _) \<Rightarrow> S - {Fd d}
     | (_, Failed e) \<Rightarrow> S
     | (Mmap a l p f d off, Done xs) \<Rightarrow> S \<union> Byte ` {unat (out_word xs 0)..<unat (out_word xs 0) + unat l}
     | (Munmap a l, Done xs) \<Rightarrow> S - Byte ` {unat a..<unat a + unat l}
     | (Mremap a l n, Done xs) \<Rightarrow> S \<union> Byte ` {unat a..<unat a + unat n}
     | (AllocMemory a l off g f, Done xs) \<Rightarrow> insert (Obj (out_word xs 0)) S
     | (FreeMemory g, Done xs) \<Rightarrow> S - {Obj g}
     | (CreateEvent pg t ar, Done xs) \<Rightarrow> insert (Evt (ucast (out_word xs 0))) S
     | (DestroyEvent i, Done xs) \<Rightarrow> S - {Evt i}
     | (CreateQueue q, Done xs) \<Rightarrow> insert (Que (ucast (out_word xs 0))) S
     | (DestroyQueue i, Done xs) \<Rightarrow> S - {Que i}
     | (Open p, Done xs) \<Rightarrow> insert (Fd (out_fd xs)) S
     | (DrmInit d, Done xs) \<Rightarrow> insert (Drm (out_word xs 0)) S
     | _ \<Rightarrow> S)"

definition owned :: "history \<Rightarrow> token set" where "owned h = foldl token_step {} h"

lemma owned_Nil [op_simps]: "owned [] = {}"
  by (simp add: owned_def)

lemma owned_snoc [op_simps]: "owned (h @ [cr]) = token_step (owned h) cr"
  by (simp add: owned_def)

lemma token_steps [op_simps]:
  "token_step S (DrmDeinit g, r) = S - {Drm g}"
  "token_step S (Mmap a l p f d off, Done xs) = S \<union> Byte ` {unat (out_word xs 0)..<unat (out_word xs 0) + unat l}"
  "token_step S (Munmap a l, Done xs) = S - Byte ` {unat a..<unat a + unat l}"
  "token_step S (AllocMemory a l off gp fl, Done xs) = insert (Obj (out_word xs 0)) S"
  "token_step S (FreeMemory g, Done xs) = S - {Obj g}"
  "token_step S (CreateEvent pg t ar, Done xs) = insert (Evt (ucast (out_word xs 0))) S"
  "token_step S (DestroyEvent i, Done xs) = S - {Evt i}"
  "token_step S (CreateQueue q, Done xs) = insert (Que (ucast (out_word xs 0))) S"
  "token_step S (DestroyQueue i, Done xs) = S - {Que i}"
  "token_step S (Open pt, Done xs) = insert (Fd (out_fd xs)) S"
  "token_step S (Close fd, r) = S - {Fd fd}"
  "token_step S (DrmInit fd, Done xs) = insert (Drm (out_word xs 0)) S"
  by (simp_all add: token_step_def split: reply.splits)

lemma token_step_failed: "(\<And>g. c \<noteq> DrmDeinit g) \<Longrightarrow> (\<And>d. c \<noteq> Close d) \<Longrightarrow> token_step S (c, Failed e) = S"
  by (simp add: token_step_def split: sys_call.splits)

text \<open>The calls that acquire and release nothing, whatever their reply.\<close>

fun inert :: "sys_call \<Rightarrow> bool" where
  "inert (Mmap a l p f d off) = False"
| "inert (Munmap a l) = False"
| "inert (Mremap a l n) = False"
| "inert (Open pt) = False"
| "inert (Close fd) = False"
| "inert (AllocMemory a l off g f) = False"
| "inert (FreeMemory g) = False"
| "inert (CreateEvent pg t ar) = False"
| "inert (DestroyEvent i) = False"
| "inert (CreateQueue q) = False"
| "inert (DestroyQueue i) = False"
| "inert (DrmInit fd) = False"
| "inert (DrmDeinit g) = False"
| "inert _ = True"

lemma token_step_inert: "inert c \<Longrightarrow> token_step S (c, r) = S"
  by (cases c; cases r) (simp_all add: token_step_def)

text \<open>The address space and the memory objects of the earlier theories are the tokens of their kind.\<close>

lemma token_of_vm: "Byte n \<in> owned h \<longleftrightarrow> n \<in> vm h"
proof (induction h rule: rev_induct)
  case (snoc cr h)
  obtain c r where cr: "cr = (c, r)" by fastforce
  show ?case unfolding cr using snoc
    by (cases c; cases r) (auto simp: vm_snoc owned_snoc vm_step_def token_step_def)
qed (simp add: vm_def owned_def)

lemma token_of_gpu: "Obj g \<in> owned h \<longleftrightarrow> g \<in> gpu_objects h"
proof (induction h rule: rev_induct)
  case (snoc cr h)
  obtain c r where cr: "cr = (c, r)" by fastforce
  show ?case unfolding cr using snoc
    by (cases c; cases r) (auto simp: gpu_objects_snoc owned_snoc gpu_step_def token_step_def)
qed (simp add: gpu_objects_def owned_def)

lemma token_of_event: "Evt i \<in> owned h \<longleftrightarrow> i \<in> live_events h"
proof (induction h rule: rev_induct)
  case (snoc cr h)
  obtain c r where cr: "cr = (c, r)" by fastforce
  show ?case unfolding cr using snoc
    by (cases c; cases r) (auto simp: live_events_snoc owned_snoc event_step_def token_step_def)
qed (simp add: live_events_def owned_def)

section \<open>Scopes\<close>

lemma fatal_errors [simp]: "fatal ABORT" "fatal UB" "fatal HANGS"
  by (simp_all add: fatal_def)

text \<open>What an early return out of a scope runs: the destructors of the scope, then the return.\<close>

definition on_error :: "unit op \<Rightarrow> 'a op \<Rightarrow> 'a op" where
  "on_error d m = op_catch m (\<lambda>e. op_try d (\<lambda>_. op_fail e)) op_ret"

lemma on_error_eq:
  "on_error d m h = (r, h') \<longleftrightarrow>
     (\<exists>y. m h = (Inr y, h') \<and> r = Inr y) \<or> (\<exists>e. fatal e \<and> m h = (Inl e, h') \<and> r = Inl e) \<or>
     (\<exists>e h1. \<not> fatal e \<and> m h = (Inl e, h1) \<and>
        ((\<exists>x. d h1 = (Inl x, h') \<and> r = Inl x) \<or> (\<exists>u. d h1 = (Inr u, h') \<and> r = Inl e)))"
  unfolding on_error_def by (auto simp: op_eqs op_catch_eq op_res_eq split: if_splits)

text \<open>
  The bag of an assertion is a separate part of what is owned: \<open>holds T U m F\<close> says that \<open>m\<close>, started
  with the tokens \<open>T\<close> and any others, ends with the others and \<open>F y\<close> when it returns \<open>y\<close>, and with
  the others and \<open>U\<close> when it fails.
\<close>

definition bag :: "history \<Rightarrow> token multiset" where "bag h = mset_set (owned h)"

definition holds :: "token multiset \<Rightarrow> token multiset \<Rightarrow> 'a op \<Rightarrow> ('a \<Rightarrow> token multiset) \<Rightarrow> bool" where
  "holds T U m F \<longleftrightarrow>
     (\<forall>B h r h'. bag h = B + T \<and> m h = (r, h') \<longrightarrow>
        (case r of Inr y \<Rightarrow> bag h' = B + F y | Inl e \<Rightarrow> fatal e \<or> bag h' = B + U))"

definition drops :: "token multiset \<Rightarrow> 'a op \<Rightarrow> bool" where
  "drops R d \<longleftrightarrow>
     (\<forall>B h r h'. bag h = B + R \<and> d h = (r, h') \<longrightarrow> (case r of Inr _ \<Rightarrow> bag h' = B | Inl e \<Rightarrow> fatal e))"

definition neutral :: "'a op \<Rightarrow> bool" where
  "neutral m \<longleftrightarrow> (\<forall>h r h'. m h = (r, h') \<longrightarrow> owned h' = owned h)"

definition yields :: "'a op \<Rightarrow> 'a \<Rightarrow> bool" where
  "yields m x \<longleftrightarrow> (\<exists>h h'. m h = (Inr x, h'))"

named_theorems own_rules \<open>rules of the ownership judgement\<close>

lemma finite_owned: "finite (owned h)"
proof (induction h rule: rev_induct)
  case (snoc cr h)
  obtain c r where cr: "cr = (c, r)" by fastforce
  show ?case unfolding cr using snoc by (cases c; cases r) (auto simp: owned_snoc token_step_def)
qed (simp add: owned_def)

lemma bag_insert: "t \<notin> owned h \<Longrightarrow> owned h' = insert t (owned h) \<Longrightarrow> bag h' = bag h + {#t#}"
  by (simp add: bag_def finite_owned)

lemma bag_union: "A \<inter> owned h = {} \<Longrightarrow> finite A \<Longrightarrow> owned h' = owned h \<union> A \<Longrightarrow> bag h' = bag h + mset_set A"
  by (simp add: bag_def finite_owned mset_set_Union Int_commute)

lemma bag_minus:
  assumes "bag h = B + mset_set A" and "finite A" and "owned h' = owned h - A"
  shows "bag h' = B"
proof -
  have "A \<subseteq> owned h"
  proof
    fix x assume "x \<in> A"
    then have "x \<in># bag h" using assms(1,2) by simp
    then show "x \<in> owned h" by (simp add: bag_def finite_owned)
  qed
  then have "bag h' = bag h - mset_set A" using assms(3) by (simp add: bag_def mset_set_Diff finite_owned)
  with assms(1) show ?thesis by simp
qed

lemma failed_call: "(\<And>g. c \<noteq> DrmDeinit g) \<Longrightarrow> (\<And>d. c \<noteq> Close d) \<Longrightarrow> bag (h @ [(c, Failed e)]) = bag h"
  by (simp add: bag_def owned_snoc token_step_failed)

lemma holdsD:
  "holds T U m F \<Longrightarrow> bag h = B + T \<Longrightarrow> m h = (Inr y, h') \<Longrightarrow> bag h' = B + F y"
  "holds T U m F \<Longrightarrow> bag h = B + T \<Longrightarrow> m h = (Inl e, h') \<Longrightarrow> \<not> fatal e \<Longrightarrow> bag h' = B + U"
  unfolding holds_def by fastforce+

lemma holdsI:
  assumes "\<And>B h y h'. bag h = B + T \<Longrightarrow> m h = (Inr y, h') \<Longrightarrow> bag h' = B + F y"
    and "\<And>B h e h'. bag h = B + T \<Longrightarrow> m h = (Inl e, h') \<Longrightarrow> \<not> fatal e \<Longrightarrow> bag h' = B + U"
  shows "holds T U m F"
  unfolding holds_def
proof (intro allI impI, elim conjE)
  fix B h r h' assume a: "bag h = B + T" "m h = (r, h')"
  show "case r of Inr y \<Rightarrow> bag h' = B + F y | Inl e \<Rightarrow> fatal e \<or> bag h' = B + U"
  proof (cases r)
    case (Inl e)
    with assms(2) [OF a(1), of e h'] a(2) show ?thesis by auto
  next
    case (Inr y)
    with assms(1) [OF a(1), of y h'] a(2) show ?thesis by simp
  qed
qed

lemma dropsD:
  "drops R d \<Longrightarrow> bag h = B + R \<Longrightarrow> d h = (Inr x, h') \<Longrightarrow> bag h' = B"
  "drops R d \<Longrightarrow> bag h = B + R \<Longrightarrow> d h = (Inl e, h') \<Longrightarrow> fatal e"
  unfolding drops_def by fastforce+

lemma dropsI:
  assumes "\<And>B h x h'. bag h = B + R \<Longrightarrow> d h = (Inr x, h') \<Longrightarrow> bag h' = B"
    and "\<And>B h e h'. bag h = B + R \<Longrightarrow> d h = (Inl e, h') \<Longrightarrow> fatal e"
  shows "drops R d"
  unfolding drops_def
proof (intro allI impI, elim conjE)
  fix B h r h' assume a: "bag h = B + R" "d h = (r, h')"
  then show "case r of Inr _ \<Rightarrow> bag h' = B | Inl e \<Rightarrow> fatal e"
    using assms(1) [OF a(1), of _ h'] assms(2) [OF a(1), of _ h'] by (cases r) auto
qed

lemma holds_ret [own_rules]: "F y = T \<Longrightarrow> holds T U (op_ret y) F"
  by (rule holdsI) (auto simp: op_eqs)

lemma holds_fail [own_rules]: "T = U \<Longrightarrow> holds T U (op_fail e) F"
  by (rule holdsI) (auto simp: op_eqs)

lemma holds_when [own_rules]: "T = U \<Longrightarrow> holds T U m F \<Longrightarrow> holds T U (op_when c e m) F"
  by (simp add: op_when_def holds_fail)

lemma holds_frame:
  assumes "holds T U m F"
  shows "holds (T + V) (U + V) m (\<lambda>y. F y + V)"
proof (rule holdsI)
  fix B h y h' assume a: "bag h = B + (T + V)" "m h = (Inr y, h')"
  from holdsD(1) [OF assms _ a(2), of "B + V"] a(1) show "bag h' = B + (F y + V)" by (simp add: ac_simps)
next
  fix B h e h' assume a: "bag h = B + (T + V)" "m h = (Inl e, h')" "\<not> fatal e"
  from holdsD(2) [OF assms _ a(2,3), of "B + V"] a(1) show "bag h' = B + (U + V)" by (simp add: ac_simps)
qed

lemma holds_post:
  assumes "holds T U m F" and "\<And>y. yields m y \<Longrightarrow> F y = G y"
  shows "holds T U m G"
proof (rule holdsI)
  fix B h y h' assume a: "bag h = B + T" "m h = (Inr y, h')"
  then have "F y = G y" using assms(2) by (auto simp: yields_def)
  with holdsD(1) [OF assms(1) a] show "bag h' = B + G y" by simp
qed (rule holdsD(2) [OF assms(1)])

lemma holds_gain:
  assumes "holds {#} {#} m R" and "\<And>y. yields m y \<Longrightarrow> F y = T + R y"
  shows "holds T T m F"
proof (rule holds_post)
  show "holds T T m (\<lambda>y. R y + T)" using holds_frame [OF assms(1), of T] by simp
qed (simp add: assms(2) add.commute)

lemma holds_try:
  assumes "holds T U m R" and "\<And>x. yields m x \<Longrightarrow> holds (R x) U (k x) F"
  shows "holds T U (op_try m k) F"
proof (rule holdsI)
  fix B h y h' assume a: "bag h = B + T" "op_try m k h = (Inr y, h')"
  then obtain x h1 where b: "m h = (Inr x, h1)" "k x h1 = (Inr y, h')" by (auto simp: op_try_eq)
  then have "yields m x" by (auto simp: yields_def)
  from holdsD(1) [OF assms(2) [OF this] holdsD(1) [OF assms(1) a(1) b(1)] b(2)] show "bag h' = B + F y" .
next
  fix B h e h' assume a: "bag h = B + T" "op_try m k h = (Inl e, h')" "\<not> fatal e"
  then consider "m h = (Inl e, h')" | x h1 where "m h = (Inr x, h1)" "k x h1 = (Inl e, h')"
    by (auto simp: op_try_eq)
  then show "bag h' = B + U"
  proof cases
    case 1
    from holdsD(2) [OF assms(1) a(1) 1 a(3)] show ?thesis .
  next
    case 2
    then have "yields m x" by (auto simp: yields_def)
    from holdsD(2) [OF assms(2) [OF this] holdsD(1) [OF assms(1) a(1) 2(1)] 2(2) a(3)] show ?thesis .
  qed
qed

text \<open>The failure branch of \<open>op_else\<close> must not see an abort: the process has ended.\<close>

definition survives :: "'a op \<Rightarrow> bool" where
  "survives m \<longleftrightarrow> (\<forall>h e h'. m h = (Inl e, h') \<longrightarrow> \<not> fatal e)"

lemma holds_else:
  assumes "holds T V m R" and "\<And>e. holds V U (f e) F" and "\<And>x. yields m x \<Longrightarrow> holds (R x) U (k x) F"
    and "survives m"
  shows "holds T U (op_else m f k) F"
proof -
  have "case r of Inr y \<Rightarrow> bag h' = B + F y | Inl e \<Rightarrow> fatal e \<or> bag h' = B + U"
    if a: "bag h = B + T" "op_else m f k h = (r, h')" for B h r h'
  proof -
    from a(2) consider e h1 where "m h = (Inl e, h1)" "f e h1 = (r, h')"
      | x h1 where "m h = (Inr x, h1)" "k x h1 = (r, h')"
      by (auto simp: op_else_eq)
    then show ?thesis
    proof cases
      case 1
      then have "\<not> fatal e" using assms(4) by (auto simp: survives_def)
      from holdsD(2) [OF assms(1) a(1) 1(1) this] have "bag h1 = B + V" .
      with assms(2) [of e] 1(2) show ?thesis unfolding holds_def by blast
    next
      case 2
      then have "yields m x" by (auto simp: yields_def)
      from assms(3) [OF this] holdsD(1) [OF assms(1) a(1) 2(1)] 2(2) show ?thesis unfolding holds_def by blast
    qed
  qed
  then show ?thesis unfolding holds_def by blast
qed

lemma holds_catch:
  assumes "holds T V m R" and "\<And>e. holds V U (f e) F" and "\<And>x. yields m x \<Longrightarrow> holds (R x) U (k x) F"
  shows "holds T U (op_catch m f k) F"
proof -
  have "case r of Inr y \<Rightarrow> bag h' = B + F y | Inl e \<Rightarrow> fatal e \<or> bag h' = B + U"
    if a: "bag h = B + T" "op_catch m f k h = (r, h')" for B h r h'
  proof -
    from a(2) consider e h1 where "\<not> fatal e" "m h = (Inl e, h1)" "f e h1 = (r, h')"
      | e where "fatal e" "r = Inl e"
      | x h1 where "m h = (Inr x, h1)" "k x h1 = (r, h')"
      by (auto simp: op_catch_eq op_eqs split: if_splits)
    then show ?thesis
    proof cases
      case 1
      from holdsD(2) [OF assms(1) a(1) 1(2,1)] have "bag h1 = B + V" .
      with assms(2) [of e] 1(3) show ?thesis unfolding holds_def by blast
    next
      case 2
      then show ?thesis by simp
    next
      case 3
      then have "yields m x" by (auto simp: yields_def)
      from assms(3) [OF this] holdsD(1) [OF assms(1) a(1) 3(1)] 3(2) show ?thesis unfolding holds_def by blast
    qed
  qed
  then show ?thesis unfolding holds_def by blast
qed

lemma holds_on_error:
  assumes "holds T (U + D) m F" and "drops D d"
  shows "holds T U (on_error d m) F"
proof (rule holdsI)
  fix B h y h' assume a: "bag h = B + T" "on_error d m h = (Inr y, h')"
  then show "bag h' = B + F y" using holdsD(1) [OF assms(1)] by (auto simp: on_error_eq)
next
  fix B h e h' assume a: "bag h = B + T" "on_error d m h = (Inl e, h')" "\<not> fatal e"
  then obtain e1 h1 where b: "\<not> fatal e1" "m h = (Inl e1, h1)"
    "d h1 = (Inl e, h') \<or> (\<exists>u. d h1 = (Inr u, h'))" by (auto simp: on_error_eq)
  from holdsD(2) [OF assms(1) a(1) b(2,1)] have "bag h1 = (B + U) + D" by (simp add: ac_simps)
  from dropsD [OF assms(2) this] b(3) a(3) show "bag h' = B + U" by blast
qed

text \<open>Acquire, and release again when the rest of the scope fails.\<close>

lemma holds_scope:
  assumes "holds {#} {#} m R" and "\<And>x. drops (R x) (d x)"
    and "\<And>x. yields m x \<Longrightarrow> holds (T + R x) (T + R x) (k x) F"
  shows "holds T T (op_try m (\<lambda>x. on_error (d x) (k x))) F"
  by (rule holds_try [OF holds_gain [OF assms(1)]], rule refl, rule holds_on_error [OF assms(3) assms(2)])

lemma neutral_holds: "neutral m \<Longrightarrow> holds T T m (\<lambda>_. T)"
  by (rule holdsI) (auto simp: neutral_def bag_def)

lemma holds_neutral:
  "neutral m \<Longrightarrow> (\<And>x. yields m x \<Longrightarrow> holds T T (k x) F) \<Longrightarrow> holds T T (op_try m k) F"
  by (rule holds_try [OF neutral_holds])

lemma neutral_basic [own_rules]: "neutral (op_ret x)" "neutral (op_fail e)" "neutral (op_res r)"
  "inert c \<Longrightarrow> neutral (sys K c)"
  by (auto simp: neutral_def op_simps sys_eq token_step_inert)

lemma neutral_try [own_rules]: "neutral m \<Longrightarrow> (\<And>x. neutral (k x)) \<Longrightarrow> neutral (op_try m k)"
  unfolding neutral_def by (auto simp: op_try_eq)

lemma neutral_else [own_rules]:
  "neutral m \<Longrightarrow> (\<And>e. neutral (f e)) \<Longrightarrow> (\<And>x. neutral (k x)) \<Longrightarrow> neutral (op_else m f k)"
  unfolding neutral_def by (auto simp: op_else_eq)

lemma neutral_assert [own_rules]: "neutral m \<Longrightarrow> neutral k \<Longrightarrow> neutral (op_assert m k)"
  unfolding neutral_def by (auto simp: op_assert_eq)

lemma neutral_when [own_rules]: "neutral m \<Longrightarrow> neutral (op_when c e m)"
  unfolding neutral_def by (auto simp: op_when_eq split: if_splits)

lemma drops_ret [own_rules]: "drops {#} (op_ret x)"
  by (rule dropsI) (auto simp: op_simps)

lemma drops_seq [own_rules]:
  assumes "drops R m" and "\<And>x. drops S (k x)"
  shows "drops (R + S) (op_try m k)"
proof (rule dropsI)
  fix B h x h' assume a: "bag h = B + (R + S)" "op_try m k h = (Inr x, h')"
  then obtain y h1 where b: "m h = (Inr y, h1)" "k y h1 = (Inr x, h')" by (auto simp: op_try_eq)
  from dropsD(1) [OF assms(1) _ b(1), of "B + S"] a(1) have "bag h1 = B + S" by (simp add: ac_simps)
  from dropsD(1) [OF assms(2) this b(2)] show "bag h' = B" .
next
  fix B h e h' assume a: "bag h = B + (R + S)" "op_try m k h = (Inl e, h')"
  then consider "m h = (Inl e, h')" | y h1 where "m h = (Inr y, h1)" "k y h1 = (Inl e, h')"
    by (auto simp: op_try_eq)
  then show "fatal e"
  proof cases
    case 1
    from dropsD(2) [OF assms(1) _ 1, of "B + S"] a(1) show ?thesis by (simp add: ac_simps)
  next
    case 2
    from dropsD(1) [OF assms(1) _ 2(1), of "B + S"] a(1) have "bag h1 = B + S" by (simp add: ac_simps)
    from dropsD(2) [OF assms(2) this 2(2)] show ?thesis .
  qed
qed

lemma drops_post: "drops R d \<Longrightarrow> R = S \<Longrightarrow> drops S d"
  by simp

text \<open>An asserted call that releases one set of tokens.\<close>

lemma drops_assert:
  assumes "\<And>h xs. K h c = Done xs \<Longrightarrow> owned (h @ [(c, Done xs)]) = owned h - A" and "finite A"
  shows "drops (mset_set A) (op_assert (sys K c) (op_ret u))"
proof (rule dropsI)
  fix B h x h' assume a: "bag h = B + mset_set A" "op_assert (sys K c) (op_ret u) h = (Inr x, h')"
  then obtain xs where "K h c = Done xs" "h' = h @ [(c, Done xs)]" by (auto simp: op_eqs)
  with bag_minus [OF a(1) assms(2)] assms(1) show "bag h' = B" by simp
qed (auto simp: op_eqs)

section \<open>What the system promises\<close>

text \<open>
  Beside the contracts of \<^verbatim>\<open>mmap\<close>, of the allocation of memory objects and of events: new
  queues, descriptors and DRM handles are not in use, a mutex of four bytes can always be
  allocated, and no call reports an error that only the model has.
\<close>

definition os_contract :: "kernel \<Rightarrow> bool" where
  "os_contract K \<longleftrightarrow> mmap_contract K \<and> alloc_contract K \<and> event_contract K \<and> honest K \<and>
     (\<forall>h. \<exists>xs. K h (Malloc 4) = Done xs) \<and>
     (\<forall>h q xs. K h (CreateQueue q) = Done xs \<longrightarrow> Que (ucast (out_word xs 0)) \<notin> owned h) \<and>
     (\<forall>h p xs. K h (Open p) = Done xs \<longrightarrow> Fd (out_fd xs) \<notin> owned h) \<and>
     (\<forall>h d xs. K h (DrmInit d) = Done xs \<longrightarrow> Drm (out_word xs 0) \<notin> owned h)"

lemma os_contractD:
  assumes "os_contract K"
  shows "mmap_contract K" "alloc_contract K" "event_contract K" "honest K" "\<exists>xs. K h (Malloc 4) = Done xs"
    "K h (CreateQueue q) = Done xs \<Longrightarrow> Que (ucast (out_word xs 0)) \<notin> owned h"
    "K h (Open p) = Done xs \<Longrightarrow> Fd (out_fd xs) \<notin> owned h"
    "K h (DrmInit d) = Done xs \<Longrightarrow> Drm (out_word xs 0) \<notin> owned h"
    "K h (AllocMemory a l off g f) = Done xs \<Longrightarrow> out_word xs 0 \<noteq> 0 \<and> Obj (out_word xs 0) \<notin> owned h"
    "K h (CreateEvent pg t ar) = Done xs \<Longrightarrow> Evt (ucast (out_word xs 0)) \<notin> owned h"
    "K h (CreateEvent pg t ar) = Done xs \<Longrightarrow> (ucast (out_word xs 2) :: u32) < KFD_SIGNAL_EVENT_LIMIT"
  using assms by (auto simp: os_contract_def alloc_contract_def event_contract_def token_of_gpu token_of_event)

text \<open>A call in a scope: it fails and changes nothing, or it gains what it returns.\<close>

lemma holds_sys:
  assumes "\<And>h xs. K h c = Done xs \<Longrightarrow> A xs \<inter> owned h = {} \<and> owned (h @ [(c, Done xs)]) = owned h \<union> A xs"
    and "\<And>xs. finite (A xs)" and "\<And>g. c \<noteq> DrmDeinit g" and "\<And>d. c \<noteq> Close d"
  shows "holds T T (sys K c) (\<lambda>xs. T + mset_set (A xs))"
proof (rule holdsI)
  fix B h y h' assume a: "bag h = B + T" "sys K c h = (Inr y, h')"
  then have d: "K h c = Done y" "h' = h @ [(c, Done y)]" by (auto simp: sys_eq)
  from assms(1) [OF d(1)] bag_union [OF _ assms(2)] d(2) have "bag h' = bag h + mset_set (A y)" by simp
  with a(1) show "bag h' = B + (T + mset_set (A y))" by (simp add: ac_simps)
next
  fix B h e h' assume a: "bag h = B + T" "sys K c h = (Inl e, h')"
  then show "bag h' = B + T" using token_step_failed [OF assms(3,4)] by (auto simp: sys_eq bag_def owned_snoc)
qed

lemma holds_calls:
  assumes "os_contract K"
  shows "holds T T (sys K (AllocMemory a l off g f)) (\<lambda>xs. T + {#Obj (out_word xs 0)#})"
    and "holds T T (sys K (CreateEvent pg t ar)) (\<lambda>xs. T + {#Evt (ucast (out_word xs 0))#})"
    and "holds T T (sys K (CreateQueue q)) (\<lambda>xs. T + {#Que (ucast (out_word xs 0))#})"
    and "holds T T (sys K (Open p)) (\<lambda>xs. T + {#Fd (out_fd xs)#})"
    and "holds T T (sys K (DrmInit d)) (\<lambda>xs. T + {#Drm (out_word xs 0)#})"
proof -
  note C = os_contractD [OF assms]
  show "holds T T (sys K (AllocMemory a l off g f)) (\<lambda>xs. T + {#Obj (out_word xs 0)#})"
    using holds_sys [where A = "\<lambda>xs. {Obj (out_word xs 0)}"] C(9) by (simp add: op_simps)
  show "holds T T (sys K (CreateEvent pg t ar)) (\<lambda>xs. T + {#Evt (ucast (out_word xs 0))#})"
    using holds_sys [where A = "\<lambda>xs. {Evt (ucast (out_word xs 0))}"] C(10) by (simp add: op_simps)
  show "holds T T (sys K (CreateQueue q)) (\<lambda>xs. T + {#Que (ucast (out_word xs 0))#})"
    using holds_sys [where A = "\<lambda>xs. {Que (ucast (out_word xs 0))}"] C(6) by (simp add: op_simps)
  show "holds T T (sys K (Open p)) (\<lambda>xs. T + {#Fd (out_fd xs)#})"
    using holds_sys [where A = "\<lambda>xs. {Fd (out_fd xs)}"] C(7) by (simp add: op_simps)
  show "holds T T (sys K (DrmInit d)) (\<lambda>xs. T + {#Drm (out_word xs 0)#})"
    using holds_sys [where A = "\<lambda>xs. {Drm (out_word xs 0)}"] C(8) by (simp add: op_simps)
qed

lemma survives_sys: "honest K \<Longrightarrow> survives (sys K c)" "honest K \<Longrightarrow> survives (region_rebind K r fd prot off)"
  unfolding survives_def honest_def fatal_def region_rebind_def by (auto simp: op_eqs)

text \<open>Releasing in the middle of an operation, and an asserted release.\<close>

lemma holds_drop:
  assumes "drops R d" and "\<And>x. holds S U (k x) F"
  shows "holds (S + R) U (op_try d k) F"
proof (rule holdsI)
  fix B h y h' assume a: "bag h = B + (S + R)" "op_try d k h = (Inr y, h')"
  then obtain x h1 where b: "d h = (Inr x, h1)" "k x h1 = (Inr y, h')" by (auto simp: op_try_eq)
  from dropsD(1) [OF assms(1) _ b(1), of "B + S"] a(1) have "bag h1 = B + S" by (simp add: ac_simps)
  from holdsD(1) [OF assms(2) this b(2)] show "bag h' = B + F y" .
next
  fix B h e h' assume a: "bag h = B + (S + R)" "op_try d k h = (Inl e, h')" "\<not> fatal e"
  then obtain x h1 where b: "d h = (Inr x, h1)" "k x h1 = (Inl e, h')"
    using dropsD(2) [OF assms(1), of h "B + S"] by (auto simp: op_try_eq ac_simps)
  from dropsD(1) [OF assms(1) _ b(1), of "B + S"] a(1) have "bag h1 = B + S" by (simp add: ac_simps)
  from holdsD(2) [OF assms(2) this b(2) a(3)] show "bag h' = B + U" .
qed

lemma op_assert_try: "op_assert (sys K c) k = op_try (op_assert (sys K c) (op_ret ())) (\<lambda>_. k)"
  by (auto simp: op_assert_def op_try_def op_ret_def fun_eq_iff split: prod.splits sum.splits)

lemma drops_calls:
  "drops {#Obj g#} (op_assert (sys K (FreeMemory g)) (op_ret u))"
  "drops {#Evt i#} (op_assert (sys K (DestroyEvent i)) (op_ret u))"
  "drops {#Que i#} (op_assert (sys K (DestroyQueue i)) (op_ret u))"
  "drops (mset_set (Byte ` {unat a..<unat a + unat l})) (op_assert (sys K (Munmap a l)) (op_ret u))"
  using drops_assert [of K "FreeMemory g" "{Obj g}"] drops_assert [of K "DestroyEvent i" "{Evt i}"]
    drops_assert [of K "DestroyQueue i" "{Que i}"]
    drops_assert [of K "Munmap a l" "Byte ` {unat a..<unat a + unat l}"]
  by (simp_all add: op_simps)

section \<open>Regions\<close>

definition region_bag :: "region \<Rightarrow> token multiset" where
  "region_bag r = (if rg_addr r = 0 then {#} else mset_set (Byte ` region_bytes r))"

lemma null_region_bag [simp]: "region_bag null_region = {#}"
  by (simp add: region_bag_def null_region_def)

text \<open>Calls that change the address space only.\<close>

definition vm_call :: "sys_call \<Rightarrow> bool" where
  "vm_call c = (case c of Mmap a l p f d off \<Rightarrow> True | Munmap a l \<Rightarrow> True | _ \<Rightarrow> False)"

lemma owned_vm_calls:
  "list_all (\<lambda>cr. vm_call (fst cr)) t \<Longrightarrow> owned (h @ t) = (owned h - range Byte) \<union> Byte ` vm (h @ t)"
proof (induction t rule: rev_induct)
  case Nil
  then show ?case using token_of_vm [of _ h] by auto
next
  case (snoc cr t)
  obtain c r where cr: "cr = (c, r)" by fastforce
  have IH: "owned (h @ t) = (owned h - range Byte) \<union> Byte ` vm (h @ t)" using snoc by simp
  have "vm_call c" using snoc.prems cr by simp
  then show ?case unfolding append_assoc [symmetric] owned_snoc vm_snoc cr IH
    by (cases c; cases r) (auto simp: vm_call_def token_step_def vm_step_def)
qed

lemma region_gain:
  assumes "region_bytes r \<inter> vm h = {}" and "vm (h @ t) = vm h \<union> region_bytes r"
    and "list_all (\<lambda>cr. vm_call (fst cr)) t" and "rg_addr r \<noteq> 0"
  shows "bag (h @ t) = bag h + region_bag r"
proof -
  have "owned (h @ t) = owned h \<union> Byte ` region_bytes r"
    using owned_vm_calls [OF assms(3)] token_of_vm [of _ h] assms(2) by auto
  moreover have "Byte ` region_bytes r \<inter> owned h = {}" using assms(1) token_of_vm [of _ h] by auto
  moreover have "finite (Byte ` region_bytes r)" by (simp add: region_bytes_def)
  ultimately show ?thesis using assms(4) bag_union by (simp add: region_bag_def)
qed

lemma holds_region_create:
  assumes "mmap_contract K"
  shows "holds {#} {#} (region_create K l p f) region_bag"
proof (rule holdsI)
  fix B h r h' assume a: "bag h = B + {#}" "region_create K l p f h = (Inr r, h')"
  from a(2) obtain xs where "h' = h @ [(Mmap 0 l p f (- 1) 0, Done xs)]"
    by (auto simp: region_create_def op_eqs)
  with region_gain [of r h "[(Mmap 0 l p f (- 1) 0, Done xs)]"] region_create_ok [OF assms a(2)] a(1)
  show "bag h' = B + region_bag r" by (simp add: vm_call_def)
next
  fix B h e h' assume "bag h = B + {#}" "region_create K l p f h = (Inl e, h')"
  then show "bag h' = B + {#}"
    by (auto simp: region_create_def op_eqs failed_call)
qed

lemma holds_region_reserve:
  assumes "mmap_contract K"
  shows "holds {#} {#} (region_reserve K l 0) region_bag"
proof (rule holdsI)
  fix B h r h' assume a: "bag h = B + {#}" "region_reserve K l 0 h = (Inr r, h')"
  from a(2) obtain f xs where "h' = h @ [(Mmap 0 l PROT_NONE f (- 1) 0, Done xs)]"
    by (auto simp: region_reserve_def op_eqs Let_def)
  with region_gain [of r h "[(Mmap 0 l PROT_NONE f (- 1) 0, Done xs)]"] region_reserve_ok [OF assms a(2)] a(1)
  show "bag h' = B + region_bag r" by (simp add: vm_call_def)
next
  fix B h e h' assume "bag h = B + {#}" "region_reserve K l 0 h = (Inl e, h')"
  then show "bag h' = B + {#}"
    by (auto simp: region_reserve_def op_eqs Let_def failed_call)
qed

lemma reserved_region: "mmap_contract K \<Longrightarrow> yields (region_reserve K l 0) r \<Longrightarrow> rg_addr r \<noteq> 0 \<and> rg_len r = l"
  using region_reserve_ok unfolding yields_def by blast

lemma drops_region [own_rules]: "drops (region_bag r) (region_destroy K r)"
  using drops_calls(4) [of "rg_addr r" "rg_len r" K "()"] drops_ret [of "()"]
  by (simp add: region_destroy_def region_bag_def region_bytes_def)

text \<open>A fixed mapping over a range that is held leaves it held.\<close>

lemma holds_rebind:
  assumes "mmap_contract K" and "rg_addr r \<noteq> 0"
  shows "holds (region_bag r) (region_bag r) (region_rebind K r fd prot off) (\<lambda>(m, _). region_bag m)"
proof (rule holdsI)
  fix B h y h' assume a: "bag h = B + region_bag r" "region_rebind K r fd prot off h = (Inr y, h')"
  let ?c = "Mmap (rg_addr r) (rg_len r) prot (MAP_SHARED OR MAP_FIXED) fd off"
  obtain xs where x: "K h ?c = Done xs" "h' = h @ [(?c, Done xs)]"
    "y = (\<lparr>rg_addr = out_word xs 0, rg_len = rg_len r\<rparr>, null_region)"
    using a(2) by (auto simp: region_rebind_def op_eqs)
  have o: "out_word xs 0 = rg_addr r" using mmap_fixed [OF assms x(1)] .
  have "x \<in> owned h" if "x \<in> Byte ` region_bytes r" for x
  proof -
    have "x \<in># bag h" using a(1) that assms(2) by (simp add: region_bag_def region_bytes_def)
    then show ?thesis by (simp add: bag_def finite_owned)
  qed
  then have "owned h' = owned h" using x(2) o by (auto simp: op_simps region_bytes_def)
  moreover have "y = (r, null_region)" using x(3) o by (cases r) simp
  ultimately show "bag h' = B + (case y of (m, _) \<Rightarrow> region_bag m)" using a(1) by (simp add: bag_def)
next
  fix B h e h' assume "bag h = B + region_bag r" "region_rebind K r fd prot off h = (Inl e, h')"
  then show "bag h' = B + region_bag r"
    by (auto simp: region_rebind_def op_eqs failed_call)
qed

lemma rebound: "mmap_contract K \<Longrightarrow> rg_addr r \<noteq> 0 \<Longrightarrow> yields (region_rebind K r fd prot off) p \<Longrightarrow> p = (r, null_region)"
  using rebind_ok(1) unfolding yields_def by fastforce

section \<open>Buffers and events\<close>

definition buffer_bag :: "buffer \<Rightarrow> token multiset" where
  "buffer_bag b = (if b_handle b = 0 then {#} else {#Obj (b_handle b)#}) + region_bag (b_mapping b)"

definition event_bag :: "event \<Rightarrow> token multiset" where
  "event_bag ev = (if ev_fd ev < 0 then {#} else {#Evt (ev_id ev)#})"

lemma null_bags [simp]: "buffer_bag null_buffer = {#}" "event_bag null_event = {#}"
  by (simp_all add: buffer_bag_def null_buffer_def event_bag_def null_event_def)

lemma neutral_push_one: "neutral (push_one K sz cap xs x)"
  by (auto simp: push_one_def intro!: own_rules)

lemma neutral_push_all: "neutral (push_all K sz cap acc ys)"
  by (induction ys arbitrary: cap acc) (auto intro!: own_rules neutral_push_one)

lemma neutral_note_ids: "neutral (note_ids K cap ids ys)"
  by (induction ys arbitrary: cap ids) (auto intro!: own_rules neutral_push_one)

lemma neutral_heap: "neutral (vec_reserve K sz cap n)" "neutral (mutex_box K)"
  by (auto simp: vec_reserve_def mutex_box_def intro!: own_rules)

lemmas neutral_push = neutral_push_one neutral_push_all neutral_note_ids neutral_heap

lemma neutral_buffer_map: "neutral (buffer_map K b ts)"
  by (auto simp: buffer_map_def intro!: own_rules neutral_push)

lemma note_ids_aborts: "note_ids K cap ids ys h = (Inl e, h') \<Longrightarrow> e = ABORT"
  by (induction ys arbitrary: cap ids h) (auto simp: op_eqs split: if_splits)

lemma mapped_buffer:
  "yields (buffer_map K b ts) p \<Longrightarrow> b_handle (snd p) = b_handle b \<and> b_mapping (snd p) = b_mapping b \<and> b_len (snd p) = b_len b"
  by (auto simp: yields_def buffer_map_def op_eqs split: if_splits)

lemma drops_buffer [own_rules]: "drops (buffer_bag b) (buffer_drop K b)"
proof -
  have free: "drops {#Obj (b_handle b)#} (op_assert (sys K (FreeMemory (b_handle b))) (op_ret b'))" for b'
    by (rule drops_calls)
  have "drops ({#} + {#Obj (b_handle b)#})
      (op_assert (sys K (UnmapMemory (b_handle b) ids)) (op_assert (sys K (FreeMemory (b_handle b))) (op_ret b')))" for ids b'
    by (subst op_assert_try, rule drops_seq [OF _ free])
       (use drops_assert [of K "UnmapMemory (b_handle b) ids" "{}"] in \<open>simp add: owned_snoc token_step_inert\<close>)
  then have "drops (if b_handle b = 0 then {#} else {#Obj (b_handle b)#}) (buffer_destroy K b)"
    using free drops_ret by (auto simp: buffer_destroy_def Let_def)
  moreover have "b_mapping b' = b_mapping b" if "yields (buffer_destroy K b) b'" for b'
    using that by (auto simp: yields_def buffer_destroy_def op_eqs Let_def split: if_splits)
  ultimately show ?thesis unfolding buffer_bag_def buffer_drop_def
  proof (intro dropsI)
    fix B h x h'
    assume d: "drops (if b_handle b = 0 then {#} else {#Obj (b_handle b)#}) (buffer_destroy K b)"
      and m: "\<And>b'. yields (buffer_destroy K b) b' \<Longrightarrow> b_mapping b' = b_mapping b"
      and a: "bag h = B + ((if b_handle b = 0 then {#} else {#Obj (b_handle b)#}) + region_bag (b_mapping b))"
        "op_try (buffer_destroy K b) (\<lambda>b'. region_destroy K (b_mapping b')) h = (Inr x, h')"
    then obtain b' h1 where "buffer_destroy K b h = (Inr b', h1)" "region_destroy K (b_mapping b') h1 = (Inr x, h')"
      by (auto simp: op_try_eq)
    moreover from this(1) have "b_mapping b' = b_mapping b" by (intro m) (auto simp: yields_def)
    ultimately have b: "buffer_destroy K b h = (Inr b', h1)" "region_destroy K (b_mapping b) h1 = (Inr x, h')"
      by simp_all
    from dropsD(1) [OF d _ b(1), of "B + region_bag (b_mapping b)"] a(1)
    have "bag h1 = B + region_bag (b_mapping b)" by (simp add: ac_simps)
    from dropsD(1) [OF drops_region this b(2)] show "bag h' = B" .
  next
    fix B h e h'
    assume "op_try (buffer_destroy K b) (\<lambda>b'. region_destroy K (b_mapping b')) h = (Inl e, h')"
    then show "fatal e" by (auto simp: buffer_destroy_def region_destroy_def op_eqs Let_def split: if_splits)
  qed
qed

lemma drops_event [own_rules]: "drops (event_bag ev) (event_drop K ev)"
  using drops_calls(2) [of "ev_id ev" K "()"] drops_ret [of "()"] by (simp add: event_drop_def event_bag_def)

lemma holds_event_create:
  assumes "os_contract K" and "0 \<le> kfd"
  shows "holds {#} {#} (event_create K kfd pages ty) event_bag"
proof -
  have slot: "fst (event_slot pages (ucast (out_word xs 2)) , h) = Inr (event_page pages + 8 * ucast (ucast (out_word xs 2) :: u32))"
    if "K h (CreateEvent 0 t ar) = Done xs" for h t ar xs
    using os_contractD(11) [OF assms(1) that] by (simp add: event_slot_def fail_if_def not_le)
  show ?thesis
  proof (rule holdsI)
    fix B h ev h' assume a: "bag h = B + {#}" "event_create K kfd pages ty h = (Inr ev, h')"
    then obtain t ar xs where x: "K h (CreateEvent 0 t ar) = Done xs" "h' = h @ [(CreateEvent 0 t ar, Done xs)]"
      "ev_fd ev = kfd" "ev_id ev = ucast (out_word xs 0)"
      by (auto simp: event_create_def op_eqs op_simps Let_def split: if_splits)
    have "sys K (CreateEvent 0 t ar) h = (Inr xs, h')" using x(1,2) by (simp add: sys_eq)
    from holdsD(1) [OF holds_calls(2) [OF assms(1), of "{#}"] a(1) this] x(3,4) assms(2)
    show "bag h' = B + event_bag ev" by (simp add: event_bag_def)
  next
    fix B h e h' assume a: "bag h = B + {#}" "event_create K kfd pages ty h = (Inl e, h')"
    then obtain t ar where "h' = h @ [(CreateEvent 0 t ar, Failed e)]"
      using slot by (fastforce simp: event_create_def op_eqs op_simps Let_def split: if_splits)
    with a(1) show "bag h' = B + {#}" by (simp add: bag_def owned_snoc token_step_failed)
  qed
qed

lemma holds_buffer_allocate:
  assumes "os_contract K"
  shows "holds {#} {#} (buffer_allocate K page d sz type flags 0) buffer_bag"
proof -
  note C = os_contractD [OF assms]
  have undo: "holds (region_bag r) {#} (op_try (region_destroy K r) (\<lambda>_. op_fail e)) F" for r e and F :: "buffer \<Rightarrow> _"
    using holds_drop [OF drops_region holds_fail [OF refl], of "{#}" r K] by simp
  have free: "holds (region_bag r + {#Obj g#}) {#}
      (op_assert (sys K (FreeMemory g)) (op_try (region_destroy K r) (\<lambda>_. op_fail e))) F" for r e g and F :: "buffer \<Rightarrow> _"
    by (subst op_assert_try, rule holds_drop [OF drops_calls(1) undo])
  have mutex: "holds (region_bag r + {#Obj g#}) {#} (op_else (mutex_box K) f (\<lambda>_. op_ret b)) buffer_bag"
    if "b_handle b = g" "b_mapping b = r" "g \<noteq> 0" for f b r g
  proof (rule holdsI)
    fix B h y h' assume "bag h = B + (region_bag r + {#Obj g#})" "op_else (mutex_box K) f (\<lambda>_. op_ret b) h = (Inr y, h')"
    then show "bag h' = B + buffer_bag y"
      using C(5) [of h] that by (auto simp: mutex_box_def op_eqs buffer_bag_def bag_def owned_snoc token_step_inert)
  next
    fix B h e h' assume "op_else (mutex_box K) f (\<lambda>_. op_ret b) h = (Inl e, h')"
    then show "bag h' = B + {#}" using C(5) [of h] by (auto simp: mutex_box_def op_eqs)
  qed
  show ?thesis unfolding buffer_allocate_def Let_def
  proof (intro holds_when holds_try [OF holds_region_reserve [OF C(1)]] refl)
    fix r assume "yields (region_reserve K (align_up sz page) 0) r"
    then have a: "rg_addr r \<noteq> 0" using reserved_region [OF C(1)] by blast
    let ?c = "AllocMemory (rg_addr r) (align_up sz page) 0 (md_gpu d) (mem_type_bits type OR flags)"
    let ?prot = "if type = GTT \<or> flags AND MF_HOST_ACCESS \<noteq> 0 then PROT_RW else PROT_NONE"
    show "holds (region_bag r) {#} (op_else (sys K ?c) (\<lambda>e. op_try (region_destroy K r) (\<lambda>_. op_fail e))
        (\<lambda>out. op_else (region_rebind K r (md_render_fd d) ?prot (out_word out 1))
           (\<lambda>e. op_assert (sys K (FreeMemory (out_word out 0))) (op_try (region_destroy K r) (\<lambda>_. op_fail e)))
           (\<lambda>(rebound, _). op_else (mutex_box K) (\<lambda>e. op_try (region_destroy K rebound) (\<lambda>_. op_fail e))
             (\<lambda>_. op_ret \<lparr>b_len = align_up sz page, b_handle = out_word out 0, b_mapping = rebound, b_ids = [],
                          b_cap = 2, b_owner = Some (md_gpu d)\<rparr>)))) buffer_bag"
    proof (rule holds_else [OF holds_calls(1) [OF assms] undo _ survives_sys(1) [OF C(4)]])
      fix out assume "yields (sys K ?c) out"
      then have g: "out_word out 0 \<noteq> 0" using C(9) by (auto simp: yields_def sys_eq)
      have rb: "holds (region_bag r + {#Obj (out_word out 0)#}) (region_bag r + {#Obj (out_word out 0)#})
          (region_rebind K r (md_render_fd d) ?prot (out_word out 1)) (\<lambda>_. region_bag r + {#Obj (out_word out 0)#})"
        by (rule holds_post [OF holds_frame [OF holds_rebind [OF C(1) a]]]) (auto dest: rebound [OF C(1) a])
      show "holds (region_bag r + {#Obj (out_word out 0)#}) {#}
        (op_else (region_rebind K r (md_render_fd d) ?prot (out_word out 1))
           (\<lambda>e. op_assert (sys K (FreeMemory (out_word out 0))) (op_try (region_destroy K r) (\<lambda>_. op_fail e)))
           (\<lambda>(rebound, _). op_else (mutex_box K) (\<lambda>e. op_try (region_destroy K rebound) (\<lambda>_. op_fail e))
             (\<lambda>_. op_ret \<lparr>b_len = align_up sz page, b_handle = out_word out 0, b_mapping = rebound, b_ids = [],
                          b_cap = 2, b_owner = Some (md_gpu d)\<rparr>))) buffer_bag"
      proof (rule holds_else [OF rb free])
        fix p assume "yields (region_rebind K r (md_render_fd d) ?prot (out_word out 1)) p"
        then have "p = (r, null_region)" by (rule rebound [OF C(1) a])
        with g show "holds (region_bag r + {#Obj (out_word out 0)#}) {#}
          (case p of (rebound, _) \<Rightarrow> op_else (mutex_box K) (\<lambda>e. op_try (region_destroy K rebound) (\<lambda>_. op_fail e))
             (\<lambda>_. op_ret \<lparr>b_len = align_up sz page, b_handle = out_word out 0, b_mapping = rebound, b_ids = [],
                          b_cap = 2, b_owner = Some (md_gpu d)\<rparr>)) buffer_bag"
          by (simp only: prod.case) (intro mutex; simp)
      next
        show "survives (region_rebind K r (md_render_fd d) ?prot (out_word out 1))"
          by (rule survives_sys(2) [OF C(4)])
      qed
    qed
  qed
qed

lemma holds_buffer_pin:
  assumes "os_contract K"
  shows "holds {#} {#} (buffer_pin K page d ptr sz flags) buffer_bag"
  unfolding buffer_pin_def Let_def
proof (rule holds_try)
  let ?c = "AllocMemory ptr (align_up sz page) ptr (md_gpu d) (MF_USERPTR OR flags)"
  show "holds {#} {#} (sys K ?c) (\<lambda>xs. {#Obj (out_word xs 0)#})"
    using holds_calls(1) [OF assms, of "{#}"] by simp
  fix out assume "yields (sys K ?c) out"
  then have g: "out_word out 0 \<noteq> 0" using os_contractD(9) [OF assms] by (auto simp: yields_def sys_eq)
  let ?b = "\<lparr>b_len = align_up sz page, b_handle = out_word out 0, b_mapping = null_region, b_ids = [], b_cap = 2,
    b_owner = Some (md_gpu d)\<rparr>"
  show "holds {#Obj (out_word out 0)#} {#} (op_try (mutex_box K) (\<lambda>_. op_ret ?b)) buffer_bag"
  proof (rule holdsI)
    fix B h y h' assume "bag h = B + {#Obj (out_word out 0)#}" "op_try (mutex_box K) (\<lambda>_. op_ret ?b) h = (Inr y, h')"
    then show "bag h' = B + buffer_bag y"
      using g by (auto simp: mutex_box_def op_eqs buffer_bag_def bag_def owned_snoc token_step_inert)
  next
    fix B h e h' assume "op_try (mutex_box K) (\<lambda>_. op_ret ?b) h = (Inl e, h')"
    then show "bag h' = B + {#}" using os_contractD(5) [OF assms, of h] by (auto simp: mutex_box_def op_eqs)
  qed
qed

text \<open>The assignment of a buffer drops the one it replaces.\<close>

lemma holds_buffer_assign:
  "holds (buffer_bag dest + buffer_bag b) U (buffer_assign K dest b) (\<lambda>(b', _). buffer_bag b')"
proof (rule holdsI)
  fix B h y h' assume a: "bag h = B + (buffer_bag dest + buffer_bag b)" "buffer_assign K dest b h = (Inr y, h')"
  then have "fst y = b" by (auto simp: buffer_assign_def region_assign_def op_eqs)
  moreover have "buffer_drop K dest h = (Inr (), h')"
    using a(2) by (auto simp: buffer_assign_def buffer_drop_def region_assign_def op_eqs)
  from dropsD(1) [OF drops_buffer _ this, of "B + buffer_bag b"] a(1) have "bag h' = B + buffer_bag b"
    by (simp add: ac_simps)
  ultimately show "bag h' = B + (case y of (b', _) \<Rightarrow> buffer_bag b')" by (auto split: prod.splits)
next
  fix B h e h' assume "bag h = B + (buffer_bag dest + buffer_bag b)" "buffer_assign K dest b h = (Inl e, h')" "\<not> fatal e"
  then show "bag h' = B + U"
    by (auto simp: buffer_assign_def buffer_destroy_def region_assign_def region_destroy_def op_eqs Let_def split: if_splits)
qed

text \<open>Operations on the address space make no other calls.\<close>

definition vm_only :: "'a op \<Rightarrow> bool" where
  "vm_only m \<longleftrightarrow> (\<forall>h r h'. m h = (r, h') \<longrightarrow> (\<exists>t. h' = h @ t \<and> list_all (\<lambda>cr. vm_call (fst cr)) t))"

lemma vm_only_basic: "vm_only (op_ret x)" "vm_only (op_fail e)" "vm_call c \<Longrightarrow> vm_only (sys K c)"
  by (auto simp: vm_only_def op_eqs)

lemma vm_only_try:
  assumes "vm_only m" and "\<And>x. vm_only (k x)"
  shows "vm_only (op_try m k)"
  unfolding vm_only_def
proof (intro allI impI)
  fix h r h' assume "op_try m k h = (r, h')"
  then consider e where "m h = (Inl e, h')" | x h1 where "m h = (Inr x, h1)" "k x h1 = (r, h')"
    by (auto simp: op_try_eq)
  then show "\<exists>t. h' = h @ t \<and> list_all (\<lambda>cr. vm_call (fst cr)) t"
  proof cases
    case 1
    with assms(1) show ?thesis unfolding vm_only_def by blast
  next
    case 2
    from 2(1) assms(1) obtain t where "h1 = h @ t" "list_all (\<lambda>cr. vm_call (fst cr)) t"
      unfolding vm_only_def by blast
    moreover from 2(2) assms(2) obtain u where "h' = h1 @ u" "list_all (\<lambda>cr. vm_call (fst cr)) u"
      unfolding vm_only_def by blast
    ultimately show ?thesis by (intro exI [of _ "t @ u"]) simp
  qed
qed

lemma vm_only_assert: "vm_call c \<Longrightarrow> vm_only k \<Longrightarrow> vm_only (op_assert (sys K c) k)"
  by (subst op_assert_try, rule vm_only_try) (auto simp: vm_only_def op_eqs)

lemma vm_only_when: "vm_only m \<Longrightarrow> vm_only (op_when c e m)"
  by (simp add: op_when_def vm_only_basic)

lemmas vm_only_rules = vm_only_basic vm_only_try vm_only_assert vm_only_when

lemma vm_only_reserve_aligned: "vm_only (region_reserve_aligned K len al)"
  by (auto simp: region_reserve_aligned_def region_reserve_def munmap_asserted_def Let_def vm_call_def
      intro!: vm_only_rules)

lemma munmap_asserted_fails:
  "munmap_asserted K a l k h = (Inl e, h') \<Longrightarrow> \<not> fatal e \<Longrightarrow> \<exists>h1. k h1 = (Inl e, h')"
  by (auto simp: munmap_asserted_def op_eqs split: if_splits)

lemma holds_reserve_aligned:
  assumes "mmap_contract K" and "k < 64" and "0 < len"
  shows "holds {#} {#} (region_reserve_aligned K len (2 ^ k)) region_bag"
proof (rule holdsI)
  fix B h r h' assume a: "bag h = B + {#}" "region_reserve_aligned K len (2 ^ k) h = (Inr r, h')"
  note R = aligned_reservation [OF assms a(2)]
  obtain t where t: "h' = h @ t" "list_all (\<lambda>cr. vm_call (fst cr)) t"
    using vm_only_reserve_aligned a(2) unfolding vm_only_def by blast
  with region_gain [of r h t] R t a(1) show "bag h' = B + region_bag r" by simp
next
  fix B h e h' assume a: "bag h = B + {#}" "region_reserve_aligned K len (2 ^ k) h = (Inl e, h')" "\<not> fatal e"
  then have "h' = h \<or> region_reserve K (len + 2 ^ k - 1) 0 h = (Inl e, h')"
    by (auto simp: region_reserve_aligned_def op_when_eq op_try_eq Let_def op_ret_eq dest!: munmap_asserted_fails
        split: if_splits)
  with a(1) show "bag h' = B + {#}" by (auto simp: region_reserve_def op_eqs Let_def failed_call)
qed

section \<open>A buffer that is mapped at once\<close>

text \<open>What the code does for the buffers of its own: \<^verbatim>\<open>Buffer::allocate\<close>, then \<^verbatim>\<open>map\<close>.\<close>

definition allocate_mapped :: "kernel \<Rightarrow> u64 \<Rightarrow> mem_dev \<Rightarrow> u64 \<Rightarrow> mem_type \<Rightarrow> u32 \<Rightarrow> buffer op" where
  "allocate_mapped K page d sz type flags =
     op_try (buffer_allocate K page d sz type flags 0) (\<lambda>b.
     op_try (buffer_map K b [md_gpu d]) (\<lambda>(r, b'). on_error (buffer_drop K b') (op_try (op_res r) (\<lambda>_. op_ret b'))))"

lemma holds_map_scope:
  assumes "\<And>b'. b_handle b' = b_handle b \<Longrightarrow> b_mapping b' = b_mapping b \<Longrightarrow> b_len b' = b_len b \<Longrightarrow>
      holds (T + buffer_bag b) (T + buffer_bag b) (k b') F"
  shows "holds (T + buffer_bag b) T
     (op_try (buffer_map K b ts) (\<lambda>(r, b'). on_error (buffer_drop K b') (op_try (op_res r) (\<lambda>_. k b')))) F"
proof (rule holds_try)
  show "holds (T + buffer_bag b) T (buffer_map K b ts) (\<lambda>_. T + buffer_bag b)"
  proof (rule holdsI)
    fix B h e h' assume "buffer_map K b ts h = (Inl e, h')" "\<not> fatal e"
    then show "bag h' = B + T" by (auto simp: buffer_map_def op_eqs dest!: note_ids_aborts split: if_splits)
  qed (use neutral_buffer_map in \<open>auto simp: neutral_def bag_def\<close>)
  fix p assume "yields (buffer_map K b ts) p"
  then obtain r b' where p: "p = (r, b')" and b': "b_handle b' = b_handle b" "b_mapping b' = b_mapping b" "b_len b' = b_len b"
    using mapped_buffer [of K b ts p] by (cases p) auto
  then have "buffer_bag b' = buffer_bag b" by (simp add: buffer_bag_def)
  then show "holds (T + buffer_bag b) T
      (case p of (r, b') \<Rightarrow> on_error (buffer_drop K b') (op_try (op_res r) (\<lambda>_. k b'))) F"
    unfolding p prod.case
    by (intro holds_on_error [where D = "buffer_bag b"] holds_neutral neutral_basic assms b')
       (use drops_buffer [of b' K] in simp)
qed

lemma holds_allocate_mapped:
  assumes "os_contract K"
  shows "holds {#} {#} (allocate_mapped K page d sz type flags) buffer_bag"
  unfolding allocate_mapped_def
proof (rule holds_try [OF holds_buffer_allocate [OF assms]])
  fix b
  show "holds (buffer_bag b) {#} (op_try (buffer_map K b [md_gpu d])
      (\<lambda>(r, b'). on_error (buffer_drop K b') (op_try (op_res r) (\<lambda>_. op_ret b')))) buffer_bag"
    using holds_map_scope [where T = "{#}" and b = b and k = op_ret]
    by (simp add: holds_ret buffer_bag_def)
qed

end
