(* ===== verification/Fresh_Kernel.thy ===== *)
theory Fresh_Kernel
  imports Resources
begin

text \<open>
  A system that keeps the contracts of the other theories, for the concrete runs: it shows that the
  contracts can hold together, and the witnesses of the properties run on it.
\<close>

section \<open>A system that keeps the contract\<close>

text \<open>
  Each kind of name is handed out above all the names of that kind the history mentions, so what
  is returned is never in use.
\<close>

definition top_by :: "(sys_call \<Rightarrow> u64 list \<Rightarrow> int) \<Rightarrow> history \<Rightarrow> int" where
  "top_by f h = foldl (\<lambda>t cr. case snd cr of Done xs \<Rightarrow> max t (f (fst cr) xs) | Failed e \<Rightarrow> t) 0 h"

lemma top_by_snoc [simp]:
  "top_by f (h @ [(c, Done xs)]) = max (top_by f h) (f c xs)" "top_by f (h @ [(c, Failed e)]) = top_by f h"
  by (simp_all add: top_by_def)

lemma top_by_nonneg: "0 \<le> top_by f h"
proof (induction h rule: rev_induct)
  case (snoc cr h)
  obtain c r where "cr = (c, r)" by fastforce
  with snoc show ?case by (cases r) simp_all
qed (simp add: top_by_def)

lemma top_by_zero [simp]: "max (top_by f h) 0 = top_by f h"
  using top_by_nonneg [of f h] by simp

fun mapped_end :: "sys_call \<Rightarrow> u64 list \<Rightarrow> int" where
  "mapped_end (Mmap a l p f d off) xs = uint (out_word xs 0) + uint l"
| "mapped_end (Mremap a l n) xs = uint a + uint n"
| "mapped_end _ xs = 0"

fun object_name :: "sys_call \<Rightarrow> u64 list \<Rightarrow> int" where
  "object_name (AllocMemory a l off g f) xs = uint (out_word xs 0)"
| "object_name (MapMemory g ids) xs = uint g"
| "object_name _ xs = 0"

fun event_name :: "sys_call \<Rightarrow> u64 list \<Rightarrow> int" where
  "event_name (CreateEvent pg t ar) xs = uint (ucast (out_word xs 0) :: u32)"
| "event_name _ xs = 0"

fun queue_name :: "sys_call \<Rightarrow> u64 list \<Rightarrow> int" where
  "queue_name (CreateQueue q) xs = uint (ucast (out_word xs 0) :: u32)"
| "queue_name _ xs = 0"

fun fd_name :: "sys_call \<Rightarrow> u64 list \<Rightarrow> int" where
  "fd_name (Open p) xs = out_fd xs"
| "fd_name _ xs = 0"

fun drm_name :: "sys_call \<Rightarrow> u64 list \<Rightarrow> int" where
  "drm_name (DrmInit d) xs = uint (out_word xs 0)"
| "drm_name _ xs = 0"

definition fresh :: "(sys_call \<Rightarrow> u64 list \<Rightarrow> int) \<Rightarrow> history \<Rightarrow> (u64 \<Rightarrow> u64 list) \<Rightarrow> reply" where
  "fresh f h out = (let n = top_by f h + 1 in if n < 2 ^ 31 then Done (out (of_int n)) else Failed ENOMEM)"

definition fresh_kernel :: kernel where
  "fresh_kernel h c =
     (case c of
        Mmap a l p f d off \<Rightarrow>
          if a \<noteq> 0 then Done [a]
          else let t = 0x10000 + top_by mapped_end h
               in if t + uint l < 2 ^ 64 then Done [of_int t] else Failed ENOMEM
      | AllocMemory a l off g f \<Rightarrow> fresh object_name h (\<lambda>n. [n, 0x1000])
      | CreateEvent pg t ar \<Rightarrow> fresh event_name h (\<lambda>n. [n, 9, 3])
      | CreateQueue q \<Rightarrow> fresh queue_name h (\<lambda>n. [n, 0x4008])
      | Open p \<Rightarrow> fresh fd_name h (\<lambda>n. [n])
      | DrmInit d \<Rightarrow> fresh drm_name h (\<lambda>n. [n, 200])
      | DrmVersion d \<Rightarrow> Done (6 # map of_char ''amdgpu'')
      | GetVersion \<Rightarrow> Done [1, 14]
      | GetApertures n \<Rightarrow> Done (if n = 0 then [1] else [1, 0x1000, 0x7fffffffffff, 0x2000000, 0x20fffff])
      | Malloc n \<Rightarrow> Done [0x70000000 + 64 * of_nat (length h)]
      | Clone st \<Rightarrow> Done [77]
      | _ \<Rightarrow> Done [])"

lemma top_by_members:
  "n \<in> vm h \<Longrightarrow> int n < top_by mapped_end h"
  "g \<in> gpu_objects h \<Longrightarrow> uint g \<le> top_by object_name h"
  "gpu_maps g h \<noteq> {} \<Longrightarrow> uint g \<le> top_by object_name h"
  "i \<in> live_events h \<Longrightarrow> uint i \<le> top_by event_name h"
  "Que k \<in> owned h \<Longrightarrow> uint k \<le> top_by queue_name h"
  "Fd d \<in> owned h \<Longrightarrow> d \<le> top_by fd_name h"
  "Drm g \<in> owned h \<Longrightarrow> uint g \<le> top_by drm_name h"
proof -
  have u: "int n < uint a + uint l" if "n < unat a + unat l" for n and a l :: u64
    unfolding uint_nat using that by linarith
  show "n \<in> vm h \<Longrightarrow> int n < top_by mapped_end h"
  proof (induction h rule: rev_induct)
    case (snoc cr h)
    obtain c r where cr: "cr = (c, r)" by fastforce
    with snoc show ?case
      by (cases r; cases c) (auto simp: vm_snoc vm_step_def less_max_iff_disj dest: u)
  qed (simp add: vm_def)
  show "g \<in> gpu_objects h \<Longrightarrow> uint g \<le> top_by object_name h"
  proof (induction h rule: rev_induct)
    case (snoc cr h)
    obtain c r where cr: "cr = (c, r)" by fastforce
    with snoc show ?case
      by (cases r; cases c) (auto simp: gpu_objects_snoc gpu_step_def le_max_iff_disj)
  qed (simp add: gpu_objects_def)
  show "gpu_maps g h \<noteq> {} \<Longrightarrow> uint g \<le> top_by object_name h"
  proof (induction h rule: rev_induct)
    case (snoc cr h)
    obtain c r where cr: "cr = (c, r)" by fastforce
    with snoc show ?case
      by (cases r; cases c) (auto simp: gpu_maps_snoc map_step_def le_max_iff_disj split: if_splits)
  qed (simp add: gpu_maps_def)
  show "i \<in> live_events h \<Longrightarrow> uint i \<le> top_by event_name h"
  proof (induction h rule: rev_induct)
    case (snoc cr h)
    obtain c r where cr: "cr = (c, r)" by fastforce
    with snoc show ?case
      by (cases r; cases c) (auto simp: live_events_snoc event_step_def le_max_iff_disj)
  qed (simp add: live_events_def)
  show "Que k \<in> owned h \<Longrightarrow> uint k \<le> top_by queue_name h"
  proof (induction h rule: rev_induct)
    case (snoc cr h)
    obtain c r where cr: "cr = (c, r)" by fastforce
    with snoc show ?case
      by (cases r; cases c) (auto simp: owned_snoc token_step_def le_max_iff_disj)
  qed (simp add: owned_def)
  show "Fd d \<in> owned h \<Longrightarrow> d \<le> top_by fd_name h"
  proof (induction h rule: rev_induct)
    case (snoc cr h)
    obtain c r where cr: "cr = (c, r)" by fastforce
    with snoc show ?case
      by (cases r; cases c) (auto simp: owned_snoc token_step_def le_max_iff_disj)
  qed (simp add: owned_def)
  show "Drm g \<in> owned h \<Longrightarrow> uint g \<le> top_by drm_name h"
  proof (induction h rule: rev_induct)
    case (snoc cr h)
    obtain c r where cr: "cr = (c, r)" by fastforce
    with snoc show ?case
      by (cases r; cases c) (auto simp: owned_snoc token_step_def le_max_iff_disj)
  qed (simp add: owned_def)
qed

lemma uint_of_int: "0 \<le> t \<Longrightarrow> t < 2 ^ 64 \<Longrightarrow> uint (of_int t :: u64) = t"
  by (simp add: uint_word_of_int take_bit_int_eq_self)

lemma fresh_Done:
  assumes "fresh f h out = Done xs"
  shows "\<exists>n :: u64. xs = out n \<and> n \<noteq> 0 \<and> uint n = top_by f h + 1 \<and> uint n < 2 ^ 31"
proof -
  let ?n = "top_by f h + 1"
  have n: "?n < 2 ^ 31" "xs = out (of_int ?n)" using assms by (auto simp: fresh_def Let_def split: if_splits)
  have "uint (of_int ?n :: u64) = ?n"
    using n(1) top_by_nonneg [of f h] by (intro uint_of_int) simp_all
  moreover have "(of_int ?n :: u64) \<noteq> 0"
  proof
    assume "(of_int ?n :: u64) = 0"
    then have "uint (of_int ?n :: u64) = 0" by (simp only: unsigned_0)
    with calculation top_by_nonneg [of f h] show False by linarith
  qed
  ultimately show ?thesis using n by (intro exI [of _ "of_int ?n"]) simp
qed

lemma small_names:
  fixes n :: u64
  assumes "uint n < 2 ^ 31"
  shows "uint (ucast n :: u32) = uint n" and "sint (ucast n :: u32) = uint n"
proof -
  show u: "uint (ucast n :: u32) = uint n"
    using assms by (simp add: unsigned_ucast_eq take_bit_int_eq_self)
  then show "sint (ucast n :: u32) = uint n"
    using assms signed_take_bit_int_eq_self [of 31 "uint n"] order_trans [of "- 2147483648" 0 "uint n"]
    by (simp add: sint_uint)
qed

lemma fresh_kernel_contract: "os_contract fresh_kernel"
proof -
  have mm: "mmap_contract fresh_kernel"
    unfolding mmap_contract_def
  proof (intro conjI allI impI)
    fix h :: history and l p f d off xs
    assume a: "fresh_kernel h (Mmap 0 l p f d off) = Done xs"
    let ?t = "0x10000 + top_by mapped_end h"
    have t: "?t + uint l < 2 ^ 64" "out_word xs 0 = of_int ?t"
      using a by (auto simp: fresh_kernel_def Let_def out_word_def split: if_splits)
    have "uint (of_int ?t :: u64) = ?t"
      by (rule uint_of_int) (use t(1) top_by_nonneg [of mapped_end h] uint_ge_0 [of l] in linarith)+
    then have n: "int (unat (out_word xs 0)) = ?t" using t(2) by (simp add: uint_nat [symmetric])
    then have n': "unat (out_word xs 0) = nat ?t" by linarith
    show "out_word xs 0 \<noteq> 0" using n top_by_nonneg [of mapped_end h] by auto
    show "unat (out_word xs 0) + unat l \<le> 2 ^ 64"
    proof -
      have "uint (out_word xs 0) + uint l < 2 ^ 64" using t(1) n by simp
      then have "int (unat (out_word xs 0) + unat l) < int (2 ^ 64)" by simp
      then show ?thesis by (simp only: of_nat_less_iff less_imp_le)
    qed
    show "{unat (out_word xs 0)..<unat (out_word xs 0) + unat l} \<inter> vm h = {}"
    proof (rule ccontr)
      assume "\<not> ?thesis"
      then obtain m where "m \<in> vm h" "unat (out_word xs 0) \<le> m" by auto
      with top_by_members(1) [OF this(1)] n show False by linarith
    qed
  qed (auto simp: fresh_kernel_def out_word_def)
  have al: "alloc_contract fresh_kernel"
    unfolding alloc_contract_def
  proof (intro allI impI)
    fix h a l off g f xs assume "fresh_kernel h (AllocMemory a l off g f) = Done xs"
    then have "fresh object_name h (\<lambda>n. [n, 0x1000]) = Done xs" by (simp add: fresh_kernel_def)
    from fresh_Done [OF this] obtain n where "out_word xs 0 = n" "n \<noteq> 0" "uint n = top_by object_name h + 1"
      by (auto simp: out_word_def)
    then show "out_word xs 0 \<noteq> 0 \<and> out_word xs 0 \<notin> gpu_objects h \<and> gpu_maps (out_word xs 0) h = {}"
      using top_by_members(2,3) [of n h] by fastforce
  qed
  have ev: "event_contract fresh_kernel"
    unfolding event_contract_def
  proof (intro allI impI)
    fix h pg t ar xs assume "fresh_kernel h (CreateEvent pg t ar) = Done xs"
    then have "fresh event_name h (\<lambda>n. [n, 9, 3]) = Done xs" by (simp add: fresh_kernel_def)
    from fresh_Done [OF this] obtain n where n: "xs = [n, 9, 3]" "uint n = top_by event_name h + 1" "uint n < 2 ^ 31"
      by auto
    then have "(ucast n :: u32) \<notin> live_events h"
      using top_by_members(4) [of "ucast n" h] small_names(1) [of n] by fastforce
    then show "ucast (out_word xs 0) \<notin> live_events h \<and> (ucast (out_word xs 2) :: u32) < KFD_SIGNAL_EVENT_LIMIT"
      using n(1) by (simp add: out_word_def KFD_SIGNAL_EVENT_LIMIT_def)
  qed
  have q: "Que (ucast (out_word xs 0)) \<notin> owned h" if "fresh_kernel h (CreateQueue q) = Done xs" for h q xs
  proof -
    have "fresh queue_name h (\<lambda>n. [n, 0x4008]) = Done xs" using that by (simp add: fresh_kernel_def)
    from fresh_Done [OF this] obtain n where n: "out_word xs 0 = n" "uint n = top_by queue_name h + 1" "uint n < 2 ^ 31"
      by (auto simp: out_word_def)
    then show ?thesis using top_by_members(5) [of "ucast n" h] small_names(1) [of n] by fastforce
  qed
  have f: "Fd (out_fd xs) \<notin> owned h" if "fresh_kernel h (Open p) = Done xs" for h p xs
  proof -
    have "fresh fd_name h (\<lambda>n. [n]) = Done xs" using that by (simp add: fresh_kernel_def)
    from fresh_Done [OF this] obtain n :: u64 where n: "out_fd xs = sint (ucast n :: u32)" "uint n = top_by fd_name h + 1" "uint n < 2 ^ 31"
      by (auto simp: out_word_def out_fd_def)
    then show ?thesis using top_by_members(6) [of "out_fd xs" h] small_names(2) [of n] by fastforce
  qed
  have dr: "Drm (out_word xs 0) \<notin> owned h" if "fresh_kernel h (DrmInit d) = Done xs" for h d xs
  proof -
    have "fresh drm_name h (\<lambda>n. [n, 200]) = Done xs" using that by (simp add: fresh_kernel_def)
    from fresh_Done [OF this] obtain n where n: "out_word xs 0 = n" "uint n = top_by drm_name h + 1"
      by (auto simp: out_word_def)
    then show ?thesis using top_by_members(7) [of n h] by fastforce
  qed
  have "honest fresh_kernel"
    by (auto simp: honest_def fresh_kernel_def fresh_def Let_def split: sys_call.splits if_splits)
  then show ?thesis using mm al ev q f dr by (auto simp: os_contract_def) (simp add: fresh_kernel_def)
qed

end
