(* ===== verification/Signal.thy ===== *)
theory Signal
  imports Event Pm4
begin

text \<open>
  \<^verbatim>\<open>signal.h\<close> and \<^verbatim>\<open>lib/signal.cpp\<close>: a signal is an event and a fence value that the device
  counts down. A read of a fence and of the clock is a call to the environment, so the history shows
  what every poll saw. The wait loops take fuel; that a clock which advances at every poll bounds
  them is proved below.
\<close>

section \<open>Types and helpers\<close>

record signal =
  sg_event :: event
  sg_fence :: u64

fun check_condition :: "u64 \<Rightarrow> condition \<Rightarrow> u64 \<Rightarrow> bool" where
  "check_condition current LT v = (current < v)"
| "check_condition current LTE v = (current \<le> v)"
| "check_condition current EQ v = (current = v)"
| "check_condition current NE v = (current \<noteq> v)"
| "check_condition current GTE v = (current \<ge> v)"
| "check_condition current GT v = (current > v)"

definition load_fence :: "kernel \<Rightarrow> signal \<Rightarrow> u64 op" where
  "load_fence K s = op_try (sys K (LoadFence (sg_fence s))) (\<lambda>out. op_ret (out_word out 0))"

definition now_ns :: "kernel \<Rightarrow> u64 op" where
  "now_ns K = op_try (sys K Clock) (\<lambda>out. op_ret (out_word out 0))"

text \<open>\<^verbatim>\<open>check_any\<close>: the index of the first signal that meets the condition, if any.\<close>

fun check_any :: "kernel \<Rightarrow> nat \<Rightarrow> signal list \<Rightarrow> condition \<Rightarrow> u64 \<Rightarrow> nat option op" where
  "check_any K i [] cond v = op_ret None"
| "check_any K i (s # ss) cond v =
     op_try (load_fence K s) (\<lambda>x.
     if check_condition x cond v then op_ret (Some i) else check_any K (Suc i) ss cond v)"

fun check_all :: "kernel \<Rightarrow> signal list \<Rightarrow> condition \<Rightarrow> u64 \<Rightarrow> bool op" where
  "check_all K [] cond v = op_ret True"
| "check_all K (s # ss) cond v =
     op_try (load_fence K s) (\<lambda>x.
     if \<not> check_condition x cond v then op_ret False else check_all K ss cond v)"

definition signal_event_wait :: "kernel \<Rightarrow> signal list \<Rightarrow> bool \<Rightarrow> u64 \<Rightarrow> unit op" where
  "signal_event_wait K signals wait_for_all timeout_ns =
     op_try (Memory.push_all K 8 8 [] (map sg_event signals)) (\<lambda>events.
     if wait_for_all then op_try (wait_all_events K events timeout_ns) (\<lambda>_. op_ret ())
     else op_try (wait_any_events K events timeout_ns) (\<lambda>_. op_ret ()))"

definition add_sat :: "u64 \<Rightarrow> u64 \<Rightarrow> u64" where
  "add_sat a b = (let sum = a + b in if sum < a then - 1 else sum)"

section \<open>Operations\<close>

definition signal_create :: "kernel \<Rightarrow> int \<Rightarrow> signal_pages \<Rightarrow> u64 \<Rightarrow> signal op" where
  "signal_create K kfd pages initial =
     op_try (event_create K kfd pages SIGNAL) (\<lambda>ev.
     op_else (op_res (fence_slot pages (ev_slot_idx ev)))
       (\<lambda>e. op_try (event_drop K ev) (\<lambda>_. op_fail e))
       (\<lambda>slot. op_try (sys K (StoreFence slot initial)) (\<lambda>_. op_ret \<lparr>sg_event = ev, sg_fence = slot\<rparr>)))"

definition signal_drop :: "kernel \<Rightarrow> signal \<Rightarrow> unit op" where
  "signal_drop K s = event_drop K (sg_event s)"

definition signal_move :: "signal \<Rightarrow> signal \<times> signal" where
  "signal_move other =
     (\<lparr>sg_event = fst (event_move (sg_event other)), sg_fence = sg_fence other\<rparr>,
      \<lparr>sg_event = snd (event_move (sg_event other)), sg_fence = 0\<rparr>)"

definition signal_assign :: "kernel \<Rightarrow> signal \<Rightarrow> signal \<Rightarrow> (signal \<times> signal) op" where
  "signal_assign K this other =
     op_try (event_assign K (sg_event this) (sg_event other)) (\<lambda>(ev, old).
     op_ret (\<lparr>sg_event = ev, sg_fence = sg_fence other\<rparr>, \<lparr>sg_event = old, sg_fence = 0\<rparr>))"

definition signal_reset :: "kernel \<Rightarrow> signal \<Rightarrow> u64 \<Rightarrow> unit op" where
  "signal_reset K s v = op_try (event_reset K (sg_event s)) (\<lambda>_.
     op_try (sys K (StoreFence (sg_fence s) v)) (\<lambda>_. op_ret ()))"

text \<open>The spin phase ends with success or at its deadline.\<close>

fun spin_all :: "kernel \<Rightarrow> nat \<Rightarrow> signal list \<Rightarrow> condition \<Rightarrow> u64 \<Rightarrow> u64 \<Rightarrow> bool op" where
  "spin_all K 0 ss cond v deadline = op_fail HANGS"
| "spin_all K (Suc n) ss cond v deadline =
     op_try (check_all K ss cond v) (\<lambda>ok.
     if ok then op_ret True
     else op_try (now_ns K) (\<lambda>now.
          if now \<ge> deadline then op_ret False
          else if length ss = 1 then op_try (load_fence K (hd ss)) (\<lambda>_. spin_all K n ss cond v deadline)
          else spin_all K n ss cond v deadline))"

fun block_all :: "kernel \<Rightarrow> nat \<Rightarrow> signal list \<Rightarrow> condition \<Rightarrow> u64 \<Rightarrow> u64 \<Rightarrow> unit op" where
  "block_all K 0 ss cond v deadline = op_fail HANGS"
| "block_all K (Suc n) ss cond v deadline =
     op_try (check_all K ss cond v) (\<lambda>ok.
     if ok then op_ret ()
     else op_try (now_ns K) (\<lambda>now.
          op_when (now \<ge> deadline) ETIMEDOUT (
          op_else (signal_event_wait K ss True (deadline - now))
            (\<lambda>e. if e = ETIMEDOUT then block_all K n ss cond v deadline else op_fail e)
            (\<lambda>_. block_all K n ss cond v deadline))))"

definition wait_all :: "kernel \<Rightarrow> nat \<Rightarrow> signal list \<Rightarrow> condition \<Rightarrow> u64 \<Rightarrow> u64 \<Rightarrow> u64 \<Rightarrow> unit op" where
  "wait_all K fuel ss cond v timeout_ns spin_ns =
     (if ss = [] then op_ret ()
      else op_try (now_ns K) (\<lambda>start.
           op_try (spin_all K fuel ss cond v (add_sat start spin_ns)) (\<lambda>ok.
           if ok then op_ret () else block_all K fuel ss cond v (add_sat start timeout_ns))))"

definition signal_wait :: "kernel \<Rightarrow> nat \<Rightarrow> signal \<Rightarrow> condition \<Rightarrow> u64 \<Rightarrow> u64 \<Rightarrow> u64 \<Rightarrow> unit op" where
  "signal_wait K fuel s cond v timeout_ns spin_ns = wait_all K fuel [s] cond v timeout_ns spin_ns"

fun spin_any :: "kernel \<Rightarrow> nat \<Rightarrow> signal list \<Rightarrow> condition \<Rightarrow> u64 \<Rightarrow> u64 \<Rightarrow> nat option op" where
  "spin_any K 0 ss cond v deadline = op_fail HANGS"
| "spin_any K (Suc n) ss cond v deadline =
     op_try (check_any K 0 ss cond v) (\<lambda>idx.
     if idx \<noteq> None then op_ret idx
     else op_try (now_ns K) (\<lambda>now.
          if now \<ge> deadline then op_ret None else spin_any K n ss cond v deadline))"

fun block_any :: "kernel \<Rightarrow> nat \<Rightarrow> signal list \<Rightarrow> condition \<Rightarrow> u64 \<Rightarrow> u64 \<Rightarrow> nat op" where
  "block_any K 0 ss cond v deadline = op_fail HANGS"
| "block_any K (Suc n) ss cond v deadline =
     op_try (check_any K 0 ss cond v) (\<lambda>idx. case idx of
       Some i \<Rightarrow> op_ret i
     | None \<Rightarrow> op_try (now_ns K) (\<lambda>now.
          op_when (now \<ge> deadline) ETIMEDOUT (
          op_else (signal_event_wait K ss False (deadline - now))
            (\<lambda>e. if e = ETIMEDOUT then block_any K n ss cond v deadline else op_fail e)
            (\<lambda>_. block_any K n ss cond v deadline))))"

definition wait_any :: "kernel \<Rightarrow> nat \<Rightarrow> signal list \<Rightarrow> condition \<Rightarrow> u64 \<Rightarrow> u64 \<Rightarrow> u64 \<Rightarrow> nat op" where
  "wait_any K fuel ss cond v timeout_ns spin_ns =
     op_when (ss = []) EINVAL (
     op_try (now_ns K) (\<lambda>start.
     op_try (spin_any K fuel ss cond v (add_sat start spin_ns)) (\<lambda>idx. case idx of
       Some i \<Rightarrow> op_ret i
     | None \<Rightarrow> block_any K fuel ss cond v (add_sat start timeout_ns))))"

section \<open>What a check saw\<close>

definition load_calls :: "signal list \<Rightarrow> u64 list \<Rightarrow> history" where
  "load_calls ss xs = map (\<lambda>(s, x). (LoadFence (sg_fence s), Done [x])) (zip ss xs)"

definition fences_readable :: "kernel \<Rightarrow> bool" where
  "fences_readable K \<longleftrightarrow> (\<forall>h a. \<exists>x. K h (LoadFence a) = Done [x]) \<and> (\<forall>h. \<exists>t. K h Clock = Done [t])"

lemma check_all_seen:
  assumes "fences_readable K" and "check_all K ss cond v h = (Inr ok, h')"
  shows "\<exists>xs. h' = h @ load_calls ss xs \<and> (ok \<longrightarrow> length xs = length ss \<and> (\<forall>x\<in>set xs. check_condition x cond v)) \<and>
     (\<not> ok \<longrightarrow> xs \<noteq> [] \<and> length xs \<le> length ss \<and> \<not> check_condition (last xs) cond v)"
  using assms(2)
proof (induction ss arbitrary: h)
  case Nil
  then show ?case by (auto simp: op_simps load_calls_def)
next
  case (Cons s ss)
  obtain x where x: "K h (LoadFence (sg_fence s)) = Done [x]" using assms(1) unfolding fences_readable_def by blast
  let ?h = "h @ [(LoadFence (sg_fence s), Done [x])]"
  show ?case
  proof (cases "check_condition x cond v")
    case False
    then show ?thesis using Cons.prems x
      by (intro exI [of _ "[x]"]) (auto simp: load_fence_def op_try_def sys_def op_simps out_word_def load_calls_def)
  next
    case True
    then have "check_all K ss cond v ?h = (Inr ok, h')"
      using Cons.prems x by (simp add: load_fence_def op_try_def sys_def op_simps out_word_def)
    from Cons.IH [OF this] obtain xs where xs: "h' = ?h @ load_calls ss xs"
      "ok \<longrightarrow> length xs = length ss \<and> (\<forall>x\<in>set xs. check_condition x cond v)"
      "\<not> ok \<longrightarrow> xs \<noteq> [] \<and> length xs \<le> length ss \<and> \<not> check_condition (last xs) cond v" by blast
    then show ?thesis using True by (intro exI [of _ "x # xs"]) (auto simp: load_calls_def)
  qed
qed

lemma check_any_seen:
  assumes "fences_readable K" and "check_any K i ss cond v h = (Inr r, h')"
  shows "\<exists>xs. h' = h @ load_calls ss xs \<and> length xs \<le> length ss \<and>
     (case r of None \<Rightarrow> length xs = length ss \<and> (\<forall>x\<in>set xs. \<not> check_condition x cond v)
      | Some j \<Rightarrow> i \<le> j \<and> j - i < length ss \<and> length xs = Suc (j - i) \<and> check_condition (last xs) cond v \<and>
          (\<forall>x\<in>set (butlast xs). \<not> check_condition x cond v))"
  using assms(2)
proof (induction ss arbitrary: i h)
  case Nil
  then show ?case by (auto simp: op_simps load_calls_def)
next
  case (Cons s ss)
  obtain x where x: "K h (LoadFence (sg_fence s)) = Done [x]"
    using assms(1) unfolding fences_readable_def by blast
  let ?h = "h @ [(LoadFence (sg_fence s), Done [x])]"
  show ?case
  proof (cases "check_condition x cond v")
    case True
    then show ?thesis using Cons.prems x
      by (intro exI [of _ "[x]"]) (auto simp: load_fence_def op_try_def sys_def op_simps out_word_def load_calls_def)
  next
    case False
    then have "check_any K (Suc i) ss cond v ?h = (Inr r, h')"
      using Cons.prems x by (simp add: load_fence_def op_try_def sys_def op_simps out_word_def)
    from Cons.IH [OF this] obtain xs where xs: "h' = ?h @ load_calls ss xs" "length xs \<le> length ss"
      "case r of None \<Rightarrow> length xs = length ss \<and> (\<forall>x\<in>set xs. \<not> check_condition x cond v)
      | Some j \<Rightarrow> Suc i \<le> j \<and> j - Suc i < length ss \<and> length xs = Suc (j - Suc i) \<and>
          check_condition (last xs) cond v \<and> (\<forall>x\<in>set (butlast xs). \<not> check_condition x cond v)" by blast
    then show ?thesis using False
      by (intro exI [of _ "x # xs"]) (auto simp: load_calls_def split: option.splits)
  qed
qed

lemma check_any_total:
  assumes "fences_readable K"
  shows "\<exists>r h'. check_any K i ss cond v h = (Inr r, h')"
proof (induction ss arbitrary: i h)
  case Nil
  then show ?case by (simp add: op_simps)
next
  case (Cons s ss)
  obtain x where "K h (LoadFence (sg_fence s)) = Done [x]"
    using assms unfolding fences_readable_def by blast
  then show ?case using Cons by (auto simp: load_fence_def op_try_def sys_def op_simps)
qed

lemma check_all_total:
  assumes "fences_readable K"
  shows "\<exists>r h'. check_all K ss cond v h = (Inr r, h')"
proof (induction ss arbitrary: h)
  case Nil
  show ?case by (rule exI [of _ True]) (simp add: op_simps)
next
  case (Cons s ss)
  obtain x where "K h (LoadFence (sg_fence s)) = Done [x]"
    using assms unfolding fences_readable_def by blast
  then show ?case using Cons by (auto simp: load_fence_def op_try_def sys_def op_simps)
qed

text \<open>The history ends with a read of every fence that meets the condition, or with the clock past the deadline.\<close>

definition all_met :: "signal list \<Rightarrow> condition \<Rightarrow> u64 \<Rightarrow> history \<Rightarrow> bool" where
  "all_met ss cond v h \<longleftrightarrow> (\<exists>h0 xs. h = h0 @ load_calls ss xs \<and> length xs = length ss \<and>
     (\<forall>x\<in>set xs. check_condition x cond v))"

definition one_met :: "signal list \<Rightarrow> condition \<Rightarrow> u64 \<Rightarrow> nat \<Rightarrow> history \<Rightarrow> bool" where
  "one_met ss cond v i h \<longleftrightarrow> (\<exists>h0 x. i < length ss \<and> check_condition x cond v \<and>
     h = h0 @ [(LoadFence (sg_fence (ss ! i)), Done [x])])"

definition expired :: "u64 \<Rightarrow> history \<Rightarrow> bool" where
  "expired deadline h \<longleftrightarrow> (\<exists>h0 t. h = h0 @ [(Clock, Done [t])] \<and> t \<ge> deadline)"

lemma check_all_met: "fences_readable K \<Longrightarrow> check_all K ss cond v h = (Inr True, h') \<Longrightarrow> all_met ss cond v h'"
  using check_all_seen [of K ss cond v h True h'] unfolding all_met_def by blast

lemma check_any_met:
  assumes "fences_readable K" and "check_any K 0 ss cond v h = (Inr (Some i), h')"
  shows "one_met ss cond v i h'"
proof -
  obtain xs where xs: "h' = h @ load_calls ss xs" "i < length ss" "length xs = Suc i" "check_condition (last xs) cond v"
    using check_any_seen [OF assms] by auto
  have "load_calls ss xs = load_calls ss (butlast xs) @ [(LoadFence (sg_fence (ss ! i)), Done [last xs])]"
  proof (rule nth_equalityI)
    show len: "length (load_calls ss xs) = length (load_calls ss (butlast xs) @ [(LoadFence (sg_fence (ss ! i)), Done [last xs])])"
      using xs(2,3) by (simp add: load_calls_def)
    fix k assume "k < length (load_calls ss xs)"
    then have "k < Suc i" using xs(2,3) by (simp add: load_calls_def)
    moreover have "last xs = xs ! i" using xs(3) by (cases xs rule: rev_cases) (auto simp: nth_append)
    ultimately show "load_calls ss xs ! k = (load_calls ss (butlast xs) @ [(LoadFence (sg_fence (ss ! i)), Done [last xs])]) ! k"
      using xs(2,3) by (cases "k = i") (auto simp: load_calls_def nth_append nth_butlast)
  qed
  then show ?thesis using xs unfolding one_met_def by (metis append.assoc)
qed

lemma now_ns_eq:
  assumes "fences_readable K" and "now_ns K h = (r, h')"
  shows "\<exists>t. r = Inr t \<and> K h Clock = Done [t] \<and> h' = h @ [(Clock, Done [t])]"
proof -
  obtain t where "K h Clock = Done [t]" using assms(1) unfolding fences_readable_def by blast
  then show ?thesis using assms(2) by (simp add: now_ns_def op_try_def sys_def op_simps out_word_def)
qed

section \<open>The loops\<close>

lemma spin_all_met:
  assumes "fences_readable K"
  shows "spin_all K n ss cond v d h = (Inr True, h') \<Longrightarrow> all_met ss cond v h'"
proof (induction n arbitrary: h)
  case 0
  then show ?case by (simp add: op_simps)
next
  case (Suc n)
  then show ?case
    by (auto simp: op_try_eq op_simps split: if_splits dest: check_all_met [OF assms])
qed

lemma block_all_met:
  assumes "fences_readable K"
  shows "block_all K n ss cond v d h = (r, h') \<Longrightarrow>
    (r = Inr () \<longrightarrow> all_met ss cond v h') \<and> (r = Inl ETIMEDOUT \<longrightarrow> expired d h')"
proof (induction n arbitrary: h)
  case 0
  then show ?case by (auto simp: op_simps)
next
  case (Suc n)
  obtain ok h1 where c: "check_all K ss cond v h = (Inr ok, h1)" using check_all_total [OF assms] by blast
  obtain t h2 where t: "now_ns K h1 = (Inr t, h2)" "h2 = h1 @ [(Clock, Done [t])]"
    using now_ns_eq [OF assms] by (metis surj_pair)
  show ?case
  proof (cases "ok \<or> t \<ge> d")
    case True
    then show ?thesis
      using Suc.prems c t by (auto simp: op_try_def op_when_def op_simps expired_def intro: check_all_met [OF assms] split: if_splits)
  next
    case False
    then have "op_else (signal_event_wait K ss True (d - t))
        (\<lambda>e. if e = ETIMEDOUT then block_all K n ss cond v d else op_fail e)
        (\<lambda>_. block_all K n ss cond v d) h2 = (r, h')"
      using Suc.prems c t(1) by (auto simp: op_try_def op_when_def)
    then show ?thesis using Suc.IH by (auto simp: op_else_eq op_simps split: if_splits)
  qed
qed

lemma spin_any_met:
  assumes "fences_readable K"
  shows "spin_any K n ss cond v d h = (Inr (Some i), h') \<Longrightarrow> one_met ss cond v i h'"
proof (induction n arbitrary: h)
  case 0
  then show ?case by (simp add: op_simps)
next
  case (Suc n)
  then show ?case
    by (auto simp: op_try_eq op_simps split: if_splits dest: check_any_met [OF assms])
qed

lemma block_any_met:
  assumes "fences_readable K"
  shows "block_any K n ss cond v d h = (r, h') \<Longrightarrow>
    (\<forall>i. r = Inr i \<longrightarrow> one_met ss cond v i h') \<and> (r = Inl ETIMEDOUT \<longrightarrow> expired d h')"
proof (induction n arbitrary: h)
  case 0
  then show ?case by (auto simp: op_simps)
next
  case (Suc n)
  obtain idx h1 where c: "check_any K 0 ss cond v h = (Inr idx, h1)" using check_any_total [OF assms] by blast
  obtain t h2 where t: "now_ns K h1 = (Inr t, h2)" "h2 = h1 @ [(Clock, Done [t])]"
    using now_ns_eq [OF assms] by (metis surj_pair)
  show ?case
  proof (cases idx)
    case (Some i)
    then show ?thesis using Suc.prems c by (auto simp: op_try_def op_simps intro: check_any_met [OF assms])
  next
    case None
    show ?thesis
    proof (cases "t \<ge> d")
      case True
      then show ?thesis using Suc.prems c t None by (auto simp: op_try_def op_when_def op_simps expired_def)
    next
      case False
      then have "op_else (signal_event_wait K ss False (d - t))
          (\<lambda>e. if e = ETIMEDOUT then block_any K n ss cond v d else op_fail e)
          (\<lambda>_. block_any K n ss cond v d) h2 = (r, h')"
        using Suc.prems c t(1) None by (auto simp: op_try_def op_when_def)
      then show ?thesis using Suc.IH by (auto simp: op_else_eq op_simps split: if_splits)
    qed
  qed
qed

lemma load_fence_eq:
  assumes "fences_readable K"
  shows "\<exists>x. load_fence K s h = (Inr x, h @ [(LoadFence (sg_fence s), Done [x])])"
proof -
  obtain x where "K h (LoadFence (sg_fence s)) = Done [x]"
    using assms unfolding fences_readable_def by blast
  then show ?thesis by (simp add: load_fence_def op_try_def sys_def op_simps out_word_def)
qed

lemma spin_all_error:
  assumes "fences_readable K"
  shows "spin_all K n ss cond v d h = (Inl e, h') \<Longrightarrow> e = HANGS"
proof (induction n arbitrary: h)
  case 0
  then show ?case by (auto simp: op_simps)
next
  case (Suc n)
  have c: "check_all K ss cond v h \<noteq> (Inl e, h')" for h using check_all_total [OF assms, of ss cond v h] by auto
  have t: "now_ns K h \<noteq> (Inl e, h')" for h using now_ns_eq [OF assms] by auto
  have l: "load_fence K (hd ss) h \<noteq> (Inl e, h')" for h using load_fence_eq [OF assms, of "hd ss" h] by auto
  from Suc show ?case by (auto simp: op_try_eq op_simps c t l split: if_splits)
qed

lemma spin_any_error:
  assumes "fences_readable K"
  shows "spin_any K n ss cond v d h = (Inl e, h') \<Longrightarrow> e = HANGS"
proof (induction n arbitrary: h)
  case 0
  then show ?case by (auto simp: op_simps)
next
  case (Suc n)
  have c: "check_any K 0 ss cond v h \<noteq> (Inl e, h')" for h using check_any_total [OF assms, of 0 ss cond v h] by auto
  have t: "now_ns K h \<noteq> (Inl e, h')" for h using now_ns_eq [OF assms] by auto
  from Suc show ?case by (auto simp: op_try_eq op_simps c t split: if_splits)
qed

text \<open>
  C25. A wait for all signals that succeeds has just read every fence and found the condition met; a
  wait for any of them returns the index of a signal whose fence it has just read and found to meet
  it; and either times out only after a clock read at or past the saturated deadline.
\<close>

theorem waits_are_sound:
  assumes "fences_readable K" and "K h Clock = Done [start]"
    and "ss \<noteq> []"
  shows "(\<forall>r h'. wait_all K n ss cond v timeout spin h = (r, h') \<longrightarrow>
      (r = Inr () \<longrightarrow> all_met ss cond v h') \<and>
      (r = Inl ETIMEDOUT \<longrightarrow> expired (add_sat start timeout) h')) \<and>
    (\<forall>r h'. wait_any K n ss cond v timeout spin h = (r, h') \<longrightarrow>
      (\<forall>i. r = Inr i \<longrightarrow> one_met ss cond v i h') \<and>
      (r = Inl ETIMEDOUT \<longrightarrow> expired (add_sat start timeout) h'))"
proof (intro conjI allI impI)
  note c = assms(1)
  have now: "now_ns K h = (Inr start, h @ [(Clock, Done [start])])"
    using assms(2) by (simp add: now_ns_def op_try_def sys_def op_simps out_word_def)
  { fix r h' assume "wait_all K n ss cond v timeout spin h = (r, h')"
    then have "(r = Inr () \<longrightarrow> all_met ss cond v h') \<and> (r = Inl ETIMEDOUT \<longrightarrow> expired (add_sat start timeout) h')"
      using spin_all_error [OF c] spin_all_met [OF c] block_all_met [OF c] assms(3)
      by (fastforce simp: wait_all_def op_try_eq op_simps now split: if_splits) }
  note all = this
  { fix r h' assume "wait_any K n ss cond v timeout spin h = (r, h')"
    then have "(\<forall>i. r = Inr i \<longrightarrow> one_met ss cond v i h') \<and> (r = Inl ETIMEDOUT \<longrightarrow> expired (add_sat start timeout) h')"
      using spin_any_error [OF c] spin_any_met [OF c] block_any_met [OF c] assms(3)
      by (fastforce simp: wait_any_def op_when_def op_try_eq op_simps now split: if_splits option.splits) }
  note any = this
  show "all_met ss cond v h'" if "wait_all K n ss cond v timeout spin h = (r, h')" "r = Inr ()" for r h'
    using all that by blast
  show "expired (add_sat start timeout) h'" if "wait_all K n ss cond v timeout spin h = (r, h')" "r = Inl ETIMEDOUT" for r h'
    using all that by blast
  show "one_met ss cond v i h'" if "wait_any K n ss cond v timeout spin h = (r, h')" "r = Inr i" for r h' i
    using any that by blast
  show "expired (add_sat start timeout) h'" if "wait_any K n ss cond v timeout spin h = (r, h')" "r = Inl ETIMEDOUT" for r h'
    using any that by blast
qed

definition fence_kernel :: kernel where
  "fence_kernel h c = (case c of
       LoadFence a \<Rightarrow> Done [if a = 8 then 1 else 0]
     | Clock \<Rightarrow> Done [if h = [] then 0 else - 1]
     | _ \<Rightarrow> Done [])"

definition signal_at :: "u64 \<Rightarrow> signal" where
  "signal_at a = \<lparr>sg_event = null_event, sg_fence = a\<rparr>"

lemma fence_kernel_readable: "fences_readable fence_kernel"
  by (simp add: fences_readable_def fence_kernel_def)

theorem waits_are_sound_witness:
  "\<exists>h. wait_any fence_kernel 3 [signal_at 8, signal_at 16] EQ 0 100 10 [] = (Inr 1, h) \<and>
     one_met [signal_at 8, signal_at 16] EQ 0 1 h"
proof -
  have "K [] Clock = Done [0]" if "K = fence_kernel" for K using that by (simp add: fence_kernel_def)
  then have start: "fence_kernel [] Clock = Done [0]" by simp
  obtain h where r: "wait_any fence_kernel 3 [signal_at 8, signal_at 16] EQ 0 100 10 [] = (Inr 1, h)"
    by (simp add: wait_any_def op_when_def op_try_def now_ns_def sys_def fence_kernel_def op_simps add_sat_def
        load_fence_def signal_at_def out_word_def numeral_3_eq_3)
  have "[signal_at 8, signal_at 16] \<noteq> []" by simp
  from waits_are_sound [OF fence_kernel_readable start this] r show ?thesis by blast
qed

section \<open>The waits return\<close>

text \<open>Every call takes a nanosecond at least: after \<open>n\<close> calls the clock shows \<open>n\<close>, up to its maximum.\<close>

definition clock_advances :: "kernel \<Rightarrow> bool" where
  "clock_advances K \<longleftrightarrow> (\<forall>h t. K h Clock = Done [t] \<longrightarrow> min (2 ^ 64 - 1) (length h) \<le> unat t)"

lemma push_all_shapes [op_shapes]:
  "extends (Memory.push_all K sz cap acc xs)" "honest K \<Longrightarrow> avoids HANGS (Memory.push_all K sz cap acc xs)"
  by (induction xs arbitrary: cap acc)
     (auto intro!: op_shapes simp: push_one_def split: if_splits)

lemma event_wait_shapes [op_shapes]:
  "extends (signal_event_wait K ss w d)" "honest K \<Longrightarrow> avoids HANGS (signal_event_wait K ss w d)"
  by (auto intro!: op_shapes simp: signal_event_wait_def wait_all_events_def wait_any_events_def do_wait_events_def
      vec_reserve_def check_wait_result_def split: if_splits)

lemma check_shapes [op_shapes]: "extends (check_all K ss cond v)" "extends (check_any K i ss cond v)"
  by (induction ss arbitrary: i) (auto intro!: op_shapes simp: load_fence_def split: if_splits)

lemma clock_below:
  assumes "clock_advances K" and "K h Clock = Done [t]" and "\<not> t \<ge> d"
  shows "length h < unat d"
proof -
  have "min (2 ^ 64 - 1) (length h) \<le> unat t" using assms(1,2) unfolding clock_advances_def by blast
  moreover have "unat t < unat d" using assms(3) by (simp add: word_less_nat_alt not_le)
  ultimately show ?thesis using unat64_less [of d] by (simp add: min_def split: if_splits)
qed

definition polled :: "kernel \<Rightarrow> bool" where
  "polled K \<longleftrightarrow> fences_readable K \<and> honest K \<and> clock_advances K"

lemma polledD: "polled K \<Longrightarrow> fences_readable K" "polled K \<Longrightarrow> honest K" "polled K \<Longrightarrow> clock_advances K"
  by (simp_all add: polled_def)

lemma poll_progress:
  assumes "polled K" and "now_ns K h1 = (Inr t, h2)" and "\<not> t \<ge> d" and "length h \<le> length h1"
  shows "length h < unat d \<and> length h < length h2"
proof -
  have "K h1 Clock = Done [t] \<and> h2 = h1 @ [(Clock, Done [t])]"
    using now_ns_eq [OF polledD(1) [OF assms(1)] assms(2)] by auto
  then show ?thesis using clock_below [OF polledD(3) [OF assms(1)] _ assms(3)] assms(4) by force
qed

lemma block_all_returns:
  assumes "polled K"
  shows "unat d < length h + n \<Longrightarrow> 0 < n \<Longrightarrow> fst (block_all K n ss cond v d h) \<noteq> Inl HANGS"
proof (induction n arbitrary: h)
  case 0
  then show ?case by simp
next
  case (Suc n)
  obtain ok h1 where c: "check_all K ss cond v h = (Inr ok, h1)"
    using check_all_total [OF polledD(1) [OF assms]] by blast
  obtain t h2 where t: "now_ns K h1 = (Inr t, h2)"
    using now_ns_eq [OF polledD(1) [OF assms]] by (metis surj_pair)
  have l1: "length h \<le> length h1" using c by (rule extends_length [OF check_shapes(1)])
  show ?case
  proof (cases "ok \<or> t \<ge> d")
    case True
    then show ?thesis using c t by (auto simp: op_try_def op_when_def op_simps)
  next
    case False
    then have p: "length h < unat d" "length h < length h2" using poll_progress [OF assms t _ l1] by auto
    obtain x h3 where w: "signal_event_wait K ss True (d - t) h2 = (x, h3)" by (cases "signal_event_wait K ss True (d - t) h2")
    have l3: "length h2 \<le> length h3" using w by (rule extends_length [OF event_wait_shapes(1)])
    have "x \<noteq> Inl HANGS"
      using event_wait_shapes(2) [OF polledD(2) [OF assms]] w unfolding avoids_def by (metis fst_conv)
    moreover have "fst (block_all K n ss cond v d h3) \<noteq> Inl HANGS"
      using Suc.prems p l3 by (intro Suc.IH) linarith+
    ultimately show ?thesis
      using False c t w by (cases x) (auto simp: op_try_def op_when_def op_else_def op_simps)
  qed
qed

lemma block_any_returns:
  assumes "polled K"
  shows "unat d < length h + n \<Longrightarrow> 0 < n \<Longrightarrow> fst (block_any K n ss cond v d h) \<noteq> Inl HANGS"
proof (induction n arbitrary: h)
  case 0
  then show ?case by simp
next
  case (Suc n)
  obtain idx h1 where c: "check_any K 0 ss cond v h = (Inr idx, h1)"
    using check_any_total [OF polledD(1) [OF assms]] by blast
  obtain t h2 where t: "now_ns K h1 = (Inr t, h2)"
    using now_ns_eq [OF polledD(1) [OF assms]] by (metis surj_pair)
  have l1: "length h \<le> length h1" using c by (rule extends_length [OF check_shapes(2)])
  show ?case
  proof (cases "idx \<noteq> None \<or> t \<ge> d")
    case True
    then show ?thesis using c t by (cases idx) (auto simp: op_try_def op_when_def op_simps)
  next
    case False
    then have p: "length h < unat d" "length h < length h2" using poll_progress [OF assms t _ l1] by auto
    obtain x h3 where w: "signal_event_wait K ss False (d - t) h2 = (x, h3)" by (cases "signal_event_wait K ss False (d - t) h2")
    have l3: "length h2 \<le> length h3" using w by (rule extends_length [OF event_wait_shapes(1)])
    have "x \<noteq> Inl HANGS"
      using event_wait_shapes(2) [OF polledD(2) [OF assms]] w unfolding avoids_def by (metis fst_conv)
    moreover have "fst (block_any K n ss cond v d h3) \<noteq> Inl HANGS"
      using Suc.prems p l3 by (intro Suc.IH) linarith+
    ultimately show ?thesis
      using False c t w by (cases x) (auto simp: op_try_def op_when_def op_else_def op_simps)
  qed
qed

lemma spin_all_returns:
  assumes "polled K"
  shows "unat d < length h + n \<Longrightarrow> 0 < n \<Longrightarrow>
    \<exists>ok h'. spin_all K n ss cond v d h = (Inr ok, h') \<and> length h \<le> length h'"
proof (induction n arbitrary: h)
  case 0
  then show ?case by simp
next
  case (Suc n)
  note r = polledD(1) [OF assms]
  obtain ok h1 where c: "check_all K ss cond v h = (Inr ok, h1)" using check_all_total [OF r] by blast
  obtain t h2 where t: "now_ns K h1 = (Inr t, h2)" using now_ns_eq [OF r] by (metis surj_pair)
  have l1: "length h \<le> length h1" using c by (rule extends_length [OF check_shapes(1)])
  have l2: "length h1 \<le> length h2" using now_ns_eq [OF r t] by auto
  obtain x where l: "load_fence K (hd ss) h2 = (Inr x, h2 @ [(LoadFence (sg_fence (hd ss)), Done [x])])"
    using load_fence_eq [OF r] by blast
  show ?case
  proof (cases "ok \<or> t \<ge> d")
    case True
    then show ?thesis using c t l1 l2 by (auto simp: op_try_def op_simps)
  next
    case False
    then have p: "length h < unat d" "length h < length h2" using poll_progress [OF assms t _ l1] by auto
    have go: "\<exists>ok h'. spin_all K n ss cond v d h3 = (Inr ok, h') \<and> length h \<le> length h'"
      if "length h2 \<le> length h3" for h3
      using Suc.IH [of h3] Suc.prems p that by fastforce
    show ?thesis using False c t l go [of h2] go [of "h2 @ [(LoadFence (sg_fence (hd ss)), Done [x])]"]
      by (auto simp: op_try_def)
  qed
qed

lemma spin_any_returns:
  assumes "polled K"
  shows "unat d < length h + n \<Longrightarrow> 0 < n \<Longrightarrow>
    \<exists>idx h'. spin_any K n ss cond v d h = (Inr idx, h') \<and> length h \<le> length h'"
proof (induction n arbitrary: h)
  case 0
  then show ?case by simp
next
  case (Suc n)
  note r = polledD(1) [OF assms]
  obtain idx h1 where c: "check_any K 0 ss cond v h = (Inr idx, h1)" using check_any_total [OF r] by blast
  obtain t h2 where t: "now_ns K h1 = (Inr t, h2)" using now_ns_eq [OF r] by (metis surj_pair)
  have l1: "length h \<le> length h1" using c by (rule extends_length [OF check_shapes(2)])
  have l2: "length h1 \<le> length h2" using now_ns_eq [OF r t] by auto
  show ?case
  proof (cases "idx \<noteq> None \<or> t \<ge> d")
    case True
    then show ?thesis using c t l1 l2 by (auto simp: op_try_def op_simps)
  next
    case False
    then have p: "length h < unat d" "length h < length h2" using poll_progress [OF assms t _ l1] by auto
    then have "\<exists>idx h'. spin_any K n ss cond v d h2 = (Inr idx, h') \<and> length h \<le> length h'"
      using Suc.IH [of h2] Suc.prems by fastforce
    then show ?thesis using False c t by (auto simp: op_try_def)
  qed
qed

text \<open>
  C26. With a clock that advances at every call both waits return, whatever the fences show and
  however often the kernel reports a wake-up or a timeout: as many polls as the later of the two
  deadlines are enough.
\<close>

theorem waits_return:
  assumes "polled K" and "K h Clock = Done [start]"
    and "unat (add_sat start spin) < n" and "unat (add_sat start timeout) < n"
  shows "fst (wait_all K n ss cond v timeout spin h) \<noteq> Inl HANGS \<and>
    fst (wait_any K n ss cond v timeout spin h) \<noteq> Inl HANGS"
proof
  let ?h = "h @ [(Clock, Done [start])]"
  have now: "now_ns K h = (Inr start, ?h)"
    using assms(2) by (simp add: now_ns_def op_try_def sys_def op_simps out_word_def)
  have n: "0 < n" using assms(3) by simp
  obtain ok h1 where a: "spin_all K n ss cond v (add_sat start spin) ?h = (Inr ok, h1)" "length ?h \<le> length h1"
    using spin_all_returns [OF assms(1) _ n, of "add_sat start spin" ?h] assms(3) by fastforce
  have "fst (block_all K n ss cond v (add_sat start timeout) h1) \<noteq> Inl HANGS"
    using assms(4) by (intro block_all_returns [OF assms(1) _ n]) simp
  then show "fst (wait_all K n ss cond v timeout spin h) \<noteq> Inl HANGS"
    using now a by (simp add: wait_all_def op_try_def op_simps)
  obtain idx h2 where b: "spin_any K n ss cond v (add_sat start spin) ?h = (Inr idx, h2)" "length ?h \<le> length h2"
    using spin_any_returns [OF assms(1) _ n, of "add_sat start spin" ?h] assms(3) by fastforce
  have "fst (block_any K n ss cond v (add_sat start timeout) h2) \<noteq> Inl HANGS"
    using assms(4) by (intro block_any_returns [OF assms(1) _ n]) simp
  then show "fst (wait_any K n ss cond v timeout spin h) \<noteq> Inl HANGS"
    using now b by (cases idx) (simp_all add: wait_any_def op_when_def op_try_def op_simps)
qed

lemma fence_kernel_polled: "polled fence_kernel"
proof -
  have "honest fence_kernel" by (auto simp: honest_def fence_kernel_def split: sys_call.splits)
  moreover have "clock_advances fence_kernel"
    using unat_max64 by (auto simp: clock_advances_def fence_kernel_def)
  ultimately show ?thesis using fence_kernel_readable by (simp add: polled_def)
qed

theorem waits_return_witness:
  "fst (wait_all fence_kernel 11 [signal_at 8] EQ 0 10 3 []) \<noteq> Inl HANGS"
proof -
  have "fence_kernel [] Clock = Done [0]" by (simp add: fence_kernel_def)
  from waits_return [OF fence_kernel_polled this, of 3 11 10 "[signal_at 8]" EQ 0] show ?thesis
    by (simp add: add_sat_def)
qed

end
