(* ===== verification/Queue_Ops.thy ===== *)
theory Queue_Ops
  imports Queue_Ring Signal
begin

text \<open>
  The operations of \<^verbatim>\<open>ComputeQueue\<close> and \<^verbatim>\<open>SDMAQueue\<close> in \<^verbatim>\<open>queue.h\<close>: each builds packets
  and hands them to \<^verbatim>\<open>QueueBase::submit\<close>. A queue carries its ring, the version of its
  device and, as ghost state, what the device and the clock do during the coming submissions
  and the blocks submitted so far. A submission runs under the queue's mutex and is one step.
  The chunked transfers are proved over the interface \<open>packet_sink\<close>, which asks of a
  submission only that it appends the block or fails; the model's submission provides it.
\<close>

section \<open>Queues\<close>

record queue_base =
  qb_ring :: ring_queue
  qb_gfx :: u32
  qb_room :: "(room_env \<times> room_env) list"
  qb_sent :: "u32 list list"

record compute_queue = queue_base +
  cq_eop_seq :: u64
  cq_next_eop_seq :: u32

definition base_submit :: "u32 list \<Rightarrow> 'a queue_base_scheme \<Rightarrow> unit res \<times> 'a queue_base_scheme" where
  "base_submit data q =
     (case qb_room q of
        [] \<Rightarrow> (Inl HANGS, q)
      | (env1, env2) # envs \<Rightarrow>
          (case submit_impl (qb_ring q) data env1 env2 of
             None \<Rightarrow> (Inl HANGS, q)
           | Some (Inl e, ring') \<Rightarrow> (Inl e, q\<lparr>qb_ring := ring', qb_room := envs\<rparr>)
           | Some (Inr _, ring') \<Rightarrow>
               (Inr (), q\<lparr>qb_ring := ring', qb_room := envs,
                  qb_sent := qb_sent q @ (if data = [] then [] else [data])\<rparr>)))"

text \<open>The loop of the chunked transfers; with a chunk size of zero it would not end.\<close>

lemma chunk_smaller:
  fixes n mx :: "'l::len word"
  assumes "n \<noteq> 0" and "mx \<noteq> 0"
  shows "0 < unat n" and "\<not> n < mx \<Longrightarrow> unat (n - mx) < unat n"
    and "unat (n - (if n < mx then n else mx)) < unat n"
  using assms by (auto simp: unat_sub_no_wrap word_less_nat_alt not_less unat_gt_0 word_le_nat_alt)

function chunk_loop ::
    "(u32 list \<Rightarrow> 's \<Rightarrow> unit res \<times> 's) \<Rightarrow> (u64 \<Rightarrow> u64 \<Rightarrow> u32 \<Rightarrow> u32 list) \<Rightarrow> 'l::len word \<Rightarrow> u64 \<Rightarrow> u64 \<Rightarrow>
     'l word \<Rightarrow> 's \<Rightarrow> unit res \<times> 's" where
  "chunk_loop submit mk mx d s remaining q =
     (if remaining = 0 then (Inr (), q)
      else if mx = 0 then (Inl HANGS, q)
      else let chunk = (if remaining < mx then remaining else mx)
           in (case submit (mk d s (ucast chunk)) q of
                 (Inl e, q') \<Rightarrow> (Inl e, q')
               | (Inr _, q') \<Rightarrow>
                   chunk_loop submit mk mx (d + ucast chunk) (s + ucast chunk) (remaining - chunk) q'))"
  by pat_completeness auto

termination
  by (relation "measure (\<lambda>(_, _, _, _, _, n, _). unat n)") (auto simp: chunk_smaller)

declare chunk_loop.simps [simp del]

section \<open>Compute queues\<close>

definition cq_write_data :: "u64 \<Rightarrow> u32 \<Rightarrow> compute_queue \<Rightarrow> unit res \<times> compute_queue" where
  "cq_write_data addr v q = base_submit (write_data addr v DST_MEM_ASYNC POLICY_NOA True) q"

definition dma_max_bytes :: "u32 \<Rightarrow> u32" where
  "dma_max_bytes gfx =
     (if gfx \<ge> GFX_VERSION_GFX10_1 then DMA_DATA_MAX_BYTES_GFX10 else DMA_DATA_MAX_BYTES_GFX9)"

definition cq_dma_copy :: "u64 \<Rightarrow> u64 \<Rightarrow> u32 \<Rightarrow> compute_queue \<Rightarrow> unit res \<times> compute_queue" where
  "cq_dma_copy dst src byte_count q =
     chunk_loop base_submit dma_data_copy (dma_max_bytes (qb_gfx q)) dst src byte_count q"

definition cq_dma_fill :: "u64 \<Rightarrow> u32 \<Rightarrow> u32 \<Rightarrow> compute_queue \<Rightarrow> unit res \<times> compute_queue" where
  "cq_dma_fill dst v byte_count q =
     chunk_loop base_submit (\<lambda>d _ n. dma_data_fill d v n) (dma_max_bytes (qb_gfx q)) dst 0 byte_count q"

definition cq_signal_packets :: "u32 \<Rightarrow> u64 \<Rightarrow> u32 \<Rightarrow> signal \<Rightarrow> u32 list" where
  "cq_signal_packets gfx eop_seq next_seq sig =
     release_mem_fence gfx eop_seq (ucast next_seq) @
     wait_reg_mem gfx eop_seq GTE next_seq 0xFFFFFFFF True @
     atomic_mem ATOMIC_ADD_RTN_64 (sg_fence sig) (- 1) 0 ATOMIC_SINGLE_PASS POLICY_BYPASS @
     release_mem_event gfx (ev_slot (sg_event sig)) (ev_id (sg_event sig)) (ev_trigger (sg_event sig))"

definition cq_signal :: "signal \<Rightarrow> 'a compute_queue_scheme \<Rightarrow> unit res \<times> 'a compute_queue_scheme" where
  "cq_signal sig q =
     (let next_seq = cq_next_eop_seq q + 1
      in base_submit (cq_signal_packets (qb_gfx q) (cq_eop_seq q) next_seq sig)
           (q\<lparr>cq_next_eop_seq := next_seq\<rparr>))"

definition cq_wait :: "signal \<Rightarrow> condition \<Rightarrow> u32 \<Rightarrow> compute_queue \<Rightarrow> unit res \<times> compute_queue" where
  "cq_wait sig cond v q = base_submit (wait_reg_mem (qb_gfx q) (sg_fence sig) cond v 0xFFFFFFFF True) q"

definition cq_release_mem ::
    "u32 \<Rightarrow> data_sel \<Rightarrow> int_sel \<Rightarrow> u64 \<Rightarrow> u64 \<Rightarrow> u32 \<Rightarrow> compute_queue \<Rightarrow> unit res \<times> compute_queue" where
  "cq_release_mem ordinal2 data intr addr v int_ctxid q =
     base_submit (release_mem ordinal2 data intr addr v int_ctxid) q"

definition cq_acquire_mem :: "u32 \<Rightarrow> compute_queue \<Rightarrow> unit res \<times> compute_queue" where
  "cq_acquire_mem flags q = base_submit (acquire_mem (qb_gfx q) flags) q"

definition cq_wait_reg_mem :: "u64 \<Rightarrow> condition \<Rightarrow> u32 \<Rightarrow> u32 \<Rightarrow> compute_queue \<Rightarrow> unit res \<times> compute_queue" where
  "cq_wait_reg_mem addr cond reference msk q =
     base_submit (wait_reg_mem (qb_gfx q) addr cond reference msk True) q"

definition cq_indirect_buffer :: "u64 \<Rightarrow> u32 \<Rightarrow> compute_queue \<Rightarrow> unit res \<times> compute_queue" where
  "cq_indirect_buffer ib_addr ib_size_dwords q =
     base_submit (indirect_buffer ib_addr ib_size_dwords POLICY_LRU) q"

definition cq_atomic_mem ::
    "atomic_op \<Rightarrow> u64 \<Rightarrow> u64 \<Rightarrow> u64 \<Rightarrow> atomic_command \<Rightarrow> compute_queue \<Rightarrow> unit res \<times> compute_queue" where
  "cq_atomic_mem aop addr src_data cmp_data cmd q =
     base_submit (atomic_mem aop addr src_data cmp_data cmd POLICY_LRU) q"

section \<open>SDMA queues\<close>

definition sq_copy_linear :: "u64 \<Rightarrow> u64 \<Rightarrow> u64 \<Rightarrow> queue_base \<Rightarrow> unit res \<times> queue_base" where
  "sq_copy_linear dst src bytes q =
     chunk_loop base_submit copy_linear (ucast (max_copy_linear_bytes (qb_gfx q))) dst src bytes q"

definition sq_const_fill :: "u64 \<Rightarrow> u32 \<Rightarrow> u32 \<Rightarrow> queue_base \<Rightarrow> unit res \<times> queue_base" where
  "sq_const_fill dst v bytes q = base_submit (const_fill (qb_gfx q) dst v bytes) q"

definition sq_fence :: "u64 \<Rightarrow> u32 \<Rightarrow> queue_base \<Rightarrow> unit res \<times> queue_base" where
  "sq_fence addr v q = base_submit (sdma_fence (qb_gfx q) addr v) q"

definition sq_flush_caches :: "u32 \<Rightarrow> queue_base \<Rightarrow> unit res \<times> queue_base" where
  "sq_flush_caches cntl q =
     (if qb_gfx q < GFX_VERSION_GFX10_1 then (Inr (), q) else base_submit (gcr_req cntl) q)"

definition sq_poll_regmem :: "u64 \<Rightarrow> condition \<Rightarrow> u32 \<Rightarrow> u32 \<Rightarrow> queue_base \<Rightarrow> unit res \<times> queue_base" where
  "sq_poll_regmem addr cond reference msk q =
     base_submit (poll_regmem addr cond reference msk 0x0A 0xFFF) q"

definition sq_timestamp :: "u64 \<Rightarrow> queue_base \<Rightarrow> unit res \<times> queue_base" where
  "sq_timestamp addr q = base_submit (timestamp addr) q"

definition sq_atomic_mem :: "sdma_atomic_op \<Rightarrow> u64 \<Rightarrow> u64 \<Rightarrow> u64 \<Rightarrow> queue_base \<Rightarrow> unit res \<times> queue_base" where
  "sq_atomic_mem aop addr src_data cmp_data q =
     base_submit (sdma_atomic_mem aop addr src_data cmp_data) q"

definition sq_signal_packets :: "u32 \<Rightarrow> signal \<Rightarrow> u32 list" where
  "sq_signal_packets gfx sig =
     (if gfx \<ge> GFX_VERSION_GFX10_1 then gcr_req GCR_FLUSH_ALL else []) @
     sdma_atomic_mem SDMA_ADD_64 (sg_fence sig) (- 1) 0 @
     sdma_fence gfx (ev_slot (sg_event sig)) (ev_id (sg_event sig)) @
     sdma_trap (ev_trigger (sg_event sig))"

definition sq_signal :: "signal \<Rightarrow> queue_base \<Rightarrow> unit res \<times> queue_base" where
  "sq_signal sig q = base_submit (sq_signal_packets (qb_gfx q) sig) q"

definition sq_wait :: "signal \<Rightarrow> condition \<Rightarrow> u32 \<Rightarrow> queue_base \<Rightarrow> unit res \<times> queue_base" where
  "sq_wait sig cond v q = base_submit (poll_regmem (sg_fence sig) cond v 0xFFFFFFFF 0x0A 0xFFF) q"

section \<open>The interface of a submission\<close>

text \<open>The blocks of a chunked transfer, in order.\<close>

function chunk_blocks ::
    "(u64 \<Rightarrow> u64 \<Rightarrow> u32 \<Rightarrow> u32 list) \<Rightarrow> 'l::len word \<Rightarrow> u64 \<Rightarrow> u64 \<Rightarrow> 'l word \<Rightarrow> u32 list list" where
  "chunk_blocks mk mx d s n =
     (if n = 0 \<or> mx = 0 then []
      else let c = (if n < mx then n else mx)
           in mk d s (ucast c) # chunk_blocks mk mx (d + ucast c) (s + ucast c) (n - c))"
  by pat_completeness auto

termination
  by (relation "measure (\<lambda>(_, _, _, _, n). unat n)") (auto simp: chunk_smaller)

declare chunk_blocks.simps [simp del]

lemma chunk_blocks_0 [simp]: "chunk_blocks mk mx d s 0 = []"
  by (simp add: chunk_blocks.simps)

lemma chunk_blocks_all: "(\<And>d s c. P (mk d s c)) \<Longrightarrow> list_all P (chunk_blocks mk mx d s n)"
  by (induction mk mx d s n rule: chunk_blocks.induct) (subst chunk_blocks.simps, auto simp: Let_def)

definition block_ok :: "u32 list \<Rightarrow> bool" where
  "block_ok xs \<longleftrightarrow> xs \<noteq> [] \<and> length xs < 2 ^ 32"

locale packet_sink =
  fixes submit :: "u32 list \<Rightarrow> 's \<Rightarrow> unit res \<times> 's"
    and sent :: "'s \<Rightarrow> u32 list list"
  assumes submits: "block_ok xs \<Longrightarrow> submit xs q = (r, q') \<Longrightarrow>
      sent q' = (case r of Inr _ \<Rightarrow> sent q @ [xs] | Inl _ \<Rightarrow> sent q)"
begin

lemma submits_all:
  "block_ok xs \<Longrightarrow> P xs \<Longrightarrow> list_all P (sent q) \<Longrightarrow> list_all P (sent (snd (submit xs q)))"
  using submits [of xs q "fst (submit xs q)" "snd (submit xs q)"] by (auto split: sum.splits)

text \<open>A transfer sends a prefix of its blocks, all of them when it succeeds.\<close>

lemma chunk_loop_sent:
  fixes mx n :: "'l::len word"
  assumes mk: "\<And>d s c. block_ok (mk d s c)" and mx: "mx \<noteq> 0"
    and run: "chunk_loop submit mk mx d s n q = (r, q')"
  shows "\<exists>k. sent q' = sent q @ take k (chunk_blocks mk mx d s n) \<and>
           (r = Inr () \<longrightarrow> k = length (chunk_blocks mk mx d s n))"
  using run
proof (induction "unat n" arbitrary: n d s q rule: less_induct)
  case less
  note run = less.prems [unfolded chunk_loop.simps [of _ _ _ _ _ n]]
  note blocks = chunk_blocks.simps [of mk mx d s n]
  show ?case
  proof (cases "n = 0")
    case True
    with run show ?thesis by (auto simp: blocks)
  next
    case False
    define c where "c = (if n < mx then n else mx)"
    obtain r1 q1 where first: "submit (mk d s (ucast c)) q = (r1, q1)" by fastforce
    note sent1 = submits [OF mk first]
    note cons = blocks [unfolded Let_def c_def [symmetric]]
    show ?thesis
    proof (cases r1)
      case (Inl e)
      then show ?thesis
        using run False mx first sent1 by (auto simp: Let_def c_def [symmetric] intro!: exI [of _ 0])
    next
      case (Inr u)
      then have "chunk_loop submit mk mx (d + ucast c) (s + ucast c) (n - c) q1 = (r, q')"
        using run False mx first by (simp add: Let_def c_def [symmetric])
      from less.hyps [OF _ this] chunk_smaller(3) [OF False mx] obtain k where
        "sent q' = sent q1 @ take k (chunk_blocks mk mx (d + ucast c) (s + ucast c) (n - c))"
        "r = Inr () \<longrightarrow> k = length (chunk_blocks mk mx (d + ucast c) (s + ucast c) (n - c))"
        by (auto simp: c_def)
      then show ?thesis
        using False mx Inr sent1 by (auto simp: cons intro!: exI [of _ "Suc k"])
    qed
  qed
qed

lemma chunk_loop_all:
  fixes mx n :: "'l::len word"
  assumes mk: "\<And>d s c. block_ok (mk d s c)" and P: "\<And>d s c. P (mk d s c)" and mx: "mx \<noteq> 0"
    and ok: "list_all P (sent q)"
  shows "list_all P (sent (snd (chunk_loop submit mk mx d s n q)))"
proof -
  have "list_all P (chunk_blocks mk mx d s n)" by (rule chunk_blocks_all) (rule P)
  moreover obtain k where "sent (snd (chunk_loop submit mk mx d s n q))
      = sent q @ take k (chunk_blocks mk mx d s n)"
    using chunk_loop_sent [where mk = mk and mx = mx and d = d and s = s and n = n and q = q,
        OF mk mx surjective_pairing] by blast
  ultimately show ?thesis using ok by (auto simp: list_all_iff dest: in_set_takeD)
qed

end

lemma base_submit_sends:
  "block_ok xs \<Longrightarrow> base_submit xs q = (r, q') \<Longrightarrow>
     qb_sent q' = (case r of Inr _ \<Rightarrow> qb_sent q @ [xs] | Inl _ \<Rightarrow> qb_sent q)"
  by (auto simp: base_submit_def block_ok_def split: list.splits prod.splits option.splits sum.splits)

interpretation sink: packet_sink base_submit qb_sent
  by unfold_locales (rule base_submit_sends)

lemma base_submit_frame:
  "qb_gfx (snd (base_submit xs q)) = qb_gfx q"
  by (auto simp: base_submit_def split: list.splits prod.splits option.splits sum.splits)

section \<open>What the transfers do to memory\<close>

type_synonym vram = "u64 \<Rightarrow> u8"

definition copy_bytes :: "u64 \<Rightarrow> u64 \<Rightarrow> nat \<Rightarrow> vram \<Rightarrow> vram" where
  "copy_bytes d s n m = (\<lambda>a. if unat (a - d) < n then m (s + (a - d)) else m a)"

definition fill_bytes :: "u64 \<Rightarrow> u32 \<Rightarrow> nat \<Rightarrow> vram \<Rightarrow> vram" where
  "fill_bytes d v n m = (\<lambda>a. if unat (a - d) < n then ucast (drop_bit (8 * (unat (a - d) mod 4)) v) else m a)"

text \<open>No byte of the source lies in the destination.\<close>

definition disjoint_ranges :: "u64 \<Rightarrow> u64 \<Rightarrow> nat \<Rightarrow> bool" where
  "disjoint_ranges d s n \<longleftrightarrow> (\<forall>i<n. n \<le> unat (s + of_nat i - d))"

lemma copy_bytes_0 [simp]: "copy_bytes d s 0 m = m"
  by (simp add: copy_bytes_def)

lemma fill_bytes_0 [simp]: "fill_bytes d v 0 m = m"
  by (simp add: fill_bytes_def)

lemma unat_sub_offset:
  fixes a d :: u64
  assumes "c < 2 ^ 64"
  shows "c \<le> unat (a - d) \<Longrightarrow> unat (a - (d + of_nat c)) = unat (a - d) - c"
    and "unat (a - d) < c \<Longrightarrow> unat (a - (d + of_nat c)) = unat (a - d) + (2 ^ 64 - c)"
proof -
  have e: "a - (d + of_nat c) = (a - d) - of_nat c" by simp
  have u: "unat (of_nat c :: u64) = c" using assms by (simp add: unat_of_nat)
  note sub = unat_sub_if' [of "a - d" "of_nat c", unfolded u]
  show "c \<le> unat (a - d) \<Longrightarrow> unat (a - (d + of_nat c)) = unat (a - d) - c"
    unfolding e sub by simp
  show "unat (a - d) < c \<Longrightarrow> unat (a - (d + of_nat c)) = unat (a - d) + (2 ^ 64 - c)"
    unfolding e sub using assms by simp
qed

lemma copy_bytes_append:
  assumes c: "c < 2 ^ 64" "c + r \<le> 2 ^ 64" and dj: "disjoint_ranges d s N" and N: "c + r \<le> N"
  shows "copy_bytes (d + of_nat c) (s + of_nat c) r (copy_bytes d s c m) = copy_bytes d s (c + r) m"
proof
  fix a
  consider "unat (a - d) < c" | "c \<le> unat (a - d)" "unat (a - d) < c + r" | "c + r \<le> unat (a - d)"
    by linarith
  then show "copy_bytes (d + of_nat c) (s + of_nat c) r (copy_bytes d s c m) a = copy_bytes d s (c + r) m a"
  proof cases
    case 1
    have "\<not> unat (a - d) + (2 ^ 64 - c) < r" using c(2) by linarith
    then have "\<not> unat (a - (d + of_nat c)) < r" unfolding unat_sub_offset(2) [OF c(1) 1] .
    moreover have "unat (a - d) < c + r" using 1 by linarith
    ultimately show ?thesis using 1 by (simp only: copy_bytes_def if_True if_False)
  next
    case 2
    have src: "s + of_nat c + (a - (d + of_nat c)) = s + (a - d)" by simp
    have "unat (a - d) < N" using 2 N by linarith
    then have "N \<le> unat (s + of_nat (unat (a - d)) - d)"
      using dj unfolding disjoint_ranges_def by blast
    moreover have "of_nat (unat (a - d)) = a - d" by simp
    ultimately have "N \<le> unat (s + (a - d) - d)" by (simp only:)
    then have "\<not> unat (s + (a - d) - d) < c" using N by linarith
    moreover have "unat (a - d) - c < r" using 2 by linarith
    ultimately show ?thesis
      using 2 by (simp only: copy_bytes_def src unat_sub_offset(1) [OF c(1) 2(1)] if_True if_False)
  next
    case 3
    then have "\<not> unat (a - d) - c < r" "c \<le> unat (a - d)" by linarith+
    moreover have "\<not> unat (a - d) < c + r" "\<not> unat (a - d) < c" using 3 by linarith+
    ultimately show ?thesis
      by (simp only: copy_bytes_def unat_sub_offset(1) [OF c(1) \<open>c \<le> unat (a - d)\<close>] if_False)
  qed
qed

text \<open>
  A prefix of the blocks of a transfer whose blocks each copy their range copies a prefix of the
  whole range.
\<close>

lemma chunk_blocks_copy:
  fixes mx n :: "'l::len word"
  assumes width: "LENGTH('l) \<le> 64" and mx: "mx \<noteq> 0"
    and eff: "\<And>d s (c :: 'l word) m. 0 < unat c \<Longrightarrow> unat c \<le> unat mx \<Longrightarrow> eff (mk d s (ucast c)) m = copy_bytes d s (unat c) m"
    and dj: "disjoint_ranges d s N" and N: "unat n \<le> N"
  shows "fold eff (take k (chunk_blocks mk mx d s n)) m = copy_bytes d s (min (unat n) (k * unat mx)) m"
  using dj N
proof (induction k arbitrary: n d s m N)
  case 0
  then show ?case by simp
next
  case (Suc k)
  show ?case
  proof (cases "n = 0")
    case True
    then show ?thesis by simp
  next
    case False
    define c where "c = (if n < mx then n else mx)"
    have c: "unat c = min (unat n) (unat mx)" by (auto simp: c_def word_less_nat_alt)
    then have c': "0 < unat c" "unat c \<le> unat mx" "unat c \<le> unat n"
      using False mx by (auto simp: unat_gt_0)
    have n: "unat n < 2 ^ 64"
    proof -
      have "unat n < 2 ^ LENGTH('l)" by simp
      also have "\<dots> \<le> 2 ^ 64" using width by (intro power_increasing) simp_all
      finally show ?thesis .
    qed
    have n': "unat (n - c) = unat n - unat c" using c'(3) by (simp add: unat_sub_no_wrap)
    have cw: "(ucast c :: u64) = of_nat (unat c)" by simp
    have dj': "disjoint_ranges (d + of_nat (unat c)) (s + of_nat (unat c)) (N - unat c)"
      unfolding disjoint_ranges_def
    proof (intro allI impI)
      fix i assume "i < N - unat c"
      then have "N \<le> unat (s + of_nat (unat c + i) - d)"
        using Suc.prems(1) unfolding disjoint_ranges_def by (metis less_diff_conv add.commute)
      moreover have "s + of_nat (unat c) + of_nat i - (d + of_nat (unat c))
          = s + of_nat (unat c + i) - d - of_nat (unat c)" by simp
      moreover have "unat c \<le> unat (s + of_nat (unat c + i) - d)"
        using calculation(1) c'(3) Suc.prems(2) by linarith
      ultimately show "N - unat c \<le> unat (s + of_nat (unat c) + of_nat i - (d + of_nat (unat c)))"
        using unat_sub_offset(1) [of "unat c" "s + of_nat (unat c + i)" d] c'(3) n
        by (simp add: algebra_simps)
    qed
    have "fold eff (take (Suc k) (chunk_blocks mk mx d s n)) m
        = fold eff (take k (chunk_blocks mk mx (d + ucast c) (s + ucast c) (n - c))) (copy_bytes d s (unat c) m)"
      using False mx by (subst chunk_blocks.simps) (simp add: c_def [symmetric] Let_def eff [OF c'(1,2)])
    also have "\<dots> = copy_bytes (d + of_nat (unat c)) (s + of_nat (unat c)) (min (unat n - unat c) (k * unat mx))
        (copy_bytes d s (unat c) m)"
      unfolding cw n' [symmetric] using Suc.prems(2) n' by (intro Suc.IH [OF dj']) linarith
    also have "\<dots> = copy_bytes d s (unat c + min (unat n - unat c) (k * unat mx)) m"
      using c' n Suc.prems by (intro copy_bytes_append [of _ _ d s N]) auto
    also have "unat c + min (unat n - unat c) (k * unat mx) = min (unat n) (Suc k * unat mx)"
      using c by (auto simp: min_def)
    finally show ?thesis .
  qed
qed


text \<open>
  Blocks that copy nothing when they are full: only the tail below the chunk size takes effect.
\<close>

lemma chunk_blocks_tail:
  fixes n mx :: u32
  assumes mx: "mx \<noteq> 0"
    and eff: "\<And>d s c m. c \<noteq> 0 \<Longrightarrow> c \<le> mx \<Longrightarrow> eff (mk d s c) m = (if c = mx then m else E d s c m)"
    and E: "\<And>d s m. E d s 0 m = m"
  shows "fold eff (chunk_blocks mk mx d s n) m = E (d + ucast (n - n mod mx)) (s + ucast (n - n mod mx)) (n mod mx) m"
proof (induction "unat n" arbitrary: n d s m rule: less_induct)
  case less
  show ?case
  proof (cases "n < mx")
    case True
    then have small: "n mod mx = n" by (simp add: mod_word_less)
    show ?thesis
    proof (cases "n = 0")
      case False
      have "fold eff (chunk_blocks mk mx d s n) m = eff (mk d s n) m"
        using True mx False by (subst chunk_blocks.simps) (simp add: Let_def)
      also have "\<dots> = E d s n m" using True False eff [of n d s m] by (simp add: less_le)
      finally show ?thesis by (simp add: small)
    qed (simp add: E)
  next
    case False
    then have n: "n \<noteq> 0" "mx \<le> n" using mx by (auto simp: not_less word_le_nat_alt unat_eq_0)
    have sub: "unat (n - mx) = unat n - unat mx" using n(2) by (simp add: unat_sub_no_wrap word_le_nat_alt)
    have "unat ((n - mx) mod mx) = unat (n mod mx)"
      using n(2) sub by (simp add: unat_mod word_le_nat_alt le_mod_geq)
    then have md: "(n - mx) mod mx = n mod mx" by (simp only: word_unat_eq_iff)
    have off: "ucast mx + ucast (n - mx - n mod mx) = (ucast (n - n mod mx) :: u64)"
    proof -
      have le: "unat (n mod mx) \<le> unat n - unat mx"
        using n(2) md sub by (metis mod_less_eq_dividend unat_mod)
      then have "unat (n - mx - n mod mx) = unat n - unat mx - unat (n mod mx)"
        using sub by (simp add: unat_sub_no_wrap)
      moreover have "unat (n - n mod mx) = unat n - unat (n mod mx)"
        using le by (simp add: unat_sub_no_wrap)
      ultimately have "unat mx + unat (n - mx - n mod mx) = unat (n - n mod mx)"
        using n(2) le by (simp add: word_le_nat_alt)
      then have "(of_nat (unat mx + unat (n - mx - n mod mx)) :: u64) = of_nat (unat (n - n mod mx))"
        by (simp only:)
      then show ?thesis by simp
    qed
    have "fold eff (chunk_blocks mk mx d s n) m
        = fold eff (chunk_blocks mk mx (d + ucast mx) (s + ucast mx) (n - mx)) m"
      using n False mx eff [of mx d s m] by (subst chunk_blocks.simps) (simp add: Let_def)
    also have "\<dots> = E (d + ucast mx + ucast (n - mx - n mod mx)) (s + ucast mx + ucast (n - mx - n mod mx))
        (n mod mx) m"
      using less.hyps [of "n - mx" "d + ucast mx" "s + ucast mx" m] chunk_smaller(2) [OF n(1) mx False]
      by (simp only: md)
    finally show ?thesis by (simp only: add.assoc off)
  qed
qed

section \<open>Linear copies\<close>

text \<open>
  A linear-copy packet as its layout comment describes it; the count field has 22 or 30 bits by
  generation.
\<close>

definition sdma_count_bits :: "u32 \<Rightarrow> nat" where
  "sdma_count_bits gfx = (if max_copy_linear_bytes gfx = MAX_COPY_LINEAR_30BIT then 30 else 22)"

definition sdma_copy_effect :: "u32 \<Rightarrow> u32 list \<Rightarrow> vram \<Rightarrow> vram" where
  "sdma_copy_effect gfx xs m =
     (case xs of
        [h, cnt, par, sl, sh, dl, dh] \<Rightarrow>
          if h AND 0xFF = sdma_code SDMA_COPY
          then copy_bytes (join32 dl dh) (join32 sl sh) (unat (take_bit (sdma_count_bits gfx) cnt) + 1) m
          else m
      | _ \<Rightarrow> m)"

lemma max_copy_linear_range:
  "max_copy_linear_bytes gfx \<noteq> 0" "unat (max_copy_linear_bytes gfx) \<le> 2 ^ sdma_count_bits gfx"
  "sdma_count_bits gfx \<le> 30"
  by (auto simp: max_copy_linear_bytes_def sdma_count_bits_def Let_def MAX_COPY_LINEAR_30BIT_def
      MAX_COPY_LINEAR_22BIT_def)

lemma sdma_copy_block:
  fixes c :: u64
  assumes "0 < unat c" and "unat c \<le> unat (ucast (max_copy_linear_bytes gfx) :: u64)"
  shows "sdma_copy_effect gfx (copy_linear d s (ucast c)) m = copy_bytes d s (unat c) m"
proof -
  let ?b = "sdma_count_bits gfx"
  have le: "unat c \<le> 2 ^ ?b"
    using assms(2) max_copy_linear_range(2) [of gfx] by (simp add: unat_ucast_mod)
  also have "(2::nat) ^ ?b \<le> 2 ^ 30" using max_copy_linear_range(3) by (intro power_increasing) simp_all
  finally have c: "unat (ucast c :: u32) = unat c" by (simp add: unat_ucast_mod)
  have one: "unat (ucast c - 1 :: u32) = unat c - 1" using assms(1) c by (simp add: unat_sub_no_wrap)
  have "unat (take_bit ?b (ucast c - 1 :: u32)) = take_bit ?b (unat c - 1)"
    by (simp only: unsigned_take_bit_eq one)
  also have "\<dots> = unat c - 1" using le assms(1) by (simp add: take_bit_nat_eq_self)
  finally show ?thesis
    using assms(1) c
    by (simp add: sdma_copy_effect_def copy_linear_def word_less_nat_alt)
qed


lemma max_copy_linear_u64: "(ucast (max_copy_linear_bytes gfx) :: u64) \<noteq> 0"
  by (simp add: max_copy_linear_bytes_def Let_def MAX_COPY_LINEAR_30BIT_def MAX_COPY_LINEAR_22BIT_def)

lemma block_ok_builders:
  "block_ok (copy_linear d s n)" "block_ok (dma_data_copy d s n)" "block_ok (dma_data_fill d v n)"
  by (simp_all add: block_ok_def copy_linear_def dma_data_copy_def dma_data_fill_def dma_data_def)

text \<open>
  C30. A linear copy on an SDMA queue moves the range it is given. Whatever the number of bytes,
  the packets submitted copy a prefix of the range when executed in order, and the whole range
  when the call succeeds; source and destination must not overlap.
\<close>

theorem sdma_copy_complete:
  assumes "sq_copy_linear dst src n q = (r, q')" and "disjoint_ranges dst src (unat n)"
  shows "\<exists>ps k. qb_sent q' = qb_sent q @ ps \<and> k \<le> unat n \<and> (r = Inr () \<longrightarrow> k = unat n) \<and>
           (\<forall>m. fold (sdma_copy_effect (qb_gfx q)) ps m = copy_bytes dst src k m)"
proof -
  let ?mx = "ucast (max_copy_linear_bytes (qb_gfx q)) :: u64"
  let ?all = "chunk_blocks copy_linear ?mx dst src n"
  obtain j where sent: "qb_sent q' = qb_sent q @ take j ?all"
    and all: "r = Inr () \<longrightarrow> j = length ?all"
    using sink.chunk_loop_sent [where mk = copy_linear, OF block_ok_builders(1) max_copy_linear_u64
        assms(1) [unfolded sq_copy_linear_def]] by blast
  have eff: "fold (sdma_copy_effect (qb_gfx q)) (take i ?all) m = copy_bytes dst src (min (unat n) (i * unat ?mx)) m"
    for i m
    by (rule chunk_blocks_copy [OF _ max_copy_linear_u64 sdma_copy_block assms(2)]) simp_all
  define j' where "j' = (if r = Inr () then max j (unat n) else j)"
  have take: "take j' ?all = take j ?all" using all by (simp add: j'_def)
  have "unat ?mx \<noteq> 0" using max_copy_linear_u64 [of "qb_gfx q"] by (simp only: unat_eq_0 not_False_eq_True)
  then have "1 \<le> unat ?mx" by linarith
  then have "unat n * 1 \<le> unat n * unat ?mx" by (intro mult_le_mono) simp_all
  then have "unat n \<le> unat n * unat ?mx" by simp
  also have "\<dots> \<le> max j (unat n) * unat ?mx" by (intro mult_le_mono) simp_all
  finally have "r = Inr () \<longrightarrow> min (unat n) (j' * unat ?mx) = unat n" by (simp add: j'_def)
  then show ?thesis
    using sent eff [of j'] take
    by (intro exI [of _ "take j ?all"] exI [of _ "min (unat n) (j' * unat ?mx)"]) simp
qed

definition demo_sdma :: queue_base where
  "demo_sdma = \<lparr>qb_ring = \<lparr>q_type = SDMA, ring = replicate 8 0, pending_wptr = 0, write_ptr = 0, doorbell = 0\<rparr>,
     qb_gfx = 110000, qb_room = [((0, [(0, 0)]), (0, [(0, 0)]))], qb_sent = []\<rparr>"

lemma sdma_copy_complete_witness:
  "\<exists>q' ps. sq_copy_linear 0x2000 0x1000 100 demo_sdma = (Inr (), q') \<and> qb_sent q' = ps \<and>
     (\<forall>m. fold (sdma_copy_effect 110000) ps m = copy_bytes 0x2000 0x1000 100 m)"
proof -
  obtain r q' where call: "sq_copy_linear 0x2000 0x1000 100 demo_sdma = (r, q')" by fastforce
  have "fst (sq_copy_linear 0x2000 0x1000 100 demo_sdma) = Inr ()"
    unfolding sq_copy_linear_def demo_sdma_def by code_simp
  then have r: "r = Inr ()" using call by simp
  have dj: "disjoint_ranges 0x2000 0x1000 (unat (100 :: u64))"
  proof -
    have "100 \<le> unat (0x1000 + of_nat i - 0x2000 :: u64)" if "i < 100" for i
    proof -
      have "unat (of_nat i :: u64) = i" using that by (simp add: unat_of_nat)
      then have "unat (0x1000 + of_nat i :: u64) = 0x1000 + i"
        using that by (subst unat_add_no_wrap) simp_all
      then show ?thesis
        using that unat_sub_if' [of "0x1000 + of_nat i :: u64" "0x2000"] by (simp add: word_le_nat_alt)
    qed
    then show ?thesis by (simp add: disjoint_ranges_def)
  qed
  show ?thesis
    using sdma_copy_complete [OF call dj] call r by (auto simp: demo_sdma_def)
qed

section \<open>Transfers by the command processor\<close>

text \<open>
  A \<^verbatim>\<open>DMA_DATA\<close> packet as its layout comment describes it: the byte count is the low 21 bits
  of the command word on GFX9 and the low 26 bits from GFX10 on.
\<close>

definition dma_count_bits :: "u32 \<Rightarrow> nat" where
  "dma_count_bits gfx = (if gfx \<ge> GFX_VERSION_GFX10_1 then 26 else 21)"

definition dma_effect :: "u32 \<Rightarrow> u32 list \<Rightarrow> vram \<Rightarrow> vram" where
  "dma_effect gfx xs m =
     (case xs of
        [h, ctl, sl, sh, dl, dh, cmd] \<Rightarrow>
          (let n = unat (take_bit (dma_count_bits gfx) cmd)
           in if hdr_op h \<noteq> op_code DMA_DATA then m
              else if drop_bit 29 ctl AND 3 = dma_src_bits DMA_SRC_DATA then fill_bytes (join32 dl dh) sl n m
              else copy_bytes (join32 dl dh) (join32 sl sh) n m)
      | _ \<Rightarrow> m)"

lemma dma_max_bytes_pow: "dma_max_bytes gfx = push_bit (dma_count_bits gfx) 1" "dma_max_bytes gfx \<noteq> 0"
    "unat (dma_max_bytes gfx) = 2 ^ dma_count_bits gfx"
  by (simp_all add: dma_max_bytes_def dma_count_bits_def DMA_DATA_MAX_BYTES_GFX10_def DMA_DATA_MAX_BYTES_GFX9_def)

text \<open>The largest chunk needs one bit more than the field has.\<close>

lemma dma_count_field:
  assumes "c \<le> dma_max_bytes gfx"
  shows "unat (take_bit (dma_count_bits gfx) c) = (if c = dma_max_bytes gfx then 0 else unat c)"
proof -
  have u: "unat (take_bit (dma_count_bits gfx) c) = unat c mod 2 ^ dma_count_bits gfx"
    unfolding unsigned_take_bit_eq by (rule take_bit_eq_mod)
  show ?thesis
  proof (cases "c = dma_max_bytes gfx")
    case True
    then show ?thesis unfolding u by (simp only: dma_max_bytes_pow(3)) simp
  next
    case False
    then have "c < dma_max_bytes gfx" using assms by simp
    then have "unat c < 2 ^ dma_count_bits gfx"
      using dma_max_bytes_pow(3) [of gfx] by (simp only: word_less_nat_alt)
    then show ?thesis using False unfolding u by simp
  qed
qed

lemma dma_copy_block:
  "c \<le> dma_max_bytes gfx \<Longrightarrow> dma_effect gfx (dma_data_copy d s c) m =
     (if c = dma_max_bytes gfx then m else copy_bytes d s (unat c) m)"
proof -
  assume c: "c \<le> dma_max_bytes gfx"
  have ctl: "drop_bit 29 (push_bit 29 3 OR push_bit 20 3 OR push_bit 31 1 :: u32) AND 3 \<noteq> 2" by code_simp
  show ?thesis
    using ctl dma_count_field [OF c]
    by (simp add: dma_effect_def dma_data_copy_def dma_data_def Let_def)
qed

lemma dma_fill_block:
  "c \<le> dma_max_bytes gfx \<Longrightarrow> dma_effect gfx (dma_data_fill d v c) m =
     (if c = dma_max_bytes gfx then m else fill_bytes d v (unat c) m)"
proof -
  assume c: "c \<le> dma_max_bytes gfx"
  have ctl: "drop_bit 29 (push_bit 29 2 OR push_bit 20 3 OR push_bit 31 1 :: u32) AND 3 = 2" by code_simp
  have "lo32 (ucast v) = v"
    by (rule bit_word_eqI) (auto simp: lo32_def bit_simps)
  then show ?thesis
    using ctl dma_count_field [OF c]
    by (simp add: dma_effect_def dma_data_fill_def dma_data_def Let_def)
qed

text \<open>
  What a copy by the command processor moves. When a call succeeds, the packets it
  submitted, decoded by the documented layout, copy exactly the last \<open>n mod max\<close> bytes of the
  range: the whole range when \<open>n\<close> is below the chunk size, which is every transfer of one
  packet, while each full chunk is encoded with a byte count of zero and moves nothing.
\<close>

theorem dma_copy_moves_tail:
  assumes "cq_dma_copy dst src n q = (Inr (), q')"
  shows "\<exists>ps. qb_sent q' = qb_sent q @ ps \<and>
     (let tail = n mod dma_max_bytes (qb_gfx q); skipped = ucast (n - tail)
      in (n < dma_max_bytes (qb_gfx q) \<longrightarrow> tail = n \<and> skipped = 0) \<and>
         (\<forall>m. fold (dma_effect (qb_gfx q)) ps m = copy_bytes (dst + skipped) (src + skipped) (unat tail) m))"
proof -
  let ?mx = "dma_max_bytes (qb_gfx q)"
  obtain k where "qb_sent q' = qb_sent q @ take k (chunk_blocks dma_data_copy ?mx dst src n)"
    and "k = length (chunk_blocks dma_data_copy ?mx dst src n)"
    using sink.chunk_loop_sent [where mk = dma_data_copy, OF block_ok_builders(2) dma_max_bytes_pow(2)
        assms [unfolded cq_dma_copy_def]] by blast
  then have "qb_sent q' = qb_sent q @ chunk_blocks dma_data_copy ?mx dst src n" by simp
  moreover have "fold (dma_effect (qb_gfx q)) (chunk_blocks dma_data_copy ?mx dst src n) m =
      copy_bytes (dst + ucast (n - n mod ?mx)) (src + ucast (n - n mod ?mx)) (unat (n mod ?mx)) m" for m
    by (rule chunk_blocks_tail [where E = "\<lambda>d s c. copy_bytes d s (unat c)"])
      (simp_all add: dma_max_bytes_pow(2) dma_copy_block)
  ultimately show ?thesis
    by (intro exI [of _ "chunk_blocks dma_data_copy ?mx dst src n"]) (simp add: Let_def mod_word_less)
qed

lemma dma_fill_moves_tail:
  assumes "cq_dma_fill dst v n q = (Inr (), q')"
  shows "\<exists>ps. qb_sent q' = qb_sent q @ ps \<and>
     (\<forall>m. fold (dma_effect (qb_gfx q)) ps m =
        fill_bytes (dst + ucast (n - n mod dma_max_bytes (qb_gfx q))) v (unat (n mod dma_max_bytes (qb_gfx q))) m)"
proof -
  let ?mx = "dma_max_bytes (qb_gfx q)"
  let ?all = "chunk_blocks (\<lambda>d _ c. dma_data_fill d v c) ?mx dst 0 n"
  obtain k where "qb_sent q' = qb_sent q @ take k ?all" and "k = length ?all"
    using sink.chunk_loop_sent [where mk = "\<lambda>d _ c. dma_data_fill d v c", OF block_ok_builders(3)
        dma_max_bytes_pow(2) assms [unfolded cq_dma_fill_def]] by blast
  then have "qb_sent q' = qb_sent q @ ?all" by simp
  moreover have "fold (dma_effect (qb_gfx q)) ?all m =
      fill_bytes (dst + ucast (n - n mod ?mx)) v (unat (n mod ?mx)) m" for m
    by (rule chunk_blocks_tail [where E = "\<lambda>d s c. fill_bytes d v (unat c)"])
      (simp_all add: dma_max_bytes_pow(2) dma_fill_block)
  ultimately show ?thesis by blast
qed

definition demo_cq :: compute_queue where
  "demo_cq = \<lparr>qb_ring = \<lparr>q_type = COMPUTE, ring = replicate 64 0, pending_wptr = 0, write_ptr = 0, doorbell = 0\<rparr>,
     qb_gfx = 110000, qb_room = [((0, [(0, 0)]), (0, [(0, 0)]))], qb_sent = [],
     cq_eop_seq = 0x5000, cq_next_eop_seq = 0\<rparr>"

lemma dma_copy_moves_tail_witness:
  "\<exists>q' ps. cq_dma_copy 0x2000 0x1000 100 demo_cq = (Inr (), q') \<and> qb_sent q' = ps \<and>
     (\<forall>m. fold (dma_effect 110000) ps m = copy_bytes 0x2000 0x1000 100 m)"
proof -
  obtain r q' where call: "cq_dma_copy 0x2000 0x1000 100 demo_cq = (r, q')" by fastforce
  have "fst (cq_dma_copy 0x2000 0x1000 100 demo_cq) = Inr ()"
    unfolding cq_dma_copy_def demo_cq_def by code_simp
  then have call': "cq_dma_copy 0x2000 0x1000 100 demo_cq = (Inr (), q')" using call by simp
  have "(100 :: u32) < dma_max_bytes (qb_gfx demo_cq)" unfolding demo_cq_def by code_simp
  then show ?thesis
    using dma_copy_moves_tail [OF call'] call' by (auto simp: demo_cq_def Let_def)
qed

text \<open>On GFX10 the count of a full chunk is the flag that the header calls \<^verbatim>\<open>DMA_CMD_SAS\<close>.\<close>

lemma full_chunk_sets_flag:
  "dma_data_copy d s DMA_DATA_MAX_BYTES_GFX10 ! 6 = push_bit 26 1"
  "take_bit 26 (dma_data_copy d s DMA_DATA_MAX_BYTES_GFX10 ! 6) = 0"
  by (simp_all add: dma_data_copy_def dma_data_def DMA_DATA_MAX_BYTES_GFX10_def)


section \<open>Every operation submits whole packets\<close>

text \<open>The calls a client of a queue can make, and a sequence of them.\<close>

datatype compute_request =
    WriteData u64 u32 | DmaCopy u64 u64 u32 | DmaFill u64 u32 u32 | CqSignal signal
  | CqWait signal condition u32 | ReleaseMem u32 data_sel int_sel u64 u64 u32 | AcquireMem u32
  | WaitRegMem u64 condition u32 u32 | IndirectBuffer u64 u32
  | AtomicMem atomic_op u64 u64 u64 atomic_command

fun compute_do :: "compute_request \<Rightarrow> compute_queue \<Rightarrow> unit res \<times> compute_queue" where
  "compute_do (WriteData a v) q = cq_write_data a v q"
| "compute_do (DmaCopy d s n) q = cq_dma_copy d s n q"
| "compute_do (DmaFill d v n) q = cq_dma_fill d v n q"
| "compute_do (CqSignal sig) q = cq_signal sig q"
| "compute_do (CqWait sig c v) q = cq_wait sig c v q"
| "compute_do (ReleaseMem o2 ds is a v x) q = cq_release_mem o2 ds is a v x q"
| "compute_do (AcquireMem fl) q = cq_acquire_mem fl q"
| "compute_do (WaitRegMem a c v msk) q = cq_wait_reg_mem a c v msk q"
| "compute_do (IndirectBuffer a n) q = cq_indirect_buffer a n q"
| "compute_do (AtomicMem aop a sd cd cmd) q = cq_atomic_mem aop a sd cd cmd q"

datatype sdma_request =
    CopyLinear u64 u64 u64 | ConstFill u64 u32 u32 | Fence u64 u32 | FlushCaches u32
  | PollRegmem u64 condition u32 u32 | Timestamp u64 | SdmaAtomic sdma_atomic_op u64 u64 u64
  | SqSignal signal | SqWait signal condition u32

fun sdma_do :: "sdma_request \<Rightarrow> queue_base \<Rightarrow> unit res \<times> queue_base" where
  "sdma_do (CopyLinear d s n) q = sq_copy_linear d s n q"
| "sdma_do (ConstFill d v n) q = sq_const_fill d v n q"
| "sdma_do (Fence a v) q = sq_fence a v q"
| "sdma_do (FlushCaches fl) q = sq_flush_caches fl q"
| "sdma_do (PollRegmem a c v msk) q = sq_poll_regmem a c v msk q"
| "sdma_do (Timestamp a) q = sq_timestamp a q"
| "sdma_do (SdmaAtomic aop a sd cd) q = sq_atomic_mem aop a sd cd q"
| "sdma_do (SqSignal sig) q = sq_signal sig q"
| "sdma_do (SqWait sig c v) q = sq_wait sig c v q"

text \<open>What the two engines require of a block.\<close>

definition pm4_block :: "u32 list \<Rightarrow> bool" where
  "pm4_block xs \<longleftrightarrow> xs \<noteq> [] \<and> length xs \<le> 32 \<and> (\<exists>ps. emits xs ps)"

definition sdma_block :: "u32 list \<Rightarrow> bool" where
  "sdma_block xs \<longleftrightarrow> xs \<noteq> [] \<and> length xs \<le> 19 \<and> (\<exists>ps. list_all sdma_packet ps \<and> xs = concat ps)"

lemma pm4_block_ok: "pm4_block xs \<Longrightarrow> block_ok xs" and sdma_block_ok: "sdma_block xs \<Longrightarrow> block_ok xs"
  by (auto simp: pm4_block_def sdma_block_def block_ok_def)

lemma pm4_blockI: "emits xs ps \<Longrightarrow> 0 < length xs \<Longrightarrow> length xs \<le> 32 \<Longrightarrow> pm4_block xs"
  by (auto simp: pm4_block_def)

lemma acquire_mem_length: "length (acquire_mem gfx fl) = (if gfx \<ge> GFX_VERSION_GFX10_1 then 8 else 7)"
  by (simp add: acquire_mem_def Let_def)

lemma pm4_lengths:
  "length (write_data a v d p w) = 5" "length (dma_data_copy da sa n) = 7" "length (dma_data_fill da v n) = 7"
  "length (release_mem o2 ds is a v64 cid) = 8" "length (release_mem_fence gfx a v64) = 8"
  "length (release_mem_event gfx a v cid) = 8"
  "length (wait_reg_mem gfx a c v msk opt) = 7" "length (atomic_mem aop a sd cd cmd p) = 9"
  "length (indirect_buffer ib k p) = 4"
  by (simp_all add: packet_builder_defs)

lemma pm4_blocks:
  "pm4_block (write_data a v d p w)" "pm4_block (dma_data_copy da sa n)" "pm4_block (dma_data_fill da v n)"
  "pm4_block (release_mem o2 ds is a v64 cid)" "pm4_block (acquire_mem gfx fl)"
  "pm4_block (wait_reg_mem gfx a c v msk opt)" "pm4_block (atomic_mem aop a sd cd cmd p)"
  "pm4_block (indirect_buffer ib k p)" "pm4_block (cq_signal_packets gfx eop nseq sig)"
proof -
  show "pm4_block (cq_signal_packets gfx eop nseq sig)"
    unfolding cq_signal_packets_def
    by (rule pm4_blockI, (rule emits_append emits_release emits_builders)+) (simp_all add: pm4_lengths)
qed (rule pm4_blockI, rule emits_builders emits_dma emits_acquire, simp_all add: pm4_lengths acquire_mem_length)+

lemma sdma_block_packet: "sdma_packet xs \<Longrightarrow> length xs \<le> 19 \<Longrightarrow> sdma_block xs"
  by (auto simp: sdma_block_def sdma_packet_def intro!: exI [of _ "[xs]"])

lemma sdma_lengths:
  "length (copy_linear d s n) = 7" "length (sdma_fence gfx a v) = 4" "length (const_fill gfx d v n) = 5"
  "length (poll_regmem a c v msk iv rc) = 6" "length (sdma_atomic_mem aop a sd cd) = 8"
  "length (timestamp a) = 3" "length (gcr_req cntl) = 5" "length (sdma_trap ctx) = 2"
  by (simp_all add: copy_linear_def sdma_fence_def const_fill_def poll_regmem_def sdma_atomic_mem_def
      timestamp_def gcr_req_def sdma_trap_def Let_def)

lemma sdma_blocks:
  "sdma_block (copy_linear d s n)" "sdma_block (sdma_fence gfx a v)" "sdma_block (const_fill gfx d v n)"
  "sdma_block (poll_regmem a c v msk iv rc)" "sdma_block (sdma_atomic_mem aop a sd cd)"
  "sdma_block (timestamp a)" "sdma_block (gcr_req cntl)" "sdma_block (sq_signal_packets gfx sig)"
proof -
  show "sdma_block (sq_signal_packets gfx sig)"
    unfolding sdma_block_def sq_signal_packets_def
  proof (intro conjI exI [of _ "(if gfx \<ge> GFX_VERSION_GFX10_1 then [gcr_req GCR_FLUSH_ALL] else []) @
        [sdma_atomic_mem SDMA_ADD_64 (sg_fence sig) (- 1) 0,
         sdma_fence gfx (ev_slot (sg_event sig)) (ev_id (sg_event sig)), sdma_trap (ev_trigger (sg_event sig))]"])
  qed (auto simp: sdma_packets sdma_lengths simp flip: length_greater_0_conv)
qed (rule sdma_block_packet, rule sdma_packets, simp add: sdma_lengths)+

lemmas compute_op_defs =
  cq_write_data_def cq_dma_copy_def cq_dma_fill_def cq_signal_def cq_wait_def cq_release_mem_def
  cq_acquire_mem_def cq_wait_reg_mem_def cq_indirect_buffer_def cq_atomic_mem_def

lemmas sdma_op_defs =
  sq_copy_linear_def sq_const_fill_def sq_fence_def sq_flush_caches_def sq_poll_regmem_def
  sq_timestamp_def sq_atomic_mem_def sq_signal_def sq_wait_def

lemma compute_do_blocks:
  assumes "list_all pm4_block (qb_sent q)"
  shows "list_all pm4_block (qb_sent (snd (compute_do req q)))"
proof -
  note one = sink.submits_all [where P = pm4_block, OF pm4_block_ok]
  note loop = sink.chunk_loop_all [where P = pm4_block, OF pm4_block_ok]
  show ?thesis
    using assms
    by (cases req) (auto simp: compute_op_defs Let_def dma_max_bytes_pow(2) intro!: one loop pm4_blocks)
qed

lemma sdma_do_blocks:
  assumes "list_all sdma_block (qb_sent q)"
  shows "list_all sdma_block (qb_sent (snd (sdma_do req q)))"
proof -
  note one = sink.submits_all [where P = sdma_block, OF sdma_block_ok]
  note loop = sink.chunk_loop_all [where P = sdma_block, OF sdma_block_ok]
  show ?thesis
    using assms
    by (cases req) (auto simp: sdma_op_defs Let_def max_copy_linear_u64 intro!: one loop sdma_blocks)
qed



end
