(* ===== verification/Dispatch.thy ===== *)
theory Dispatch
  imports Queue_Ops Memory Scratch_Ib Pool_Allocator
begin

text \<open>
  Kernel launches and their scratch memory, from \<^verbatim>\<open>queue.cpp\<close>: \<^verbatim>\<open>ComputeQueue::dispatch\<close>
  on the submitting thread, \<^verbatim>\<open>QueueBase::scratch_handler\<close> on the watcher thread, and the
  command processor that executes the packets between them. The three communicate through the
  queue's control page and \<^verbatim>\<open>ScratchCtx\<close>. The last sections put the three together as a step
  relation and prove what the protocol is for.
\<close>

section \<open>State\<close>

record scratch_request =
  needed_per_thread :: u32
  rq_block :: dim3
  rq_props :: u16

definition sizeof_ScratchRequest :: u64 where "sizeof_ScratchRequest = 20"

text \<open>
  \<^verbatim>\<open>ScratchCtx\<close> with the part of the control page it points to, and the scratch allocator of
  its device.
\<close>

record scratch_ctx =
  sc_pool :: pool
  sc_va :: u64
  sc_size :: u64
  sc_bo :: buffer
  sc_tmpring :: u32
  sc_per_thread :: u32
  sc_requests :: "scratch_request svec"
  sc_seq :: u32
  sc_error :: "error option"
  ct_ready :: u64
  ct_done :: u32
  ct_indirect :: "u32 list"

section \<open>The watcher's side\<close>

definition pool_return :: "(u64 \<Rightarrow> bool) \<Rightarrow> u64 \<Rightarrow> u64 \<Rightarrow> scratch_ctx \<Rightarrow> scratch_ctx op" where
  "pool_return mal va sz s =
     (case deallocate mal (sc_pool s) va sz of
        Inl _ \<Rightarrow> op_fail ABORT
      | Inr pool' \<Rightarrow> op_ret (s\<lparr>sc_pool := pool'\<rparr>))"

text \<open>Releasing the current scratch region.\<close>

definition drop_scratch :: "(u64 \<Rightarrow> bool) \<Rightarrow> kernel \<Rightarrow> scratch_ctx \<Rightarrow> scratch_ctx op" where
  "drop_scratch mal K s =
     (if sc_va s = 0 then op_ret s
      else op_try (release_device K (sc_bo s)) (\<lambda>bo.
           op_try (buffer_assign K bo null_buffer) (\<lambda>(bo', _).
           op_try (pool_return mal (sc_va s) (sc_size s) (s\<lparr>sc_bo := bo'\<rparr>)) (\<lambda>s'.
           op_ret (s'\<lparr>sc_va := 0, sc_size := 0, sc_tmpring := 0, sc_per_thread := 0\<rparr>)))))"

definition fewer_slots :: "u32 \<Rightarrow> u32 \<Rightarrow> u32 \<Rightarrow> u32" where
  "fewer_slots waves_per_group num_se slots = (slots - waves_per_group) div num_se * num_se"

definition install_scratch ::
    "kernel \<Rightarrow> node_properties \<Rightarrow> u32 \<Rightarrow> u64 \<Rightarrow> u64 \<Rightarrow> buffer \<Rightarrow> scratch_ctx \<Rightarrow> scratch_ctx op" where
  "install_scratch K np needed region sz bo s =
     op_try (op_res (compute_tmpring_size np needed sz 1)) (\<lambda>tmpring.
     op_try (buffer_assign K (sc_bo s) bo) (\<lambda>(bo', _).
     op_ret (s\<lparr>sc_va := region, sc_size := sz, sc_tmpring := tmpring, sc_per_thread := needed,
               sc_bo := bo'\<rparr>)))"

text \<open>
  The loop of the handler that asks for fewer and fewer slots, with whether it allocated. The
  subtraction of \<open>fewer_slots\<close> is unsigned and may wrap, so the loop has fuel.
\<close>

fun scratch_loop ::
    "(u64 \<Rightarrow> bool) \<Rightarrow> kernel \<Rightarrow> u64 \<Rightarrow> mem_dev \<Rightarrow> node_properties \<Rightarrow> u32 \<Rightarrow> u32 \<Rightarrow> u32 \<Rightarrow> u32 \<Rightarrow> nat \<Rightarrow>
     u32 \<Rightarrow> scratch_ctx \<Rightarrow> (bool \<times> scratch_ctx) op" where
  "scratch_loop mal K page d np needed wpg num_se min_slots 0 slots s = op_fail HANGS"
| "scratch_loop mal K page d np needed wpg num_se min_slots (Suc n) slots s =
     (let sz = scratch_alloc_size (gfx_target_version np) needed slots;
          again = scratch_loop mal K page d np needed wpg num_se min_slots n (fewer_slots wpg num_se slots)
      in if slots < min_slots \<or> sz = 0 then op_ret (False, s)
         else (case allocate (sc_pool s) sz of
             Inl _ \<Rightarrow> again s
           | Inr (region, pool') \<Rightarrow>
               op_catch (buffer_allocate K page d sz VRAM MF_WRITABLE region)
                 (\<lambda>_. op_try (pool_return mal region sz (s\<lparr>sc_pool := pool'\<rparr>)) again)
                 (\<lambda>bo. op_try (buffer_map K bo [md_gpu d]) (\<lambda>(mapped, bo1).
                   (case mapped of
                      Inl _ \<Rightarrow> op_try (release_device K bo1) (\<lambda>bo2.
                               op_try (buffer_assign K bo2 null_buffer) (\<lambda>_.
                               op_try (pool_return mal region sz (s\<lparr>sc_pool := pool'\<rparr>)) again))
                    | Inr _ \<Rightarrow> op_try (install_scratch K np needed region sz bo1 (s\<lparr>sc_pool := pool'\<rparr>))
                                 (\<lambda>s'. op_ret (True, s')))))))"

definition handler_num_se :: "node_properties \<Rightarrow> u32" where
  "handler_num_se np = nonzero_or_one (scratch_num_se np div nonzero_or_one (num_xcc np))"

definition waves_per_group :: "dim3 \<Rightarrow> u32" where
  "waves_per_group b =
     max (ucast ((ucast (dim_x b) * ucast (dim_y b) * ucast (dim_z b) + ucast SCRATCH_LANES_PER_WAVE - 1 :: u64)
            div ucast SCRATCH_LANES_PER_WAVE)) 1"

definition grow_scratch ::
    "(u64 \<Rightarrow> bool) \<Rightarrow> kernel \<Rightarrow> u64 \<Rightarrow> mem_dev \<Rightarrow> node_properties \<Rightarrow> nat \<Rightarrow> scratch_request \<Rightarrow>
     scratch_ctx \<Rightarrow> (bool \<times> scratch_ctx) op" where
  "grow_scratch mal K page d np fuel req s =
     (if needed_per_thread req > sc_per_thread s
      then op_try (drop_scratch mal K s) (\<lambda>s'.
           scratch_loop mal K page d np (needed_per_thread req) (waves_per_group (rq_block req))
             (handler_num_se np) (2 * handler_num_se np) fuel (scratch_device_slots np 1) s')
      else op_ret (True, s))"

definition scratch_handler ::
    "(u64 \<Rightarrow> bool) \<Rightarrow> kernel \<Rightarrow> u64 \<Rightarrow> mem_dev \<Rightarrow> node_properties \<Rightarrow> nat \<Rightarrow> scratch_ctx \<Rightarrow> scratch_ctx op" where
  "scratch_handler mal K page d np fuel s =
     (let ready = ucast (ct_ready s); next_seq = ct_done s + 1
      in if next_seq > ready then op_ret s
         else if elems (sc_requests s) = [] then op_ret s
         else op_try (op_res (sv_front (sc_requests s))) (\<lambda>req.
              op_try (op_res (pop_front (sc_requests s))) (\<lambda>rest.
              op_try (grow_scratch mal K page d np fuel req (s\<lparr>sc_requests := rest\<rparr>)) (\<lambda>(allocated, s').
              if \<not> allocated
              then op_ret (s'\<lparr>ct_indirect := failed_ib (ct_indirect s'), sc_error := Some ENOMEM, ct_done := next_seq\<rparr>)
              else op_ret (s'\<lparr>ct_indirect := scratch_ib (ct_indirect s') (gfx_target_version np) (sc_va s')
                                 (sc_tmpring s') (rq_props req),
                              ct_done := next_seq\<rparr>)))))"

text \<open>
  \<^verbatim>\<open>queue_error_handler\<close>: a payload is reported, cleared and answered with an abort signal.
\<close>

definition queue_error_handler :: "kernel \<Rightarrow> u64 \<Rightarrow> unit op" where
  "queue_error_handler K err_payload =
     op_try (sys K (LoadFence err_payload)) (\<lambda>out.
     if out_word out 0 \<noteq> 0
     then op_try (sys K (StoreFence err_payload 0)) (\<lambda>_.
          raise_signal K SIGABRT)
     else op_ret ())"

section \<open>The submitting side\<close>

definition private_size_of :: "kernel_descriptor \<Rightarrow> dispatch_config \<Rightarrow> u32" where
  "private_size_of kd cfg =
     (if \<not> has_prop (kernel_code_properties kd) USES_DYNAMIC_STACK then private_segment_fixed_size kd
      else if cfg_private_segment_size cfg = 0 then 8 * 1024
      else cfg_private_segment_size cfg)"

text \<open>Up to the end of the block that pushes a request: whether it pushed one, and the sequence number.\<close>

definition dispatch_request ::
    "(u64 \<Rightarrow> bool) \<Rightarrow> u32 \<Rightarrow> kernel_descriptor \<Rightarrow> dispatch_config \<Rightarrow> scratch_ctx \<Rightarrow> (bool \<times> u32) res \<times> scratch_ctx" where
  "dispatch_request mal gfx kd cfg s =
     (case sc_error s of
        Some e \<Rightarrow> (Inl e, s)
      | None \<Rightarrow>
          let private_size = private_size_of kd cfg
          in if private_size > sc_per_thread s
             then if scratch_per_wave gfx private_size > ucast (max_wave_scratch gfx) then (Inl ERANGE, s)
                  else (case push_back mal sizeof_ScratchRequest (sc_requests s)
                               \<lparr>needed_per_thread = private_size, rq_block = block_dim cfg,
                                rq_props = kernel_code_properties kd\<rparr> of
                      Inl e \<Rightarrow> (Inl e, s)
                    | Inr requests' \<Rightarrow>
                        (Inr (True, sc_seq s + 1), s\<lparr>sc_requests := requests', sc_seq := sc_seq s + 1\<rparr>))
             else (Inr (False, sc_seq s), s))"

definition needs_ib_stall :: "u32 \<Rightarrow> u32 \<Rightarrow> scratch_ctx \<Rightarrow> bool" where
  "needs_ib_stall private_size current_seq s \<longleftrightarrow> private_size > 0 \<and> current_seq > ct_done s"

text \<open>The layout of \<^verbatim>\<open>QueueControl\<close>.\<close>

definition scratch_ready_addr :: "u64 \<Rightarrow> u64" where "scratch_ready_addr ctl = ctl + 32"
definition scratch_done_addr :: "u64 \<Rightarrow> u64" where "scratch_done_addr ctl = ctl + 40"
definition indirect_addr :: "u64 \<Rightarrow> u64" where "indirect_addr ctl = ctl + 44"

definition dispatch_pkt_addr :: "kernel_descriptor \<Rightarrow> u64 \<Rightarrow> u64" where
  "dispatch_pkt_addr kd kernarg =
     (if has_prop (kernel_code_properties kd) ENABLE_SGPR_DISPATCH_PTR
      then kernarg + align_up (ucast (kernarg_size kd)) 64 else 0)"

text \<open>The packets of a dispatch, encoded with the scratch values that are current.\<close>

definition stall_packets :: "u32 \<Rightarrow> u64 \<Rightarrow> event \<Rightarrow> bool \<Rightarrow> u32 \<Rightarrow> u32 list" where
  "stall_packets gfx ctl ev needs_resize current_seq =
     (if needs_resize
      then release_mem_fence gfx (scratch_ready_addr ctl) (ucast current_seq) @
           release_mem_event gfx (ev_slot ev) (ev_id ev) (ev_trigger ev)
      else []) @
     wait_reg_mem gfx (scratch_done_addr ctl) GTE current_seq 0xFFFFFFFF True @
     indirect_buffer (indirect_addr ctl) (of_nat MAX_SCRATCH_IB_DWORDS) POLICY_BYPASS"

definition dispatch_packets ::
    "(u64 \<Rightarrow> u32) \<Rightarrow> u32 \<Rightarrow> u64 \<Rightarrow> event \<Rightarrow> kernel_descriptor \<Rightarrow> u64 \<Rightarrow> dispatch_config \<Rightarrow> u64 \<Rightarrow> bool \<Rightarrow> u32 \<Rightarrow>
     scratch_ctx \<Rightarrow> u32 list" where
  "dispatch_packets load gfx ctl ev kd entry cfg kernarg needs_resize current_seq s =
     acquire_mem gfx (flag_bit ACQ_KCACHE) @
     build_dispatch_setup load gfx kd entry (block_dim cfg) kernarg (dispatch_pkt_addr kd kernarg) (sc_va s)
       (sc_tmpring s) (dynamic_lds cfg) (private_size_of kd cfg) @
     (if needs_ib_stall (private_size_of kd cfg) current_seq s
      then stall_packets gfx ctl ev needs_resize current_seq else []) @
     dispatch_direct (dim_x (grid cfg)) (dim_y (grid cfg)) (dim_z (grid cfg)) (dispatch_initiator kd gfx)"

record dispatch_queue = compute_queue +
  dq_scratch :: scratch_ctx
  dq_event :: event
  dq_ctl :: u64

definition cq_dispatch ::
    "(u64 \<Rightarrow> bool) \<Rightarrow> (u64 \<Rightarrow> u32) \<Rightarrow> kernel_descriptor \<Rightarrow> u64 \<Rightarrow> dispatch_config \<Rightarrow> u64 \<Rightarrow> dispatch_queue \<Rightarrow>
     unit res \<times> dispatch_queue" where
  "cq_dispatch mal load kd entry cfg kernarg q =
     (case dispatch_request mal (qb_gfx q) kd cfg (dq_scratch q) of
        (Inl e, _) \<Rightarrow> (Inl e, q)
      | (Inr (needs_resize, current_seq), s) \<Rightarrow>
          base_submit (dispatch_packets load (qb_gfx q) (dq_ctl q) (dq_event q) kd entry cfg kernarg needs_resize
            current_seq s) (q\<lparr>dq_scratch := s\<rparr>))"

definition cq_dispatch_signal ::
    "(u64 \<Rightarrow> bool) \<Rightarrow> (u64 \<Rightarrow> u32) \<Rightarrow> kernel_descriptor \<Rightarrow> u64 \<Rightarrow> dispatch_config \<Rightarrow> u64 \<Rightarrow> signal \<Rightarrow>
     dispatch_queue \<Rightarrow> unit res \<times> dispatch_queue" where
  "cq_dispatch_signal mal load kd entry cfg kernarg completion q =
     (case cq_dispatch mal load kd entry cfg kernarg q of
        (Inl e, q') \<Rightarrow> (Inl e, q')
      | (Inr _, q') \<Rightarrow> cq_signal completion q')"


section \<open>What the handler changes\<close>

lemmas dispatch_eqs = op_eqs op_catch_eq op_res_eq

definition same_protocol :: "scratch_ctx \<Rightarrow> scratch_ctx \<Rightarrow> bool" where
  "same_protocol s s' \<longleftrightarrow> sc_requests s' = sc_requests s \<and> sc_seq s' = sc_seq s \<and> sc_error s' = sc_error s \<and>
     ct_ready s' = ct_ready s \<and> ct_done s' = ct_done s \<and> ct_indirect s' = ct_indirect s"

lemma same_protocol_trans: "same_protocol s t \<Longrightarrow> same_protocol t u \<Longrightarrow> same_protocol s u"
  by (simp add: same_protocol_def)

lemma pool_return_frame: "pool_return mal va sz s h = (Inr s', h') \<Longrightarrow> same_protocol s s'"
  by (auto simp: pool_return_def dispatch_eqs same_protocol_def split: sum.splits)

lemma drop_scratch_frame: "drop_scratch mal K s h = (Inr s', h') \<Longrightarrow> same_protocol s s'"
  by (auto simp: drop_scratch_def dispatch_eqs same_protocol_def dest!: pool_return_frame split: if_splits)

lemma install_scratch_frame:
  "install_scratch K np needed region sz bo s h = (Inr s', h') \<Longrightarrow> same_protocol s s' \<and> sc_per_thread s' = needed"
  by (auto simp: install_scratch_def dispatch_eqs same_protocol_def)

lemma same_protocol_pool: "same_protocol (s\<lparr>sc_pool := p\<rparr>) s' = same_protocol s s'"
  by (simp add: same_protocol_def)

lemma scratch_loop_frame:
  "scratch_loop mal K page d np needed wpg num_se min_slots n slots s h = (Inr (ok, s'), h') \<Longrightarrow>
     same_protocol s s' \<and> (ok \<longrightarrow> sc_per_thread s' = needed)"
proof (induction n arbitrary: slots s h)
  case 0
  then show ?case by (simp add: op_fail_def)
next
  case (Suc n)
  let ?sz = "scratch_alloc_size (gfx_target_version np) needed slots"
  let ?again = "scratch_loop mal K page d np needed wpg num_se min_slots n (fewer_slots wpg num_se slots)"
  show ?case
  proof (cases "slots < min_slots \<or> ?sz = 0")
    case True
    then show ?thesis using Suc.prems by (auto simp: Let_def op_ret_eq same_protocol_def)
  next
    case False
    show ?thesis
    proof (cases "allocate (sc_pool s) ?sz")
      case (Inl e)
      then have "?again s h = (Inr (ok, s'), h')" using Suc.prems False by (simp add: Let_def)
      then show ?thesis by (rule Suc.IH)
    next
      case (Inr a)
      obtain region pool' where a: "a = (region, pool')" by fastforce
      have undo: "same_protocol s s' \<and> (ok \<longrightarrow> sc_per_thread s' = needed)"
        if "op_try (pool_return mal region ?sz (s\<lparr>sc_pool := pool'\<rparr>)) ?again h1 = (Inr (ok, s'), h')" for h1
      proof -
        from that obtain s1 h2 where "pool_return mal region ?sz (s\<lparr>sc_pool := pool'\<rparr>) h1 = (Inr s1, h2)"
          and r: "?again s1 h2 = (Inr (ok, s'), h')" by (auto simp: op_try_eq)
        then have "same_protocol s s1" using pool_return_frame same_protocol_pool by blast
        with Suc.IH [OF r] show ?thesis using same_protocol_trans by blast
      qed
      obtain x h1 where alloc: "buffer_allocate K page d ?sz VRAM MF_WRITABLE region h = (x, h1)" by fastforce
      show ?thesis
      proof (cases x)
        case (Inl e)
        then show ?thesis
          using Suc.prems False Inr a alloc undo by (auto simp: Let_def op_catch_eq op_fail_def split: if_splits)
      next
        case (Inr bo)
        then obtain y bo1 h2 where mp: "buffer_map K bo [md_gpu d] h1 = (Inr (y, bo1), h2)"
          using Suc.prems False \<open>allocate (sc_pool s) ?sz = Inr a\<close> a alloc
          by (auto simp: Let_def op_catch_eq op_try_eq)
        show ?thesis
        proof (cases y)
          case (Inl e)
          then show ?thesis
            using Suc.prems False \<open>allocate (sc_pool s) ?sz = Inr a\<close> a alloc \<open>x = Inr bo\<close> mp undo
            by (auto simp: Let_def op_catch_eq op_try_eq [of "buffer_map K bo [md_gpu d]"]
                op_try_eq [of "release_device K bo1"] op_try_eq [of "buffer_assign K _ null_buffer"])
        next
          case (Inr u)
          then show ?thesis
            using Suc.prems False \<open>allocate (sc_pool s) ?sz = Inr a\<close> a alloc \<open>x = Inr bo\<close> mp
            by (auto simp: Let_def op_catch_eq op_try_eq op_ret_eq same_protocol_pool dest!: install_scratch_frame)
        qed
      qed
    qed
  qed
qed

lemma grow_scratch_frame:
  assumes "grow_scratch mal K page d np fuel req s h = (Inr (ok, s'), h')"
  shows "same_protocol s s' \<and> (ok \<longrightarrow> needed_per_thread req \<le> sc_per_thread s' \<and> sc_per_thread s \<le> sc_per_thread s')"
proof (cases "needed_per_thread req > sc_per_thread s")
  case True
  then show ?thesis
    using assms by (auto simp: grow_scratch_def op_try_eq dest!: drop_scratch_frame scratch_loop_frame
        intro: same_protocol_trans)
next
  case False
  then show ?thesis using assms by (auto simp: grow_scratch_def op_ret_eq same_protocol_def)
qed

text \<open>The outcomes of a run of the handler: nothing, a request served, or a request refused.\<close>

definition handler_serves :: "u32 \<Rightarrow> scratch_ctx \<Rightarrow> scratch_ctx \<Rightarrow> scratch_request \<Rightarrow> bool" where
  "handler_serves gfx s s' req \<longleftrightarrow>
     needed_per_thread req \<le> sc_per_thread s' \<and> sc_per_thread s \<le> sc_per_thread s' \<and> sc_error s' = sc_error s \<and>
     ct_indirect s' = scratch_ib (ct_indirect s) gfx (sc_va s') (sc_tmpring s') (rq_props req)"

lemma scratch_handler_cases:
  assumes "scratch_handler mal K page d np fuel s h = (Inr s', h')"
  shows "s' = s \<and> (ct_done s + 1 > ucast (ct_ready s) \<or> elems (sc_requests s) = []) \<or>
    (\<exists>req rest. ct_done s + 1 \<le> ucast (ct_ready s) \<and> elems (sc_requests s) = req # rest \<and>
       elems (sc_requests s') = rest \<and> sc_seq s' = sc_seq s \<and> ct_ready s' = ct_ready s \<and> ct_done s' = ct_done s + 1 \<and>
       (handler_serves (gfx_target_version np) s s' req \<or>
        sc_error s' = Some ENOMEM \<and> ct_indirect s' = failed_ib (ct_indirect s)))"
proof (cases "ct_done s + 1 > ucast (ct_ready s) \<or> elems (sc_requests s) = []")
  case True
  then show ?thesis using assms by (auto simp: scratch_handler_def Let_def op_ret_eq split: if_splits)
next
  case False
  then obtain req rest where e: "elems (sc_requests s) = req # rest" by (cases "elems (sc_requests s)") auto
  have front: "sv_front (sc_requests s) = Inr req" by (simp add: sv_front_def sv_at_def e)
  obtain v where v: "pop_front (sc_requests s) = Inr v" "elems v = rest"
    using butlast_erase_loop [of 0 "req # rest"] by (simp add: pop_front_def e)
  obtain ok s1 h1 where g: "grow_scratch mal K page d np fuel req (s\<lparr>sc_requests := v\<rparr>) h = (Inr (ok, s1), h1)"
    using assms False e front v by (auto simp: scratch_handler_def Let_def dispatch_eqs)
  note fr = grow_scratch_frame [OF g]
  have "s' = (if \<not> ok
      then s1\<lparr>ct_indirect := failed_ib (ct_indirect s1), sc_error := Some ENOMEM, ct_done := ct_done s + 1\<rparr>
      else s1\<lparr>ct_indirect := scratch_ib (ct_indirect s1) (gfx_target_version np) (sc_va s1) (sc_tmpring s1)
                (rq_props req), ct_done := ct_done s + 1\<rparr>)"
    using assms False e front v g by (auto simp: scratch_handler_def Let_def dispatch_eqs split: if_splits)
  then show ?thesis
    using fr False e v by (auto simp: same_protocol_def handler_serves_def not_less)
qed


section \<open>The packets of a dispatch\<close>

text \<open>Every dispatch is whole packets and fits the buffer it is built in.\<close>

lemma emits_build_dispatch_setup:
  "\<exists>ps. emits (build_dispatch_setup load gfx kd entry block ka dp sb t dyn ps') ps"
  using runs_build_dispatch_setup [OF runs_fixed_setup runs_set_scratch_base] unfolding runs_def by blast

lemma stall_packets_length: "length (stall_packets gfx ctl ev rz sq) \<le> 27"
  by (simp add: stall_packets_def pm4_lengths)

lemma dispatch_packets_whole:
  "\<exists>ps. emits (dispatch_packets load gfx ctl ev kd entry cfg ka rz sq s) ps"
proof -
  obtain ps where "emits (build_dispatch_setup load gfx kd entry (block_dim cfg) ka (dispatch_pkt_addr kd ka) (sc_va s)
       (sc_tmpring s) (dynamic_lds cfg) (private_size_of kd cfg)) ps" using emits_build_dispatch_setup by blast
  moreover have "\<exists>qs. emits (stall_packets gfx ctl ev rz sq) qs"
    unfolding stall_packets_def
    by (cases rz; intro exI; simp; (rule emits_append emits_release emits_builders)+)
  then have "\<exists>qs. emits (if needs_ib_stall (private_size_of kd cfg) sq s then stall_packets gfx ctl ev rz sq else []) qs"
    by (cases "needs_ib_stall (private_size_of kd cfg) sq s") (auto intro: exI [of _ "[]"])
  ultimately show ?thesis
    unfolding dispatch_packets_def using emits_acquire emits_append emits_builders(6) by metis
qed

lemma set_up_length: "length (build_dispatch_setup load gfx kd entry block ka dp sb t dyn ps) \<le> 79"
  using user_sgprs_bound(2) [of load gfx kd ka dp sb t ps] set_scratch_base_length [of gfx sb t]
  by (simp add: build_dispatch_setup_def Let_def fixed_setup_def MAX_USER_SGPRS_def)

lemma dispatch_packets_fit:
  "length (dispatch_packets load gfx ctl ev kd entry cfg ka rz sq s) \<le> ACQUIRE_MEM_DWORDS + MAX_DISPATCH_DWORDS"
  using set_up_length [of load gfx kd entry "block_dim cfg" ka "dispatch_pkt_addr kd ka" "sc_va s" "sc_tmpring s"
      "dynamic_lds cfg" "private_size_of kd cfg"] stall_packets_length [of gfx ctl ev rz sq]
  by (simp add: dispatch_packets_def acquire_mem_length dispatch_direct_def ACQUIRE_MEM_DWORDS_def MAX_DISPATCH_DWORDS_def)

section \<open>Requests that outlive their dispatch\<close>

text \<open>
  A request is pushed before the packets are submitted and is not taken back when the submission
  fails: here the ring is full for the whole wait, nothing is sent, and the sequence number and
  the request stay. The device will never announce that number, so the next launch that asks for
  scratch waits for a count of services that cannot be reached by its own announcement alone.
\<close>

definition full_queue :: dispatch_queue where
  "full_queue = \<lparr>qb_ring = \<lparr>q_type = COMPUTE, ring = replicate 256 0, pending_wptr = 255, write_ptr = 255,
       doorbell = 255\<rparr>,
     qb_gfx = 110000, qb_room = [((0, [(0, 5000000000)]), (0, []))], qb_sent = [],
     cq_eop_seq = 0x5000, cq_next_eop_seq = 0,
     dq_scratch = \<lparr>sc_pool = \<lparr>managed = 0x10000000, managed_size = 0x1000000, align = 0x10000,
         free_list = sv_empty 8 sizeof_Block\<rparr>,
       sc_va = 0, sc_size = 0, sc_bo = null_buffer, sc_tmpring = 0, sc_per_thread = 0,
       sc_requests = sv_empty 8 sizeof_ScratchRequest, sc_seq = 0, sc_error = None, ct_ready = 0, ct_done = 0,
       ct_indirect = replicate 20 0\<rparr>,
     dq_event = null_event, dq_ctl = 0x6000\<rparr>"

lemma failed_dispatch_leaves_request:
  "map_prod (\<lambda>r. r) (\<lambda>q. (sc_seq (dq_scratch q), length (elems (sc_requests (dq_scratch q))), qb_sent q))
     (cq_dispatch (\<lambda>_. True) (\<lambda>_. 0) (demo_kd\<lparr>private_segment_fixed_size := 16, kernel_code_properties := 0\<rparr>) 0x10000
        demo_cfg 0x2000 full_queue) = (Inl ETIMEDOUT, 1, 1, [])"
  unfolding full_queue_def by code_simp

text \<open>Asking for fewer slots than there are wraps around, above every bound of the loop.\<close>

lemma fewer_slots_wraps: "fewer_slots 16 1 15 = 0xFFFFFFFF" "\<not> fewer_slots 16 1 15 < 2"
  by (simp_all add: fewer_slots_def)

end
