(* ===== verification/Scratch_Protocol.thy ===== *)
theory Scratch_Protocol
  imports Dispatch
begin

text \<open>
  Submitting thread, watcher and command processor put together. A launch is what a dispatch
  leaves in the ring: the decisions it took and the scratch values its packets were encoded
  with. The command processor executes launches in order; \<^verbatim>\<open>RELEASE_MEM\<close> is an end-of-pipe
  event, so a launch announces its request only when no earlier launch is running.
\<close>

section \<open>The three parties\<close>

record launch =
  la_private :: u32
  la_props :: u16
  la_resize :: bool
  la_seq :: u32
  la_stall :: bool
  la_va :: u64
  la_tmpring :: u32

record protocol =
  pr_ctx :: scratch_ctx
  pr_mid :: "launch option"
  pr_stream :: "launch list"
  pr_announced :: bool
  pr_running :: "launch list"

definition new_launch :: "kernel_descriptor \<Rightarrow> dispatch_config \<Rightarrow> bool \<Rightarrow> u32 \<Rightarrow> launch" where
  "new_launch kd cfg needs_resize current_seq =
     \<lparr>la_private = private_size_of kd cfg, la_props = kernel_code_properties kd, la_resize = needs_resize,
      la_seq = current_seq, la_stall = False, la_va = 0, la_tmpring = 0\<rparr>"

definition encode_launch :: "scratch_ctx \<Rightarrow> launch \<Rightarrow> launch" where
  "encode_launch s la =
     la\<lparr>la_stall := needs_ib_stall (la_private la) (la_seq la) s, la_va := sc_va s, la_tmpring := sc_tmpring s\<rparr>"

text \<open>The indirect buffer replaces the scratch values of a launch that stalled.\<close>

definition start_launch :: "scratch_ctx \<Rightarrow> launch \<Rightarrow> launch" where
  "start_launch s la = (if la_stall la then la\<lparr>la_va := sc_va s, la_tmpring := sc_tmpring s\<rparr> else la)"

text \<open>
  The steps. A dispatch takes its locks twice, so the other parties may act between its request
  and its submission. The sequence numbers are those of a queue that has made fewer than
  \<open>2 ^ 32\<close> requests, and submissions succeed once a request is pushed.
\<close>

inductive protocol_step ::
    "(u64 \<Rightarrow> bool) \<Rightarrow> kernel \<Rightarrow> u64 \<Rightarrow> mem_dev \<Rightarrow> node_properties \<Rightarrow> protocol \<Rightarrow> protocol \<Rightarrow> bool"
  for mal :: "u64 \<Rightarrow> bool" and K :: kernel and page :: u64 and d :: mem_dev and np :: node_properties where
  step_request: "pr_mid S = None \<Longrightarrow> sc_seq (pr_ctx S) \<noteq> - 1 \<Longrightarrow>
     dispatch_request mal (gfx_target_version np) kd cfg (pr_ctx S) = (Inr (needs_resize, current_seq), s') \<Longrightarrow>
     protocol_step mal K page d np S
       (S\<lparr>pr_ctx := s', pr_mid := Some (new_launch kd cfg needs_resize current_seq)\<rparr>)"
| step_submit: "pr_mid S = Some la \<Longrightarrow>
     protocol_step mal K page d np S
       (S\<lparr>pr_mid := None, pr_stream := pr_stream S @ [encode_launch (pr_ctx S) la]\<rparr>)"
| step_announce: "pr_stream S = la # rest \<Longrightarrow> la_stall la \<Longrightarrow> la_resize la \<Longrightarrow> \<not> pr_announced S \<Longrightarrow>
     pr_running S = [] \<Longrightarrow>
     protocol_step mal K page d np S
       (S\<lparr>pr_ctx := (pr_ctx S)\<lparr>ct_ready := ucast (la_seq la)\<rparr>, pr_announced := True\<rparr>)"
| step_watch: "scratch_handler mal K page d np fuel (pr_ctx S) h = (Inr s', h') \<Longrightarrow>
     protocol_step mal K page d np S (S\<lparr>pr_ctx := s'\<rparr>)"
| step_start: "pr_stream S = la # rest \<Longrightarrow> (la_stall la \<and> la_resize la \<longrightarrow> pr_announced S) \<Longrightarrow>
     (la_stall la \<longrightarrow> la_seq la \<le> ct_done (pr_ctx S)) \<Longrightarrow>
     protocol_step mal K page d np S
       (S\<lparr>pr_stream := rest, pr_announced := False, pr_running := pr_running S @ [start_launch (pr_ctx S) la]\<rparr>)"
| step_finish: "pr_running S = xs @ la # ys \<Longrightarrow>
     protocol_step mal K page d np S (S\<lparr>pr_running := xs @ ys\<rparr>)"

definition protocol_start :: "pool \<Rightarrow> protocol" where
  "protocol_start p =
     \<lparr>pr_ctx = \<lparr>sc_pool = p, sc_va = 0, sc_size = 0, sc_bo = null_buffer, sc_tmpring = 0, sc_per_thread = 0,
         sc_requests = sv_empty 8 sizeof_ScratchRequest, sc_seq = 0, sc_error = None, ct_ready = 0, ct_done = 0,
         ct_indirect = replicate 20 0\<rparr>,
      pr_mid = None, pr_stream = [], pr_announced = False, pr_running = []\<rparr>"

section \<open>The invariant\<close>

definition all_launches :: "protocol \<Rightarrow> launch list" where
  "all_launches S = pr_stream S @ (case pr_mid S of None \<Rightarrow> [] | Some la \<Rightarrow> [la])"

definition resizes :: "protocol \<Rightarrow> launch list" where
  "resizes S = filter la_resize (all_launches S)"

text \<open>
  The counters: the launches that asked for scratch and have not started carry the sequence
  numbers after \<open>a\<close>, in order; the watcher has served all up to \<open>a\<close>, and one more when the
  head of the stream has announced itself; what it has not served is queued.
\<close>

definition counts_ok :: "nat \<Rightarrow> protocol \<Rightarrow> bool" where
  "counts_ok a S \<longleftrightarrow>
     a \<le> unat (sc_seq (pr_ctx S)) \<and>
     map (unat \<circ> la_seq) (resizes S) = [Suc a..<Suc (unat (sc_seq (pr_ctx S)))] \<and>
     unat (ct_ready (pr_ctx S)) = (if pr_announced S then Suc a else a) \<and>
     (unat (ct_done (pr_ctx S)) = a \<or> unat (ct_done (pr_ctx S)) = Suc a \<and> pr_announced S) \<and>
     (pr_announced S \<longrightarrow> pr_running S = [] \<and> (\<exists>la rest. pr_stream S = la # rest \<and> la_resize la)) \<and>
     map (\<lambda>r. (needed_per_thread r, rq_props r)) (elems (sc_requests (pr_ctx S))) =
       map (\<lambda>la. (la_private la, la_props la)) (drop (unat (ct_done (pr_ctx S)) - a) (resizes S)) \<and>
     (\<forall>la\<in>set (resizes S). 0 < la_private la) \<and>
     (\<forall>la\<in>set (pr_stream S). la_resize la \<longrightarrow> la_stall la) \<and>
     (\<forall>la. pr_mid S = Some la \<longrightarrow> la_seq la = sc_seq (pr_ctx S)) \<and>
     length (ct_indirect (pr_ctx S)) = MAX_SCRATCH_IB_DWORDS"

definition uses_current :: "scratch_ctx \<Rightarrow> launch \<Rightarrow> bool" where
  "uses_current s la \<longleftrightarrow>
     la_private la = 0 \<or> la_va la = sc_va s \<and> la_tmpring la = sc_tmpring s \<and> la_private la \<le> sc_per_thread s"

definition scratch_ok :: "u32 \<Rightarrow> nat \<Rightarrow> protocol \<Rightarrow> bool" where
  "scratch_ok gfx a S \<longleftrightarrow> sc_error (pr_ctx S) = None \<longrightarrow>
     (\<forall>la\<in>set (all_launches S). \<not> la_resize la \<longrightarrow> la_private la \<le> sc_per_thread (pr_ctx S)) \<and>
     (unat (ct_done (pr_ctx S)) = Suc a \<longrightarrow>
        la_private (hd (pr_stream S)) \<le> sc_per_thread (pr_ctx S) \<and>
        (\<exists>ib. length ib = MAX_SCRATCH_IB_DWORDS \<and> ct_indirect (pr_ctx S) =
           scratch_ib ib gfx (sc_va (pr_ctx S)) (sc_tmpring (pr_ctx S)) (la_props (hd (pr_stream S))))) \<and>
     (\<forall>pre la post. pr_stream S = pre @ la # post \<longrightarrow> \<not> la_stall la \<longrightarrow> 0 < la_private la \<longrightarrow>
        uses_current (pr_ctx S) la \<and> length (filter la_resize pre) \<le> unat (ct_done (pr_ctx S)) - a) \<and>
     (\<forall>la\<in>set (pr_running S). uses_current (pr_ctx S) la)"

lemma length_resizes: "counts_ok a S \<Longrightarrow> length (resizes S) = unat (sc_seq (pr_ctx S)) - a"
proof -
  assume "counts_ok a S"
  then have "length (map (unat \<circ> la_seq) (resizes S)) = length [Suc a..<Suc (unat (sc_seq (pr_ctx S)))]"
    by (simp only: counts_ok_def)
  then show ?thesis unfolding length_map length_upt by simp
qed

lemma counts_okD:
  assumes "counts_ok a S"
  shows "a \<le> unat (sc_seq (pr_ctx S))"
    and "map (unat \<circ> la_seq) (resizes S) = [Suc a..<Suc (unat (sc_seq (pr_ctx S)))]"
    and "unat (ct_ready (pr_ctx S)) = (if pr_announced S then Suc a else a)"
    and "unat (ct_done (pr_ctx S)) = a \<or> unat (ct_done (pr_ctx S)) = Suc a \<and> pr_announced S"
    and "pr_announced S \<Longrightarrow> pr_running S = [] \<and> (\<exists>la rest. pr_stream S = la # rest \<and> la_resize la)"
    and "map (\<lambda>r. (needed_per_thread r, rq_props r)) (elems (sc_requests (pr_ctx S))) =
       map (\<lambda>la. (la_private la, la_props la)) (drop (unat (ct_done (pr_ctx S)) - a) (resizes S))"
    and "\<forall>la\<in>set (resizes S). 0 < la_private la"
    and "\<forall>la\<in>set (pr_stream S). la_resize la \<longrightarrow> la_stall la"
    and "pr_mid S = Some la \<Longrightarrow> la_seq la = sc_seq (pr_ctx S)"
    and "length (ct_indirect (pr_ctx S)) = MAX_SCRATCH_IB_DWORDS"
  using assms unfolding counts_ok_def by blast+

lemma scratch_okD:
  assumes "scratch_ok gfx a S" and "sc_error (pr_ctx S) = None"
  shows "\<forall>la\<in>set (all_launches S). \<not> la_resize la \<longrightarrow> la_private la \<le> sc_per_thread (pr_ctx S)"
    and "unat (ct_done (pr_ctx S)) = Suc a \<Longrightarrow> la_private (hd (pr_stream S)) \<le> sc_per_thread (pr_ctx S)"
    and "unat (ct_done (pr_ctx S)) = Suc a \<Longrightarrow>
        \<exists>ib. length ib = MAX_SCRATCH_IB_DWORDS \<and> ct_indirect (pr_ctx S) =
           scratch_ib ib gfx (sc_va (pr_ctx S)) (sc_tmpring (pr_ctx S)) (la_props (hd (pr_stream S)))"
    and "pr_stream S = pre @ la # post \<Longrightarrow> \<not> la_stall la \<Longrightarrow> 0 < la_private la \<Longrightarrow>
        uses_current (pr_ctx S) la \<and> length (filter la_resize pre) \<le> unat (ct_done (pr_ctx S)) - a"
    and "\<forall>la\<in>set (pr_running S). uses_current (pr_ctx S) la"
  using assms unfolding scratch_ok_def by blast+

lemma start_ok: "counts_ok 0 (protocol_start p)" "scratch_ok gfx 0 (protocol_start p)"
  by (simp_all add: counts_ok_def scratch_ok_def protocol_start_def resizes_def all_launches_def sv_empty_def
      MAX_SCRATCH_IB_DWORDS_def)


section \<open>Every step keeps it\<close>

lemma push_back_elems: "push_back mal sz v x = Inr v' \<Longrightarrow> elems v' = elems v @ [x]"
  by (auto simp: push_back_def grow_def construct_back_def Let_def res_simps split: if_splits)

lemma dispatch_request_cases:
  assumes "dispatch_request mal gfx kd cfg s = (Inr (rz, sq), s')"
  shows "sc_error s = None \<and> sq = sc_seq s' \<and>
     (\<not> rz \<and> s' = s \<and> private_size_of kd cfg \<le> sc_per_thread s \<or>
      rz \<and> private_size_of kd cfg > sc_per_thread s \<and>
      (\<exists>v. elems v = elems (sc_requests s) @ [\<lparr>needed_per_thread = private_size_of kd cfg, rq_block = block_dim cfg,
                 rq_props = kernel_code_properties kd\<rparr>] \<and>
           s' = s\<lparr>sc_requests := v, sc_seq := sc_seq s + 1\<rparr>))"
proof -
  let ?n = "private_size_of kd cfg"
  let ?req = "\<lparr>needed_per_thread = ?n, rq_block = block_dim cfg, rq_props = kernel_code_properties kd\<rparr>"
  have e: "sc_error s = None" using assms by (cases "sc_error s") (simp_all add: dispatch_request_def)
  show ?thesis
  proof (cases "?n > sc_per_thread s")
    case True
    then obtain v where v: "push_back mal sizeof_ScratchRequest (sc_requests s) ?req = Inr v"
      using assms e by (cases "push_back mal sizeof_ScratchRequest (sc_requests s) ?req")
        (simp_all add: dispatch_request_def Let_def split: if_splits)
    then have "rz" "sq = sc_seq s + 1" "s' = s\<lparr>sc_requests := v, sc_seq := sc_seq s + 1\<rparr>"
      using assms e True by (auto simp: dispatch_request_def Let_def split: if_splits)
    then show ?thesis using e True push_back_elems [OF v] by auto
  next
    case False
    then have "(Inr (False, sc_seq s), s) = (Inr (rz, sq) :: (bool \<times> u32) res, s')"
      using assms by (simp only: dispatch_request_def Let_def e False if_False option.case)
    then have "\<not> rz" "sq = sc_seq s" "s' = s" by auto
    then show ?thesis using e False by (simp add: not_less)
  qed
qed

lemma unat_Suc_word: "(w :: u32) \<noteq> - 1 \<Longrightarrow> unat (w + 1) = Suc (unat w)"
  using eq_neg_iff_add_eq_0 [of w 1] unatSuc [of w] by (simp add: add.commute)

lemma request_keeps:
  assumes c: "counts_ok a S" and k: "scratch_ok gfx a S" and mid: "pr_mid S = None" and nw: "sc_seq (pr_ctx S) \<noteq> - 1"
    and r: "dispatch_request mal gfx kd cfg (pr_ctx S) = (Inr (rz, sq), s')"
  shows "counts_ok a (S\<lparr>pr_ctx := s', pr_mid := Some (new_launch kd cfg rz sq)\<rparr>)"
    and "scratch_ok gfx a (S\<lparr>pr_ctx := s', pr_mid := Some (new_launch kd cfg rz sq)\<rparr>)"
proof -
  let ?S = "S\<lparr>pr_ctx := s', pr_mid := Some (new_launch kd cfg rz sq)\<rparr>"
  note cs = dispatch_request_cases [OF r]
  have all: "all_launches ?S = all_launches S @ [new_launch kd cfg rz sq]" by (simp add: all_launches_def mid)
  have rs: "resizes ?S = resizes S @ (if rz then [new_launch kd cfg rz sq] else [])"
    unfolding resizes_def all by (simp add: new_launch_def)
  have len: "unat (ct_done (pr_ctx S)) - a \<le> length (resizes S)"
  proof (cases "pr_announced S")
    case True
    then obtain la rest where "pr_stream S = la # rest" "la_resize la" using c by (auto simp: counts_ok_def)
    then have "0 < length (resizes S)" by (simp add: resizes_def all_launches_def)
    moreover have "unat (ct_done (pr_ctx S)) - a \<le> 1" using c by (auto simp: counts_ok_def)
    ultimately show ?thesis by linarith
  next
    case False
    then show ?thesis using c by (auto simp: counts_ok_def)
  qed
  note D = counts_okD [OF c]
  show "counts_ok a ?S"
  proof (cases rz)
    case False
    then have s': "s' = pr_ctx S" "sq = sc_seq (pr_ctx S)" using cs by auto
    show ?thesis unfolding counts_ok_def rs using False D s' by (simp add: new_launch_def)
  next
    case True
    then obtain v where v: "elems v = elems (sc_requests (pr_ctx S)) @ [\<lparr>needed_per_thread = private_size_of kd cfg,
          rq_block = block_dim cfg, rq_props = kernel_code_properties kd\<rparr>]"
      and s': "s' = (pr_ctx S)\<lparr>sc_requests := v, sc_seq := sc_seq (pr_ctx S) + 1\<rparr>"
      and pos: "private_size_of kd cfg > sc_per_thread (pr_ctx S)" and sq: "sq = sc_seq s'" using cs by auto
    have "0 < private_size_of kd cfg" by (rule le_less_trans [OF word_zero_le pos])
    moreover have "unat (sc_seq s') = Suc (unat (sc_seq (pr_ctx S)))" by (simp add: s' unat_Suc_word [OF nw])
    ultimately show ?thesis
      unfolding counts_ok_def rs using True D(1,3-5,8,10) len
      by (intro conjI) (auto simp: new_launch_def s' v sq D(2,6) D(7))
  qed
  show "scratch_ok gfx a ?S"
    unfolding scratch_ok_def
  proof (intro impI)
    assume "sc_error (pr_ctx ?S) = None"
    have same: "sc_per_thread s' = sc_per_thread (pr_ctx S)" "sc_va s' = sc_va (pr_ctx S)" "ct_done s' = ct_done (pr_ctx S)"
      "sc_tmpring s' = sc_tmpring (pr_ctx S)" "ct_indirect s' = ct_indirect (pr_ctx S)" using cs by auto
    have uc: "uses_current s' la = uses_current (pr_ctx S) la" for la by (simp add: uses_current_def same)
    have e: "sc_error (pr_ctx S) = None" using cs by simp
    note K = scratch_okD [OF k e]
    have "\<forall>la\<in>set (all_launches ?S). \<not> la_resize la \<longrightarrow> la_private la \<le> sc_per_thread s'"
      using K(1) cs unfolding all by (auto simp: new_launch_def)
    then show "(\<forall>la\<in>set (all_launches ?S). \<not> la_resize la \<longrightarrow> la_private la \<le> sc_per_thread (pr_ctx ?S)) \<and>
     (unat (ct_done (pr_ctx ?S)) = Suc a \<longrightarrow>
        la_private (hd (pr_stream ?S)) \<le> sc_per_thread (pr_ctx ?S) \<and>
        (\<exists>ib. length ib = MAX_SCRATCH_IB_DWORDS \<and> ct_indirect (pr_ctx ?S) =
           scratch_ib ib gfx (sc_va (pr_ctx ?S)) (sc_tmpring (pr_ctx ?S)) (la_props (hd (pr_stream ?S))))) \<and>
     (\<forall>pre la post. pr_stream ?S = pre @ la # post \<longrightarrow> \<not> la_stall la \<longrightarrow> 0 < la_private la \<longrightarrow>
        uses_current (pr_ctx ?S) la \<and> length (filter la_resize pre) \<le> unat (ct_done (pr_ctx ?S)) - a) \<and>
     (\<forall>la\<in>set (pr_running ?S). uses_current (pr_ctx ?S) la)"
      using K(2-5) by (simp add: same uc)
  qed
qed

lemma submit_keeps:
  assumes c: "counts_ok a S" and k: "scratch_ok gfx a S" and mid: "pr_mid S = Some la"
  defines "T \<equiv> S\<lparr>pr_mid := None, pr_stream := pr_stream S @ [encode_launch (pr_ctx S) la]\<rparr>"
  shows "counts_ok a T" and "scratch_ok gfx a T"
proof -
  let ?la = "encode_launch (pr_ctx S) la" and ?s = "pr_ctx S"
  have sel: "la_private ?la = la_private la" "la_props ?la = la_props la" "la_resize ?la = la_resize la"
      "la_seq ?la = la_seq la" by (simp_all add: encode_launch_def)
  have rsS: "resizes S = filter la_resize (pr_stream S) @ (if la_resize la then [la] else [])"
    by (simp add: resizes_def all_launches_def mid)
  have rsT: "resizes T = filter la_resize (pr_stream S) @ (if la_resize la then [?la] else [])"
    by (simp add: resizes_def all_launches_def T_def sel)
  have maps: "map (unat \<circ> la_seq) (resizes T) = map (unat \<circ> la_seq) (resizes S)"
    "map (\<lambda>la. (la_private la, la_props la)) (drop k (resizes T)) = map (\<lambda>la. (la_private la, la_props la)) (drop k (resizes S))"
    "(\<forall>la\<in>set (resizes T). 0 < la_private la) \<longleftrightarrow> (\<forall>la\<in>set (resizes S). 0 < la_private la)" for k
    by (auto simp: rsS rsT drop_map [symmetric] sel simp flip: drop_map)
  have sq: "la_seq la = sc_seq ?s" using c mid by (simp add: counts_ok_def)
  have stall: "la_stall ?la" if "la_resize la"
  proof -
    have "0 < la_private la" using c that by (auto simp: counts_ok_def rsS)
    moreover have "ct_done ?s < sc_seq ?s"
    proof (cases "unat (ct_done ?s) = a")
      case True
      have "0 < length (resizes S)" using that by (simp add: rsS)
      then show ?thesis using True length_resizes [OF c] by (simp add: word_less_nat_alt)
    next
      case False
      then obtain h rest where "unat (ct_done ?s) = Suc a" "pr_stream S = h # rest" "la_resize h"
        using c by (auto simp: counts_ok_def)
      moreover from this that have "2 \<le> length (resizes S)" by (simp add: rsS)
      ultimately show ?thesis using length_resizes [OF c] by (simp add: word_less_nat_alt)
    qed
    ultimately show ?thesis by (simp add: encode_launch_def needs_ib_stall_def sq)
  qed
  show "counts_ok a T"
    using c stall unfolding counts_ok_def maps
    by (auto simp: T_def sel)
  have late: "length (filter la_resize (pr_stream S)) \<le> unat (ct_done ?s) - a"
    if "\<not> la_stall ?la" "0 < la_private la"
  proof -
    have "\<not> la_resize la" using stall that(1) by auto
    moreover have "sc_seq ?s \<le> ct_done ?s"
      using that by (auto simp: encode_launch_def needs_ib_stall_def sq)
    ultimately show ?thesis using length_resizes [OF c] by (simp add: rsS word_le_nat_alt)
  qed
  show "scratch_ok gfx a T"
    unfolding scratch_ok_def
  proof (intro impI conjI)
    assume "sc_error (pr_ctx T) = None"
    then have e: "sc_error ?s = None" by (simp add: T_def)
    note k' = scratch_okD [OF k e]
    show p: "\<forall>la\<in>set (all_launches T). \<not> la_resize la \<longrightarrow> la_private la \<le> sc_per_thread (pr_ctx T)"
      using k'(1) mid by (auto simp: T_def all_launches_def sel)
    have hd: "unat (ct_done ?s) = Suc a \<Longrightarrow> hd (pr_stream T) = hd (pr_stream S)"
      using c by (auto simp: counts_ok_def T_def)
    show "unat (ct_done (pr_ctx T)) = Suc a \<Longrightarrow> la_private (hd (pr_stream T)) \<le> sc_per_thread (pr_ctx T)"
      "unat (ct_done (pr_ctx T)) = Suc a \<Longrightarrow>
        \<exists>ib. length ib = MAX_SCRATCH_IB_DWORDS \<and> ct_indirect (pr_ctx T) =
           scratch_ib ib gfx (sc_va (pr_ctx T)) (sc_tmpring (pr_ctx T)) (la_props (hd (pr_stream T)))"
      using k'(2,3) hd by (auto simp: T_def)
    show "\<forall>la\<in>set (pr_running T). uses_current (pr_ctx T) la" using k'(5) by (simp add: T_def)
    show "\<forall>pre x post. pr_stream T = pre @ x # post \<longrightarrow> \<not> la_stall x \<longrightarrow> 0 < la_private x \<longrightarrow>
        uses_current (pr_ctx T) x \<and> length (filter la_resize pre) \<le> unat (ct_done (pr_ctx T)) - a"
    proof (intro allI impI)
      fix pre x post
      assume x: "pr_stream T = pre @ x # post" "\<not> la_stall x" "0 < la_private x"
      show "uses_current (pr_ctx T) x \<and> length (filter la_resize pre) \<le> unat (ct_done (pr_ctx T)) - a"
      proof (cases post rule: rev_cases)
        case Nil
        then have x': "x = ?la" "pre = pr_stream S" using x(1) by (simp_all add: T_def)
        then have "\<not> la_resize la" using stall x(2) by auto
        then have "la_private la \<le> sc_per_thread ?s" using k'(1) mid by (auto simp: all_launches_def)
        then show ?thesis using late x(2,3) x' by (simp add: T_def uses_current_def encode_launch_def)
      next
        case (snoc post' y)
        then have "pr_stream S = pre @ x # post'" using x(1) by (simp add: T_def)
        then show ?thesis using k'(4) x(2,3) by (simp add: T_def)
      qed
    qed
  qed
qed


lemma resizes_head:
  assumes "counts_ok a S" and "pr_stream S = la # rest" and "la_resize la"
  shows "unat (la_seq la) = Suc a" and "la_stall la" and "\<exists>rs. resizes S = la # rs"
proof -
  have r: "resizes S = la # filter la_resize (rest @ (case pr_mid S of None \<Rightarrow> [] | Some la \<Rightarrow> [la]))"
    using assms(2,3) by (simp add: resizes_def all_launches_def)
  then show "\<exists>rs. resizes S = la # rs" by blast
  have "unat (la_seq la) = hd [Suc a..<Suc (unat (sc_seq (pr_ctx S)))]"
    using counts_okD(2) [OF assms(1)] r by (metis comp_apply list.sel(1) list.simps(9))
  moreover have "[Suc a..<Suc (unat (sc_seq (pr_ctx S)))] \<noteq> []"
    using counts_okD(2) [OF assms(1)] r by (metis list.simps(8) list.map_disc_iff list.distinct(1))
  ultimately show "unat (la_seq la) = Suc a" by (simp only: upt_eq_Nil_conv hd_upt not_le de_Morgan_disj)
  show "la_stall la" using counts_okD(8) [OF assms(1)] assms(2,3) by simp
qed

lemma announce_keeps:
  assumes c: "counts_ok a S" and k: "scratch_ok gfx a S" and st: "pr_stream S = la # rest" "la_stall la" "la_resize la"
    and n: "\<not> pr_announced S" "pr_running S = []"
  defines "T \<equiv> S\<lparr>pr_ctx := (pr_ctx S)\<lparr>ct_ready := ucast (la_seq la)\<rparr>, pr_announced := True\<rparr>"
  shows "counts_ok a T" and "scratch_ok gfx a T"
proof -
  note D = counts_okD [OF c]
  have same: "all_launches T = all_launches S" "resizes T = resizes S"
    by (simp_all add: T_def all_launches_def resizes_def)
  have "unat (ucast (la_seq la) :: u64) = Suc a"
    using resizes_head(1) [OF c st(1,3)] unat32_less [of "la_seq la"] by (simp add: unat_ucast_mod)
  then show "counts_ok a T"
    using c st n unfolding counts_ok_def same by (simp add: T_def)
  show "scratch_ok gfx a T"
    using k st unfolding scratch_ok_def same by (simp add: T_def uses_current_def)
qed

lemma start_keeps:
  assumes c: "counts_ok a S" and k: "scratch_ok gfx a S" and st: "pr_stream S = la # rest"
    and go: "la_stall la \<and> la_resize la \<longrightarrow> pr_announced S" "la_stall la \<longrightarrow> la_seq la \<le> ct_done (pr_ctx S)"
  defines "T \<equiv> S\<lparr>pr_stream := rest, pr_announced := False, pr_running := pr_running S @ [start_launch (pr_ctx S) la]\<rparr>"
  shows "\<exists>b. counts_ok b T \<and> scratch_ok gfx b T"
proof -
  note D = counts_okD [OF c]
  let ?s = "pr_ctx S"
  have all: "all_launches S = la # all_launches T" by (simp add: all_launches_def st T_def)
  have uc: "sc_error ?s = None \<Longrightarrow> uses_current ?s (start_launch ?s la)"
  proof -
    assume e: "sc_error ?s = None"
    note K = scratch_okD [OF k e]
    show ?thesis
    proof (cases "la_stall la")
      case False
      then show ?thesis using K(4) [of "[]" la rest] st
        by (cases "la_private la = 0") (simp_all add: start_launch_def uses_current_def word_neq_0_conv)
    next
      case True
      have "la_private la \<le> sc_per_thread ?s"
      proof (cases "la_resize la")
        case True
        with \<open>la_stall la\<close> go have "Suc a \<le> unat (ct_done ?s)"
          using resizes_head(1) [OF c st] by (simp add: word_le_nat_alt)
        then have "unat (ct_done ?s) = Suc a" using D(4) by auto
        then show ?thesis using K(2) st by simp
      next
        case False
        then show ?thesis using K(1) all by simp
      qed
      then show ?thesis using True by (simp add: start_launch_def uses_current_def)
    qed
  qed
  show ?thesis
  proof (cases "la_resize la")
    case True
    then have stall: "la_stall la" and sq: "unat (la_seq la) = Suc a" and ann: "pr_announced S"
      using resizes_head [OF c st] go by auto
    then have dn: "unat (ct_done ?s) = Suc a" using go D(4) by (auto simp: word_le_nat_alt)
    have rs: "resizes S = la # resizes T" using True by (simp add: resizes_def all)
    have up: "map (unat \<circ> la_seq) (resizes T) = [Suc (Suc a)..<Suc (unat (sc_seq ?s))]"
      "Suc a \<le> unat (sc_seq ?s)"
    proof -
      have "unat (la_seq la) # map (unat \<circ> la_seq) (resizes T) = [Suc a..<Suc (unat (sc_seq ?s))]"
        using D(2) by (simp add: rs)
      then show "map (unat \<circ> la_seq) (resizes T) = [Suc (Suc a)..<Suc (unat (sc_seq ?s))]"
        "Suc a \<le> unat (sc_seq ?s)"
        by (metis list.sel(3) tl_upt, metis list.distinct(1) not_less_eq_eq upt_eq_Nil_conv less_Suc_eq_le)
    qed
    have sel: "pr_ctx T = ?s" "pr_announced T = False" "pr_stream T = rest" "pr_mid T = pr_mid S"
      by (simp_all add: T_def)
    have "counts_ok (Suc a) T"
      unfolding counts_ok_def sel using up D(3,6-10) dn ann st by (simp add: rs)
    moreover have "scratch_ok gfx (Suc a) T"
      unfolding scratch_ok_def sel
    proof (intro impI conjI)
      assume e: "sc_error ?s = None"
      note K = scratch_okD [OF k e]
      show "\<forall>la\<in>set (all_launches T). \<not> la_resize la \<longrightarrow> la_private la \<le> sc_per_thread ?s"
        using K(1) all by simp
      show "\<forall>x\<in>set (pr_running T). uses_current ?s x" using K(5) uc [OF e] by (simp add: T_def)
      show "\<forall>pre x post. rest = pre @ x # post \<longrightarrow> \<not> la_stall x \<longrightarrow> 0 < la_private x \<longrightarrow>
          uses_current ?s x \<and> length (filter la_resize pre) \<le> unat (ct_done ?s) - Suc a"
      proof (intro allI impI)
        fix pre x post
        assume x: "rest = pre @ x # post" "\<not> la_stall x" "0 < la_private x"
        have "uses_current ?s x \<and> length (filter la_resize (la # pre)) \<le> unat (ct_done ?s) - a"
          by (rule K(4)) (use st x in simp_all)
        then show "uses_current ?s x \<and> length (filter la_resize pre) \<le> unat (ct_done ?s) - Suc a"
          using True by auto
      qed
    qed (use dn in simp_all)
    ultimately show ?thesis by blast
  next
    case False
    then have ann: "\<not> pr_announced S" using D(5) st by auto
    then have dn: "unat (ct_done ?s) = a" using D(4) by simp
    have rs: "resizes S = resizes T" using False by (simp add: resizes_def all)
    have sel: "pr_ctx T = ?s" "pr_announced T = False" "pr_stream T = rest" "pr_mid T = pr_mid S"
      by (simp_all add: T_def)
    have "counts_ok a T"
      unfolding counts_ok_def sel using D(1-3,6-10) dn ann st by (simp add: rs)
    moreover have "scratch_ok gfx a T"
      unfolding scratch_ok_def sel
    proof (intro impI conjI)
      assume e: "sc_error ?s = None"
      note K = scratch_okD [OF k e]
      show "\<forall>la\<in>set (all_launches T). \<not> la_resize la \<longrightarrow> la_private la \<le> sc_per_thread ?s"
        using K(1) all by simp
      show "\<forall>x\<in>set (pr_running T). uses_current ?s x" using K(5) uc [OF e] by (simp add: T_def)
      show "\<forall>pre x post. rest = pre @ x # post \<longrightarrow> \<not> la_stall x \<longrightarrow> 0 < la_private x \<longrightarrow>
          uses_current ?s x \<and> length (filter la_resize pre) \<le> unat (ct_done ?s) - a"
      proof (intro allI impI)
        fix pre x post
        assume x: "rest = pre @ x # post" "\<not> la_stall x" "0 < la_private x"
        have "uses_current ?s x \<and> length (filter la_resize (la # pre)) \<le> unat (ct_done ?s) - a"
          by (rule K(4)) (use st x in simp_all)
        then show "uses_current ?s x \<and> length (filter la_resize pre) \<le> unat (ct_done ?s) - a"
          using False by simp
      qed
    qed (use dn in simp_all)
    ultimately show ?thesis by blast
  qed
qed


lemma length_scratch_ib: "length ib = MAX_SCRATCH_IB_DWORDS \<Longrightarrow> length (scratch_ib ib gfx va t kp) = MAX_SCRATCH_IB_DWORDS"
  using scratch_ib_fits [of gfx va t kp] by (simp add: scratch_ib_def Let_def MAX_SCRATCH_IB_DWORDS_def)

text \<open>A run of the handler that changes anything serves the launch at the head of the stream, alone.\<close>

lemma watch_serves_head:
  assumes c: "counts_ok a S" and run: "scratch_handler mal K page d np fuel (pr_ctx S) h = (Inr s', h')"
    and change: "s' \<noteq> pr_ctx S"
  obtains req rest la more rs where
    "elems (sc_requests (pr_ctx S)) = req # rest" "elems (sc_requests s') = rest"
    "sc_seq s' = sc_seq (pr_ctx S)" "ct_ready s' = ct_ready (pr_ctx S)" "ct_done s' = ct_done (pr_ctx S) + 1"
    "unat (ct_done s') = Suc a" "unat (ct_done (pr_ctx S)) = a"
    "handler_serves (gfx_target_version np) (pr_ctx S) s' req \<or>
       sc_error s' = Some ENOMEM \<and> ct_indirect s' = failed_ib (ct_indirect (pr_ctx S))"
    "pr_announced S" "pr_running S = []" "pr_stream S = la # more" "la_resize la" "resizes S = la # rs"
    "needed_per_thread req = la_private la" "rq_props req = la_props la"
    "map (\<lambda>r. (needed_per_thread r, rq_props r)) rest = map (\<lambda>la. (la_private la, la_props la)) rs"
proof -
  let ?s = "pr_ctx S"
  note D = counts_okD [OF c]
  from change scratch_handler_cases [OF run] obtain req rest where go: "ct_done ?s + 1 \<le> ucast (ct_ready ?s)"
    and q: "elems (sc_requests ?s) = req # rest" "elems (sc_requests s') = rest"
    and eqs: "sc_seq s' = sc_seq ?s" "ct_ready s' = ct_ready ?s" "ct_done s' = ct_done ?s + 1"
    and out: "handler_serves (gfx_target_version np) ?s s' req \<or>
      sc_error s' = Some ENOMEM \<and> ct_indirect s' = failed_ib (ct_indirect ?s)" by auto
  obtain r0 rs where r0: "drop (unat (ct_done ?s) - a) (resizes S) = r0 # rs"
    and req: "needed_per_thread req = la_private r0" "rq_props req = la_props r0"
    and rest: "map (\<lambda>r. (needed_per_thread r, rq_props r)) rest = map (\<lambda>la. (la_private la, la_props la)) rs"
    using D(6) unfolding q by (cases "drop (unat (ct_done ?s) - a) (resizes S)") auto
  have "unat (ct_done ?s) - a < length (resizes S)"
    using r0 by (metis drop_all linorder_not_le list.distinct(1))
  then have "unat (ct_done ?s) < unat (sc_seq ?s)" using length_resizes [OF c] D(4) by auto
  then have "ct_done ?s \<noteq> - 1"
    using unat32_less [of "sc_seq ?s"] by (auto simp: unsigned_minus_1_eq_mask mask_eq_exp_minus_1)
  then have dn': "unat (ct_done s') = Suc (unat (ct_done ?s))" by (simp add: eqs unat_Suc_word)
  have "unat (ucast (ct_ready ?s) :: u32) \<le> unat (ct_ready ?s)" by (simp add: unat_ucast_mod)
  then have "Suc (unat (ct_done ?s)) \<le> unat (ct_ready ?s)"
    using go dn' by (simp add: word_le_nat_alt eqs)
  then have ann: "pr_announced S" and dn: "unat (ct_done ?s) = a" using D(3,4) by (auto split: if_splits)
  then obtain la more where st: "pr_stream S = la # more" "la_resize la" and none: "pr_running S = []" using D(5) by auto
  have rs: "resizes S = la # rs" "r0 = la" using resizes_head(3) [OF c st] r0 dn by auto
  show thesis
    by (rule that [OF q eqs _ dn out ann none st rs(1) req(1) [unfolded rs(2)] req(2) [unfolded rs(2)] rest]) (simp add: dn' dn)
qed

lemma watch_keeps:
  assumes c: "counts_ok a S" and k: "scratch_ok (gfx_target_version np) a S"
    and run: "scratch_handler mal K page d np fuel (pr_ctx S) h = (Inr s', h')"
  shows "counts_ok a (S\<lparr>pr_ctx := s'\<rparr>)" and "scratch_ok (gfx_target_version np) a (S\<lparr>pr_ctx := s'\<rparr>)"
proof -
  let ?s = "pr_ctx S" and ?T = "S\<lparr>pr_ctx := s'\<rparr>"
  note D = counts_okD [OF c]
  have same: "all_launches ?T = all_launches S" "resizes ?T = resizes S"
    by (simp_all add: all_launches_def resizes_def)
  have "counts_ok a ?T \<and> scratch_ok (gfx_target_version np) a ?T"
  proof (cases "s' = ?s")
    case True
    then show ?thesis using c k by simp
  next
    case False
    obtain req rest la more rs where q: "elems (sc_requests ?s) = req # rest" "elems (sc_requests s') = rest"
      and eqs: "sc_seq s' = sc_seq ?s" "ct_ready s' = ct_ready ?s" "ct_done s' = ct_done ?s + 1"
      and dn': "unat (ct_done s') = Suc a" and dn: "unat (ct_done ?s) = a"
      and out: "handler_serves (gfx_target_version np) ?s s' req \<or>
        sc_error s' = Some ENOMEM \<and> ct_indirect s' = failed_ib (ct_indirect ?s)"
      and ann: "pr_announced S" and none: "pr_running S = []" and st: "pr_stream S = la # more" "la_resize la"
      and rs: "resizes S = la # rs" and req: "needed_per_thread req = la_private la" "rq_props req = la_props la"
      and rest: "map (\<lambda>r. (needed_per_thread r, rq_props r)) rest = map (\<lambda>la. (la_private la, la_props la)) rs"
      by (rule watch_serves_head [OF c run False])
    have counts: "counts_ok a ?T"
    proof -
      have "length (ct_indirect s') = MAX_SCRATCH_IB_DWORDS"
        using out D(10) length_scratch_ib by (auto simp: handler_serves_def failed_ib_def)
      then show ?thesis
        unfolding counts_ok_def same using D(1-3,5,7-9) dn' ann rest q rs by (simp add: eqs(1,2))
    qed
    have "scratch_ok (gfx_target_version np) a ?T"
      unfolding scratch_ok_def same
    proof (intro impI)
      assume e: "sc_error (pr_ctx ?T) = None"
      then have sv: "handler_serves (gfx_target_version np) ?s s' req" using out by auto
      then have "sc_error ?s = None" using e by (simp add: handler_serves_def)
      note K = scratch_okD [OF k this]
      have per: "sc_per_thread ?s \<le> sc_per_thread s'" "la_private la \<le> sc_per_thread s'"
        and ib: "ct_indirect s' = scratch_ib (ct_indirect ?s) (gfx_target_version np) (sc_va s') (sc_tmpring s') (la_props la)"
        using sv req by (simp_all add: handler_serves_def)
      have early: "pr_stream S = pre @ x # post \<Longrightarrow> \<not> la_stall x \<Longrightarrow> 0 < la_private x \<Longrightarrow> P" for pre x post P
      proof (rule ccontr)
        assume "pr_stream S = pre @ x # post" "\<not> la_stall x" "0 < la_private x"
        then have x: "pr_stream S = pre @ x # post \<and> \<not> la_stall x \<and> 0 < la_private x" by simp
        then have "length (filter la_resize pre) = 0" using K(4) [of pre x post] dn by auto
        moreover have "pre \<noteq> []" using x st D(8) by auto
        ultimately show False using x st by (cases pre) auto
      qed
      show "(\<forall>la\<in>set (all_launches S). \<not> la_resize la \<longrightarrow> la_private la \<le> sc_per_thread (pr_ctx ?T)) \<and>
         (unat (ct_done (pr_ctx ?T)) = Suc a \<longrightarrow> la_private (hd (pr_stream ?T)) \<le> sc_per_thread (pr_ctx ?T) \<and>
           (\<exists>ib. length ib = MAX_SCRATCH_IB_DWORDS \<and> ct_indirect (pr_ctx ?T) =
             scratch_ib ib (gfx_target_version np) (sc_va (pr_ctx ?T)) (sc_tmpring (pr_ctx ?T)) (la_props (hd (pr_stream ?T))))) \<and>
         (\<forall>pre la post. pr_stream ?T = pre @ la # post \<longrightarrow> \<not> la_stall la \<longrightarrow> 0 < la_private la \<longrightarrow>
           uses_current (pr_ctx ?T) la \<and> length (filter la_resize pre) \<le> unat (ct_done (pr_ctx ?T)) - a) \<and>
         (\<forall>la\<in>set (pr_running ?T). uses_current (pr_ctx ?T) la)"
      proof (intro conjI impI)
        show "\<forall>la\<in>set (all_launches S). \<not> la_resize la \<longrightarrow> la_private la \<le> sc_per_thread (pr_ctx ?T)"
          using K(1) per(1) by (auto intro: order_trans)
        show "\<forall>pre la post. pr_stream ?T = pre @ la # post \<longrightarrow> \<not> la_stall la \<longrightarrow> 0 < la_private la \<longrightarrow>
           uses_current (pr_ctx ?T) la \<and> length (filter la_resize pre) \<le> unat (ct_done (pr_ctx ?T)) - a"
          by (intro allI impI) (rule early, simp_all)
      qed (use per ib D(10) none st in auto)
    qed
    with counts show ?thesis by blast
  qed
  then show "counts_ok a ?T" "scratch_ok (gfx_target_version np) a ?T" by simp_all
qed

lemma finish_keeps:
  assumes "counts_ok a S" and "scratch_ok gfx a S" and "pr_running S = xs @ la # ys"
  shows "counts_ok a (S\<lparr>pr_running := xs @ ys\<rparr>)" and "scratch_ok gfx a (S\<lparr>pr_running := xs @ ys\<rparr>)"
  using assms by (auto simp: counts_ok_def scratch_ok_def resizes_def all_launches_def)

lemma protocol_step_keeps:
  assumes "protocol_step mal K page d np S T" and "counts_ok a S" and "scratch_ok (gfx_target_version np) a S"
  shows "\<exists>b. counts_ok b T \<and> scratch_ok (gfx_target_version np) b T"
  using assms
proof (induction rule: protocol_step.induct)
  case (step_request S kd cfg needs_resize current_seq s')
  then show ?case using request_keeps by blast
next
  case (step_submit S la)
  then show ?case using submit_keeps by blast
next
  case (step_announce S la rest)
  then show ?case using announce_keeps by blast
next
  case (step_watch fuel S h s' h')
  show ?case by (intro exI conjI) (rule watch_keeps [OF step_watch(2,3,1)])+
next
  case (step_start S la rest)
  then show ?case using start_keeps by blast
next
  case (step_finish S xs la ys)
  then show ?case using finish_keeps by blast
qed

lemma protocol_reachable:
  "(protocol_step mal K page d np)\<^sup>*\<^sup>* (protocol_start p) S \<Longrightarrow>
     \<exists>a. counts_ok a S \<and> scratch_ok (gfx_target_version np) a S"
  by (induction rule: rtranclp_induct) (use start_ok protocol_step_keeps in blast)+


section \<open>A run\<close>

text \<open>A device with one compute unit, a pool of 16 MiB and a kernel that wants 16 bytes per thread.\<close>

definition granting :: kernel where
  "granting h c = (case c of
       Mmap a l p f fd off \<Rightarrow> Done [if a = 0 then 0x70000000 else a]
     | AllocMemory a l off g f \<Rightarrow> Done [7, 0]
     | _ \<Rightarrow> Done [])"

definition demo_np :: node_properties where
  "demo_np = empty_properties\<lparr>gfx_target_version := 110000, simd_count := 2, simd_per_cu := 2, array_count := 1,
     simd_arrays_per_engine := 1, max_slots_scratch_cu := 32, num_xcc := 1\<rparr>"

definition demo_region :: pool where
  "demo_region = \<lparr>managed = 0x10000000, managed_size = 0x1000000, align = 0x10000,
     free_list = \<lparr>elems = [\<lparr>offset = 0, bsize = 0x1000000\<rparr>], capacity = 8, is_inline = True, buf_bytes = 128\<rparr>\<rparr>"

definition demo_scratch_kd :: kernel_descriptor where
  "demo_scratch_kd = demo_kd\<lparr>private_segment_fixed_size := 16, kernel_code_properties := 0\<rparr>"

definition demo_launch_cfg :: dispatch_config where
  "demo_launch_cfg = \<lparr>grid = \<lparr>dim_x = 1, dim_y = 1, dim_z = 1\<rparr>, block_dim = \<lparr>dim_x = 64, dim_y = 1, dim_z = 1\<rparr>,
     dynamic_lds = 0, cfg_private_segment_size = 0\<rparr>"

abbreviation demo_request :: "(bool \<times> u32) res \<times> scratch_ctx" where
  "demo_request \<equiv> dispatch_request (\<lambda>_. True) (gfx_target_version demo_np) demo_scratch_kd demo_launch_cfg
     (pr_ctx (protocol_start demo_region))"

definition demo_asked :: protocol where
  "demo_asked = (protocol_start demo_region)\<lparr>pr_ctx := snd demo_request,
     pr_mid := Some (new_launch demo_scratch_kd demo_launch_cfg True 1)\<rparr>"

definition demo_sent :: protocol where
  "demo_sent = demo_asked\<lparr>pr_mid := None, pr_stream := pr_stream demo_asked @
     [encode_launch (pr_ctx demo_asked) (new_launch demo_scratch_kd demo_launch_cfg True 1)]\<rparr>"

definition demo_announced :: protocol where
  "demo_announced = demo_sent\<lparr>pr_ctx := (pr_ctx demo_sent)\<lparr>ct_ready := ucast (la_seq (hd (pr_stream demo_sent)))\<rparr>,
     pr_announced := True\<rparr>"

definition demo_watch :: "scratch_ctx res" where
  "demo_watch = fst (scratch_handler (\<lambda>_. True) granting 0x1000 demo_dev demo_np 1 (pr_ctx demo_announced) [])"

definition demo_served :: protocol where
  "demo_served = demo_announced\<lparr>pr_ctx := (case demo_watch of Inr s \<Rightarrow> s | Inl _ \<Rightarrow> pr_ctx demo_announced)\<rparr>"

definition demo_running :: protocol where
  "demo_running = demo_served\<lparr>pr_stream := tl (pr_stream demo_served), pr_announced := False,
     pr_running := pr_running demo_served @ [start_launch (pr_ctx demo_served) (hd (pr_stream demo_served))]\<rparr>"

abbreviation demo_protocol_step :: "protocol \<Rightarrow> protocol \<Rightarrow> bool" where
  "demo_protocol_step \<equiv> protocol_step (\<lambda>_. True) granting 0x1000 demo_dev demo_np"

lemma demo_asked: "demo_protocol_step (protocol_start demo_region) demo_asked"
proof -
  have "fst demo_request = Inr (True, 1)" by code_simp
  then have "demo_request = (Inr (True, 1), snd demo_request)" by (metis prod.collapse)
  then show ?thesis
    unfolding demo_asked_def by (intro step_request) (simp_all add: protocol_start_def)
qed

lemma demo_sent: "demo_protocol_step demo_asked demo_sent"
  unfolding demo_sent_def by (rule step_submit) (simp add: demo_asked_def)

lemma demo_announced: "demo_protocol_step demo_sent demo_announced"
  unfolding demo_announced_def
proof (rule step_announce)
  show "pr_stream demo_sent = hd (pr_stream demo_sent) # []"
    by (simp add: demo_sent_def demo_asked_def protocol_start_def)
  show "la_stall (hd (pr_stream demo_sent))" by code_simp
  show "la_resize (hd (pr_stream demo_sent))" "\<not> pr_announced demo_sent" "pr_running demo_sent = []"
    by (simp_all add: demo_sent_def demo_asked_def protocol_start_def encode_launch_def new_launch_def)
qed

lemma demo_watch: "\<exists>s. demo_watch = Inr s"
proof -
  have "case_sum (\<lambda>_. False) (\<lambda>_. True) demo_watch" by code_simp
  then show ?thesis by (auto split: sum.splits)
qed

lemma demo_served: "demo_protocol_step demo_announced demo_served"
proof -
  obtain s where s: "demo_watch = Inr s" using demo_watch by blast
  have "scratch_handler (\<lambda>_. True) granting 0x1000 demo_dev demo_np 1 (pr_ctx demo_announced) [] =
      (Inr s, snd (scratch_handler (\<lambda>_. True) granting 0x1000 demo_dev demo_np 1 (pr_ctx demo_announced) []))"
    using s unfolding demo_watch_def by (metis prod.collapse)
  from step_watch [OF this] show ?thesis by (simp add: demo_served_def s)
qed

lemma demo_served_state:
  "sc_error (pr_ctx demo_served) = None" "la_seq (hd (pr_stream demo_served)) \<le> ct_done (pr_ctx demo_served)"
  "la_stall (hd (pr_stream demo_served))" "sc_va (pr_ctx demo_served) = 0x10000000"
  by code_simp+

lemma demo_served_stream:
  "pr_stream demo_served = [encode_launch (pr_ctx demo_asked) (new_launch demo_scratch_kd demo_launch_cfg True 1)]"
  "pr_announced demo_served" "pr_running demo_served = []"
  by (simp_all add: demo_served_def demo_announced_def demo_sent_def demo_asked_def protocol_start_def)

lemma demo_running: "demo_protocol_step demo_served demo_running"
  unfolding demo_running_def
proof (rule step_start)
  show "pr_stream demo_served = hd (pr_stream demo_served) # tl (pr_stream demo_served)"
    by (simp add: demo_served_stream)
  show "la_stall (hd (pr_stream demo_served)) \<longrightarrow> la_seq (hd (pr_stream demo_served)) \<le> ct_done (pr_ctx demo_served)"
    using demo_served_state(2) by blast
qed (simp add: demo_served_stream)

lemma demo_reaches:
  "demo_protocol_step\<^sup>*\<^sup>* (protocol_start demo_region) demo_served"
  "demo_protocol_step\<^sup>*\<^sup>* (protocol_start demo_region) demo_running"
proof -
  show s: "demo_protocol_step\<^sup>*\<^sup>* (protocol_start demo_region) demo_served"
    using demo_asked demo_sent demo_announced demo_served by (meson converse_rtranclp_into_rtranclp rtranclp.rtrancl_refl)
  show "demo_protocol_step\<^sup>*\<^sup>* (protocol_start demo_region) demo_running"
    by (rule rtranclp.rtrancl_into_rtrancl [OF s demo_running])
qed

section \<open>What the protocol guarantees\<close>



text \<open>
  C29. What a launch that waited for scratch sees. When the watcher has served the launch at the
  head of the ring and no allocation has failed, the indirect buffer in the control page turns
  the registers of its set-up, encoded before the memory existed, into those of the same set-up
  encoded with the memory the watcher allocated.
\<close>

theorem served_launch_sees_its_scratch:
  assumes "(protocol_step mal K page d np)\<^sup>*\<^sup>* (protocol_start p) S" and "sc_error (pr_ctx S) = None"
    and "pr_stream S = la # rest" and "la_resize la" and "la_seq la \<le> ct_done (pr_ctx S)"
    and "kernel_code_properties kd = la_props la" and "gfx = gfx_target_version np"
  shows "run_pm4 (build_dispatch_setup load gfx kd entry block ka dp (la_va la) (la_tmpring la) dyn ps @
            ct_indirect (pr_ctx S)) r
       = run_pm4 (build_dispatch_setup load gfx kd entry block ka dp (sc_va (pr_ctx S)) (sc_tmpring (pr_ctx S)) dyn ps) r"
proof -
  obtain a where c: "counts_ok a S" and k: "scratch_ok (gfx_target_version np) a S"
    using protocol_reachable [OF assms(1)] by blast
  have "unat (ct_done (pr_ctx S)) = Suc a"
    using resizes_head(1) [OF c assms(3,4)] assms(5) counts_okD(4) [OF c] by (auto simp: word_le_nat_alt)
  then obtain ib where "length ib = MAX_SCRATCH_IB_DWORDS"
    "ct_indirect (pr_ctx S) = scratch_ib ib gfx (sc_va (pr_ctx S)) (sc_tmpring (pr_ctx S)) (kernel_code_properties kd)"
    using scratch_okD(3) [OF k assms(2)] assms(3,6,7) by auto
  then show ?thesis by (simp only: scratch_ib_overrides)
qed

lemma served_launch_sees_its_scratch_witness:
  "run_pm4 (build_dispatch_setup (\<lambda>_. 0) 110000 demo_scratch_kd 0x10000 (block_dim demo_launch_cfg) 0x2000 0 0 0 0 16 @
       ct_indirect (pr_ctx demo_served)) (\<lambda>_. 0)
   = run_pm4 (build_dispatch_setup (\<lambda>_. 0) 110000 demo_scratch_kd 0x10000 (block_dim demo_launch_cfg) 0x2000 0 0x10000000
       (sc_tmpring (pr_ctx demo_served)) 0 16) (\<lambda>_. 0)"
proof -
  let ?la = "hd (pr_stream demo_served)"
  have st: "pr_stream demo_served = ?la # []" by (simp add: demo_served_stream)
  have "la_resize ?la" "kernel_code_properties demo_scratch_kd = la_props ?la" "la_va ?la = 0" "la_tmpring ?la = 0"
    by (simp_all add: demo_served_stream encode_launch_def new_launch_def) code_simp+
  moreover have "(110000 :: u32) = gfx_target_version demo_np" by (simp add: demo_np_def)
  ultimately show ?thesis
    using served_launch_sees_its_scratch [OF demo_reaches(1) demo_served_state(1) st _ demo_served_state(2)]
    by (metis demo_served_state(4))
qed

section \<open>The service it implements\<close>

text \<open>
  Seen from a client the protocol is a queue of demands: a demand waits in line, the one at the
  head is granted by a capacity that covers it and never shrinks, or refused for good.
\<close>

record service =
  sv_cap :: nat
  sv_failed :: bool
  sv_waiting :: "nat list"

definition service_demand :: "nat \<Rightarrow> service \<Rightarrow> service \<Rightarrow> bool" where
  "service_demand n A B \<longleftrightarrow> \<not> sv_failed A \<and> sv_cap A < n \<and> B = A\<lparr>sv_waiting := sv_waiting A @ [n]\<rparr>"

definition service_answer :: "nat \<Rightarrow> service \<Rightarrow> service \<Rightarrow> bool" where
  "service_answer n A B \<longleftrightarrow> sv_waiting A = n # sv_waiting B \<and>
     (sv_failed B \<or> \<not> sv_failed A \<and> n \<le> sv_cap B \<and> sv_cap A \<le> sv_cap B)"

definition service_of :: "protocol \<Rightarrow> service" where
  "service_of S =
     \<lparr>sv_cap = unat (sc_per_thread (pr_ctx S)), sv_failed = (sc_error (pr_ctx S) \<noteq> None),
      sv_waiting = map (unat \<circ> needed_per_thread) (elems (sc_requests (pr_ctx S)))\<rparr>"





section \<open>Where the guarantee stops\<close>

text \<open>
  A launch that stalls behind a request it did not make itself executes the indirect buffer built
  for the kernel that made it. Here the waiting kernel has its dispatch pointer in the first two
  user SGPRs and its flat scratch in the next two, the requesting one only flat scratch: the
  buffer overwrites the dispatch pointer and leaves the stale flat scratch.
\<close>

definition waiting_kd :: kernel_descriptor where
  "waiting_kd = demo_kd\<lparr>kernel_code_properties := 0x22\<rparr>"

lemma foreign_indirect_buffer_clobbers:
  "map_option (\<lambda>r. map (\<lambda>k. r (reg_addr COMPUTE_USER_DATA_0 + k)) [0, 2])
     (run_pm4 (build_dispatch_setup (\<lambda>_. 0) 100300 waiting_kd 0x10000 \<lparr>dim_x = 64, dim_y = 1, dim_z = 1\<rparr>
          0x2000 0x3000 0x4000 0x1020 0 64 @
        scratch_ib (replicate 20 7) 100300 0x5000 0x2020 0x20) (\<lambda>_. 0)) = Some [0x5000, 0x4000]"
  "map_option (\<lambda>r. map (\<lambda>k. r (reg_addr COMPUTE_USER_DATA_0 + k)) [0, 2])
     (run_pm4 (build_dispatch_setup (\<lambda>_. 0) 100300 waiting_kd 0x10000 \<lparr>dim_x = 64, dim_y = 1, dim_z = 1\<rparr>
          0x2000 0x3000 0x5000 0x2020 0 64) (\<lambda>_. 0)) = Some [0x3000, 0x5000]"
  by code_simp+

end
