(* ===== verification/Device.thy ===== *)
theory Device
  imports Fresh_Kernel Loader Pool_Allocator Topology
begin

text \<open>
  \<^verbatim>\<open>device.h\<close> and \<^verbatim>\<open>lib/device.cpp\<close>: the process-wide cache of render nodes, the trap
  handler, the scratch reservation, the doorbell page and \<^verbatim>\<open>Device::create\<close>. The trap images
  that the build embeds are a parameter, a list of addresses and contents.
\<close>

section \<open>The render node cache\<close>

record cached_fd =
  cf_gpu :: u32
  cf_fd :: int
  cf_dev :: u64

definition MAX_CACHED_FDS :: nat where "MAX_CACHED_FDS = 128"

fun find_cached_fd :: "cached_fd list \<Rightarrow> u32 \<Rightarrow> int" where
  "find_cached_fd [] gpu = - 1"
| "find_cached_fd (c # cs) gpu = (if cf_gpu c = gpu then cf_fd c else find_cached_fd cs gpu)"

text \<open>
  The driver writes up to fifteen characters of its name, and the length of the whole name. The
  reply is the length and then the characters.
\<close>

definition is_amdgpu :: "kernel \<Rightarrow> int \<Rightarrow> bool op" where
  "is_amdgpu K fd = op_else (sys K (DrmVersion fd)) (\<lambda>_. op_ret False)
     (\<lambda>out. op_ret (out_word out 0 = 6 \<and> map (\<lambda>i. out_word out (Suc i)) [0..<6] = map of_char ''amdgpu''))"

definition render_path :: "u32 \<Rightarrow> string" where
  "render_path minor = ''/dev/dri/renderD'' @ show_dec (unat minor)"

text \<open>Clean-up calls whose outcome the code ignores.\<close>

definition close_fd :: "kernel \<Rightarrow> int \<Rightarrow> 'a op \<Rightarrow> 'a op" where
  "close_fd K fd k = op_else (sys K (Close fd)) (\<lambda>_. k) (\<lambda>_. k)"

definition drm_deinit :: "kernel \<Rightarrow> u64 \<Rightarrow> 'a op \<Rightarrow> 'a op" where
  "drm_deinit K dev k = op_else (sys K (DrmDeinit dev)) (\<lambda>_. k) (\<lambda>_. k)"

definition open_render_fd :: "kernel \<Rightarrow> cached_fd list \<Rightarrow> node_properties \<Rightarrow> (int \<times> cached_fd list) op" where
  "open_render_fd K cache p =
     (let cached = find_cached_fd cache (gpu_id p)
      in if cached \<ge> 0 then op_ret (cached, cache)
         else op_try (sys K (Open (render_path (drm_render_minor p)))) (\<lambda>opened.
              let rfd = out_fd opened
              in op_try (is_amdgpu K rfd) (\<lambda>amd.
                 if \<not> amd then close_fd K rfd (op_fail ENODEV)
                 else op_else (sys K (DrmInit rfd)) (\<lambda>_. close_fd K rfd (op_fail ENODEV)) (\<lambda>drm.
                 let amdgpu_dev = out_word drm 0; dfd = sint (ucast (out_word drm 1) :: u32)
                 in close_fd K rfd (
                    op_else (sys K (AcquireVm (of_int dfd) (gpu_id p))) (\<lambda>e. drm_deinit K amdgpu_dev (op_fail e)) (\<lambda>_.
                    if length cache \<ge> MAX_CACHED_FDS then drm_deinit K amdgpu_dev (op_fail ENOMEM)
                    else op_ret (dfd, cache @ [\<lparr>cf_gpu = gpu_id p, cf_fd = dfd, cf_dev = amdgpu_dev\<rparr>])))))))"

section \<open>Scratch and trap handler\<close>

record device =
  dv_info :: node_info
  drm_fd :: int
  gpuvm_base :: u64
  gpuvm_limit :: u64
  scratch_aperture_base :: u64
  scratch_aperture_limit :: u64
  doorbells :: buffer
  trap_tba :: buffer
  trap_tma :: buffer
  trap_code :: bytes            \<comment> \<open>what the host wrote to \<^verbatim>\<open>trap_tba\<close>\<close>
  scratch_reservation :: region
  scratch_allocator :: pool

definition md_of :: "node_info \<Rightarrow> int \<Rightarrow> mem_dev" where
  "md_of info fd = \<lparr>md_gpu = gpu_id (props info), md_host_visible = vram_host_visible info, md_render_fd = fd\<rparr>"

abbreviation mem_dev_of :: "device \<Rightarrow> mem_dev" where
  "mem_dev_of dv \<equiv> md_of (dv_info dv) (drm_fd dv)"

definition init_scratch :: "kernel \<Rightarrow> u32 \<Rightarrow> u64 \<Rightarrow> region op" where
  "init_scratch K gpu pool_size =
     op_try (region_reserve_aligned K pool_size PRIVATE_SEGMENT_ALIGN) (\<lambda>reservation.
     on_error (region_destroy K reservation) (
     op_try (sys K (SetScratchVa (drop_bit 16 (rg_addr reservation)) gpu)) (\<lambda>_. op_ret reservation)))"

type_synonym trap_image = "u64 \<times> bytes"

definition image_mach :: "trap_image \<Rightarrow> u32" where
  "image_mach img = e_flags (ehdr_of (take sizeof_Ehdr (snd img))) AND EF_AMDGPU_MACH"

fun find_image :: "u32 \<Rightarrow> u32 \<Rightarrow> trap_image option \<Rightarrow> trap_image list \<Rightarrow> trap_image option" where
  "find_image target generic fallback [] = fallback"
| "find_image target generic fallback (img # imgs) =
     (if length (snd img) < sizeof_Ehdr then find_image target generic fallback imgs
      else if image_mach img = target then Some img
      else find_image target generic
             (if generic \<noteq> 0 \<and> image_mach img = generic then Some img else fallback) imgs)"

definition find_trap_image :: "u32 \<Rightarrow> trap_image list \<Rightarrow> trap_image option" where
  "find_trap_image gfx imgs = find_image (get_mach gfx) (get_generic_for_gpu gfx) None imgs"

text \<open>
  The pages of the code buffer are new and zero; the result is the code buffer, the scratch buffer
  of the handler, and what was written to the code buffer.
\<close>

definition setup_trap_handler ::
    "kernel \<Rightarrow> u64 \<Rightarrow> trap_image list \<Rightarrow> node_info \<Rightarrow> int \<Rightarrow> (buffer \<times> buffer \<times> bytes) op" where
  "setup_trap_handler K page images info fd =
     (let md = md_of info fd
      in case find_trap_image (gfx_target_version (props info)) images of
           None \<Rightarrow> op_fail ENOENT
         | Some (addr, data) \<Rightarrow>
             op_try (op_res (elf_create addr data)) (\<lambda>obj.
             op_try (op_res (load_extent obj)) (\<lambda>(lo, hi, _).
             op_try (allocate_mapped K page md (hi - lo) GTT (MF_WRITABLE OR MF_EXECUTABLE OR MF_HOST_ACCESS)) (\<lambda>code.
             on_error (buffer_drop K code) (
             op_try (op_res (kfd_try (phdrs obj) (\<lambda>phs. copy_segments obj lo (hi - lo) phs (replicate (unat (hi - lo)) 0)))) (\<lambda>bytes.
             op_try (allocate_mapped K page md page GTT (MF_WRITABLE OR MF_HOST_ACCESS)) (\<lambda>tma.
             on_error (buffer_drop K tma) (
             op_try (op_res (elf_header obj)) (\<lambda>hd.
             op_try (sys K (SetTrapHandler (rg_addr (b_mapping code) + (e_entry hd - lo)) (rg_addr (b_mapping tma)) (md_gpu md))) (\<lambda>_.
             op_ret (code, tma, bytes)))))))))))"

section \<open>Creation\<close>

text \<open>An aperture record of the kernel: five of its words. Records the kernel did not write are zero.\<close>

record aperture =
  ap_gpu :: u32
  ap_gpuvm_base :: u64
  ap_gpuvm_limit :: u64
  ap_scratch_base :: u64
  ap_scratch_limit :: u64

definition aperture_at :: "u64 list \<Rightarrow> nat \<Rightarrow> aperture" where
  "aperture_at out i =
     \<lparr>ap_gpu = ucast (out_word out (5 * i)), ap_gpuvm_base = out_word out (5 * i + 1),
      ap_gpuvm_limit = out_word out (5 * i + 2), ap_scratch_base = out_word out (5 * i + 3),
      ap_scratch_limit = out_word out (5 * i + 4)\<rparr>"

definition sizeof_aperture :: u64 where "sizeof_aperture = 56"

definition CACHE_POLICY_COHERENT :: u32 where "CACHE_POLICY_COHERENT = 0"
definition CACHE_POLICY_NONCOHERENT :: u32 where "CACHE_POLICY_NONCOHERENT = 1"

definition device_init ::
    "(u64 \<Rightarrow> bool) \<Rightarrow> kernel \<Rightarrow> u64 \<Rightarrow> trap_image list \<Rightarrow> node_info \<Rightarrow> int \<Rightarrow> device op" where
  "device_init mal K page images info rfd =
     (let gpu = gpu_id (props info)
      in op_try (sys K (GetApertures 0)) (\<lambda>cnt.
         let total = ucast (out_word cnt 0) :: u32
         in op_try (vec_reserve K sizeof_aperture 8 (unat total)) (\<lambda>_.
            op_try (sys K (GetApertures total)) (\<lambda>out.
            op_try (mutex_box K) (\<lambda>_.
            case find (\<lambda>a. ap_gpu a = gpu) (map (aperture_at out) [0..<unat total]) of
              None \<Rightarrow> op_fail ENODEV
            | Some a \<Rightarrow>
                op_try (sys K (SetMemoryPolicy (ap_gpuvm_base a) (ap_gpuvm_limit a - ap_gpuvm_base a + 1) gpu
                   CACHE_POLICY_NONCOHERENT CACHE_POLICY_COHERENT)) (\<lambda>_.
                op_when (ap_scratch_limit a < ap_scratch_base a) ERANGE (
                op_try (init_scratch K gpu (ap_scratch_limit a - ap_scratch_base a + 1)) (\<lambda>reservation.
                on_error (region_destroy K reservation) (
                op_try (op_res (pool_create mal (rg_addr reservation) (rg_len reservation) PRIVATE_SEGMENT_ALIGN)) (\<lambda>pool.
                op_try (setup_trap_handler K page images info rfd) (\<lambda>(tba, tma, code).
                op_ret \<lparr>dv_info = info, drm_fd = rfd, gpuvm_base = ap_gpuvm_base a, gpuvm_limit = ap_gpuvm_limit a,
                  scratch_aperture_base = ap_scratch_base a, scratch_aperture_limit = ap_scratch_limit a,
                  doorbells = null_buffer, trap_tba = tba, trap_tma = tma, trap_code = code,
                  scratch_reservation = reservation, scratch_allocator = pool\<rparr>)))))))))))"

text \<open>The cache outlives a creation that fails, so it is part of every outcome.\<close>

definition device_create ::
    "(u64 \<Rightarrow> bool) \<Rightarrow> kernel \<Rightarrow> u64 \<Rightarrow> trap_image list \<Rightarrow> cached_fd list \<Rightarrow> node_info \<Rightarrow> (device res \<times> cached_fd list) op" where
  "device_create mal K page images cache info =
     op_catch (open_render_fd K cache (props info)) (\<lambda>e. op_ret (Inl e, cache)) (\<lambda>(rfd, cache').
     op_catch (device_init mal K page images info rfd) (\<lambda>e. op_ret (Inl e, cache')) (\<lambda>dv. op_ret (Inr dv, cache')))"

text \<open>The members are destroyed in the reverse order of their declaration.\<close>

definition device_drop :: "kernel \<Rightarrow> device \<Rightarrow> unit op" where
  "device_drop K dv =
     op_try (region_destroy K (scratch_reservation dv)) (\<lambda>_.
     op_try (buffer_drop K (trap_tma dv)) (\<lambda>_.
     op_try (buffer_drop K (trap_tba dv)) (\<lambda>_. buffer_drop K (doorbells dv))))"

text \<open>The new device and what is left of the old one.\<close>

definition device_move :: "device \<Rightarrow> device \<times> device" where
  "device_move other =
     (other, other\<lparr>dv_info := (dv_info other)\<lparr>memory_banks := [], caches := [], io_links := []\<rparr>, drm_fd := - 1, doorbells := null_buffer, trap_tba := null_buffer, trap_tma := null_buffer,
        trap_code := [], scratch_reservation := null_region,
        scratch_allocator := (scratch_allocator other)\<lparr>free_list := sv_empty 8 sizeof_Block\<rparr>\<rparr>)"

section \<open>Doorbells\<close>

definition DOORBELL_PAGE_SIZE :: u64 where "DOORBELL_PAGE_SIZE = 8192"
definition MF_DOORBELL :: u32 where "MF_DOORBELL = 0x8"

definition doorbell_page :: "kernel \<Rightarrow> int \<Rightarrow> device \<Rightarrow> u64 \<Rightarrow> buffer op" where
  "doorbell_page K kfd dv raw_offset =
     (let gpu = gpu_id (props (dv_info dv))
      in op_try (region_reserve K DOORBELL_PAGE_SIZE 0) (\<lambda>reservation.
         op_try (on_error (region_destroy K reservation) (
           let va = rg_addr reservation
           in op_when (va < gpuvm_base dv \<or> va + DOORBELL_PAGE_SIZE - 1 > gpuvm_limit dv) EFAULT (
              op_try (sys K (AllocMemory va DOORBELL_PAGE_SIZE 0 gpu
                 (MF_DOORBELL OR MF_WRITABLE OR MF_COHERENT OR MF_NO_SUBSTITUTE))) (\<lambda>out.
              op_else (region_rebind K reservation kfd PROT_RW (raw_offset AND NOT (DOORBELL_PAGE_SIZE - 1)))
                (\<lambda>e. op_assert (sys K (FreeMemory (out_word out 0))) (op_fail e))
                (\<lambda>(mapping, _). op_ret (out_word out 0, mapping)))))) (\<lambda>(handle, mapping).
         on_error (region_destroy K mapping) (
         op_try (push_one K 4 2 [] gpu) (\<lambda>(cap, ids).
         op_else (sys K (MapMemory handle ids))
           (\<lambda>e. op_assert (sys K (FreeMemory handle)) (op_fail e))
           (\<lambda>_. op_try (mutex_box K) (\<lambda>_.
                op_ret \<lparr>b_len = DOORBELL_PAGE_SIZE, b_handle = handle, b_mapping = mapping, b_ids = ids, b_cap = cap,
                        b_owner = Some gpu\<rparr>)))))))"

definition device_doorbell :: "kernel \<Rightarrow> int \<Rightarrow> device \<Rightarrow> u64 \<Rightarrow> (u64 \<times> device) op" where
  "device_doorbell K kfd dv raw_offset =
     op_try (if b_handle (doorbells dv) \<noteq> 0 then op_ret dv
             else op_try (doorbell_page K kfd dv raw_offset) (\<lambda>b.
                  op_try (buffer_assign K (doorbells dv) b) (\<lambda>(b', _). op_ret (dv\<lparr>doorbells := b'\<rparr>)))) (\<lambda>dv'.
     op_ret (rg_addr (b_mapping (doorbells dv')) + ucast (ucast (raw_offset AND (DOORBELL_PAGE_SIZE - 1)) :: u32), dv'))"

section \<open>Who owns what\<close>

definition cache_bag :: "cached_fd list \<Rightarrow> token multiset" where
  "cache_bag cs = image_mset (\<lambda>c. Drm (cf_dev c)) (mset cs)"

definition device_bag :: "device \<Rightarrow> token multiset" where
  "device_bag dv = region_bag (scratch_reservation dv) + buffer_bag (trap_tma dv) + buffer_bag (trap_tba dv) +
     buffer_bag (doorbells dv)"

lemma holds_ignored_release:
  assumes "\<And>h r. owned (h @ [(c, r)]) = owned h - {t}" and "holds T U k F"
  shows "holds (T + {#t#}) U (op_else (sys K c) (\<lambda>_. k) (\<lambda>_. k)) F"
proof -
  have "bag (h @ [(c, r)]) = B + T" if "bag h = B + (T + {#t#})" for B h r
    using that bag_minus [of h "B + T" "{t}" "h @ [(c, r)]"] assms(1) by simp
  then show ?thesis using assms(2) unfolding holds_def by (auto simp: op_else_eq sys_eq) blast+
qed

lemma holds_release:
  "holds T U k F \<Longrightarrow> holds (T + {#Fd fd#}) U (close_fd K fd k) F"
  "holds T U k F \<Longrightarrow> holds (T + {#Drm g#}) U (drm_deinit K g k) F"
  unfolding close_fd_def drm_deinit_def by (rule holds_ignored_release; simp add: op_simps)+

lemma holds_is_amdgpu: "holds T U (is_amdgpu K fd) (\<lambda>_. T)"
proof (rule holdsI)
  have n: "neutral (is_amdgpu K fd)" by (auto simp: is_amdgpu_def intro!: own_rules)
  fix B h y h' assume "bag h = B + T" "is_amdgpu K fd h = (Inr y, h')"
  then show "bag h' = B + T" using n by (auto simp: neutral_def bag_def)
qed (auto simp: is_amdgpu_def op_eqs)

text \<open>Opening a render node leaves no descriptor open, and a DRM handle for each cached node.\<close>

lemma holds_open_render_fd:
  assumes "os_contract K"
  shows "holds (cache_bag cache) (cache_bag cache) (open_render_fd K cache p) (\<lambda>(_, c'). cache_bag c')"
proof (cases "0 \<le> find_cached_fd cache (gpu_id p)")
  case True
  then show ?thesis by (simp add: open_render_fd_def holds_ret)
next
  case False
  let ?T = "cache_bag cache" and ?F = "\<lambda>(_ :: int, c'). cache_bag c'"
  note C = os_contractD [OF assms]
  note sober = survives_sys(1) [OF C(4)]
  have failed: "holds (?T + {#Fd fd#}) ?T (close_fd K fd (op_fail e)) ?F" for fd e
    by (rule holds_release(1) [OF holds_fail]) simp
  have deinit: "holds (?T + {#Drm g#}) ?T (drm_deinit K g (op_fail e)) ?F" for g e
    by (rule holds_release(2) [OF holds_fail]) simp
  have bind: "holds (?T + {#Drm g#}) ?T
     (op_else (sys K (AcquireVm a b)) (\<lambda>e. drm_deinit K g (op_fail e))
        (\<lambda>_. if length cache \<ge> MAX_CACHED_FDS then drm_deinit K g (op_fail ENOMEM)
             else op_ret (dfd, cache @ [\<lparr>cf_gpu = gpu_id p, cf_fd = dfd, cf_dev = g\<rparr>]))) ?F" for g a b dfd
  proof (rule holds_else [OF neutral_holds deinit _ sober])
    show "holds (?T + {#Drm g#}) ?T
        (if length cache \<ge> MAX_CACHED_FDS then drm_deinit K g (op_fail ENOMEM)
         else op_ret (dfd, cache @ [\<lparr>cf_gpu = gpu_id p, cf_fd = dfd, cf_dev = g\<rparr>])) ?F"
      using deinit [of g ENOMEM] by (auto intro!: holds_ret simp: cache_bag_def)
  qed (simp add: neutral_basic)
  show ?thesis unfolding open_render_fd_def Let_def if_not_P [OF False]
  proof (rule holds_try [OF holds_calls(4) [OF assms]], rule holds_try [OF holds_is_amdgpu])
    fix opened amd
    let ?rfd = "out_fd opened"
    let ?after = "\<lambda>drm. close_fd K ?rfd (op_else (sys K (AcquireVm (of_int (sint (ucast (out_word drm 1) :: u32))) (gpu_id p)))
            (\<lambda>e. drm_deinit K (out_word drm 0) (op_fail e))
            (\<lambda>_. if length cache \<ge> MAX_CACHED_FDS then drm_deinit K (out_word drm 0) (op_fail ENOMEM)
                 else op_ret (sint (ucast (out_word drm 1) :: u32),
                   cache @ [\<lparr>cf_gpu = gpu_id p, cf_fd = sint (ucast (out_word drm 1) :: u32), cf_dev = out_word drm 0\<rparr>])))"
    have after: "holds (?T + {#Fd ?rfd#} + {#Drm (out_word drm 0)#}) ?T (?after drm) ?F" for drm
      using holds_release(1) [OF bind [of "out_word drm 0"]] by (simp only: ac_simps)
    have "holds (?T + {#Fd ?rfd#}) ?T
        (op_else (sys K (DrmInit ?rfd)) (\<lambda>_. close_fd K ?rfd (op_fail ENODEV)) ?after) ?F"
      by (rule holds_else [OF holds_calls(5) [OF assms] failed after sober])
    with failed show "holds (?T + {#Fd ?rfd#}) ?T
       (if \<not> amd then close_fd K ?rfd (op_fail ENODEV)
        else op_else (sys K (DrmInit ?rfd)) (\<lambda>_. close_fd K ?rfd (op_fail ENODEV)) ?after) ?F"
      by (cases amd) (simp_all only: not_True_eq_False not_False_eq_True if_True if_False)
  qed
qed

text \<open>A node is opened once: the second request is answered from the cache.\<close>

lemma find_cached_append:
  "find_cached_fd (cs @ [c]) gpu = (if gpu \<in> cf_gpu ` set cs then find_cached_fd cs gpu
     else if cf_gpu c = gpu then cf_fd c else - 1)"
  by (induction cs) auto

lemma render_node_opened_once:
  assumes "\<And>c. c \<in> set cache \<Longrightarrow> 0 \<le> cf_fd c" and "open_render_fd K cache p h = (Inr (fd, cache'), h')" and "0 \<le> fd"
  shows "open_render_fd K cache' p h2 = (Inr (fd, cache'), h2)"
proof (cases "0 \<le> find_cached_fd cache (gpu_id p)")
  case True
  with assms(2) have "cache' = cache" "fd = find_cached_fd cache (gpu_id p)"
    by (auto simp: open_render_fd_def op_eqs Let_def)
  with True show ?thesis by (simp add: open_render_fd_def op_eqs Let_def)
next
  case False
  have "gpu_id p \<notin> cf_gpu ` set cache"
  proof
    assume "gpu_id p \<in> cf_gpu ` set cache"
    then have "0 \<le> find_cached_fd cache (gpu_id p)" using assms(1) by (induction cache) auto
    with False show False by simp
  qed
  moreover obtain g where "cache' = cache @ [\<lparr>cf_gpu = gpu_id p, cf_fd = fd, cf_dev = g\<rparr>]"
    using assms(2) False
    by (auto simp: open_render_fd_def op_eqs Let_def close_fd_def drm_deinit_def split: if_splits)
  ultimately show ?thesis using assms(3) by (simp add: open_render_fd_def find_cached_append op_eqs Let_def)
qed

text \<open>The image chosen is the first built for the target, else the last one for its family.\<close>

lemma find_image_target:
  "find_image t g fb imgs =
     (case find (\<lambda>i. sizeof_Ehdr \<le> length (snd i) \<and> image_mach i = t) imgs of
        Some i \<Rightarrow> Some i
      | None \<Rightarrow>
          (case find (\<lambda>i. sizeof_Ehdr \<le> length (snd i) \<and> g \<noteq> 0 \<and> image_mach i = g) (rev imgs) of
             Some i \<Rightarrow> Some i | None \<Rightarrow> fb))"
proof (induction imgs arbitrary: fb)
  case (Cons i imgs)
  have last: "find P (xs @ [x]) = (case find P xs of Some y \<Rightarrow> Some y | None \<Rightarrow> if P x then Some x else None)"
    for P xs and x :: trap_image by (induction xs) auto
  show ?case using Cons by (auto simp: last not_less split: option.splits)
qed simp

lemma holds_trap_handler:
  assumes "os_contract K"
  shows "holds {#} {#} (setup_trap_handler K page images info fd) (\<lambda>(tba, tma, _). buffer_bag tba + buffer_bag tma)"
proof (cases "find_trap_image (gfx_target_version (props info)) images")
  case None
  then show ?thesis by (simp add: setup_trap_handler_def holds_fail)
next
  case (Some img)
  obtain addr data where img: "img = (addr, data)" by fastforce
  note scope = holds_scope [OF holds_allocate_mapped [OF assms] drops_buffer]
  show ?thesis unfolding setup_trap_handler_def Let_def Some img option.case prod.case
    apply (rule holds_neutral [OF neutral_basic(3)])
    apply (rule holds_neutral [OF neutral_basic(3)])
    apply (clarsimp simp del: empty_neutral)
    apply (rule scope)
    apply (rule holds_neutral [OF neutral_basic(3)])
    apply (rule scope)
    apply (rule holds_neutral [OF neutral_basic(3)])
    apply (rule holds_neutral [OF neutral_basic(4)], simp)
    apply (rule holds_ret, simp)
    done
qed

text \<open>No scratch aperture is the whole address space: its size would be zero.\<close>

definition sane_apertures :: "kernel \<Rightarrow> bool" where
  "sane_apertures K \<longleftrightarrow>
     (\<forall>h n out i. K h (GetApertures n) = Done out \<longrightarrow>
        ap_scratch_limit (aperture_at out i) - ap_scratch_base (aperture_at out i) + 1 \<noteq> 0)"

lemma holds_init_scratch:
  assumes "os_contract K" and "sz \<noteq> 0"
  shows "holds {#} {#} (init_scratch K gpu sz) region_bag"
proof -
  have r: "holds {#} {#} (region_reserve_aligned K sz PRIVATE_SEGMENT_ALIGN) region_bag"
    using holds_reserve_aligned [OF os_contractD(1) [OF assms(1)], of 16 sz] assms(2)
    by (simp add: PRIVATE_SEGMENT_ALIGN_def word_neq_0_conv)
  show ?thesis unfolding init_scratch_def
    by (rule holds_scope [OF r drops_region], rule holds_neutral [OF neutral_basic(4)], simp, rule holds_ret, simp)
qed

lemma holds_device_init:
  assumes "os_contract K" and "sane_apertures K"
  shows "holds {#} {#} (device_init mal K page images info rfd) device_bag"
proof -
  have main: "holds {#} {#} (op_try (init_scratch K gpu sz) (\<lambda>reservation.
      on_error (region_destroy K reservation) (
      op_try (op_res (pool_create mal (rg_addr reservation) (rg_len reservation) PRIVATE_SEGMENT_ALIGN)) (\<lambda>pool.
      op_try (setup_trap_handler K page images info rfd) (\<lambda>(tba, tma, code). op_ret (mk reservation pool tba tma code)))))) device_bag"
    if sz: "sz \<noteq> 0" and mk: "\<And>r pl tba tma code. device_bag (mk r pl tba tma code) = region_bag r + buffer_bag tma + buffer_bag tba"
    for gpu sz mk
    apply (rule holds_scope [OF holds_init_scratch [OF assms(1) sz] drops_region])
    apply (rule holds_neutral [OF neutral_basic(3)])
    apply (rule holds_try [OF holds_gain [OF holds_trap_handler [OF assms(1)]]], rule refl)
    apply (auto intro!: holds_ret simp: mk ac_simps)
    done
  have found: "ap_scratch_limit a - ap_scratch_base a + 1 \<noteq> 0"
    if "find P (map (aperture_at out) idx) = Some a" and "yields (sys K (GetApertures n)) out" for n out P idx a
  proof -
    have "\<exists>h. K h (GetApertures n) = Done out" using that(2) by (auto simp: yields_def sys_eq)
    moreover have "\<exists>i. a = aperture_at out i" using that(1) by (auto simp: find_Some_iff)
    ultimately show ?thesis using assms(2) unfolding sane_apertures_def by blast
  qed
  show ?thesis unfolding device_init_def Let_def
    apply (rule holds_neutral [OF neutral_basic(4)], simp)
    apply (rule holds_neutral [OF neutral_heap(1)])
    apply (rule holds_neutral [OF neutral_basic(4)], simp)
    apply (rule holds_neutral [OF neutral_heap(2)])
    apply (split option.split, intro conjI impI allI)
     apply (rule holds_fail, simp)
    apply (rule holds_neutral [OF neutral_basic(4)], simp)
    apply (rule holds_when, simp)
    apply (rule main)
     apply (erule found, assumption)
    apply (simp add: device_bag_def ac_simps)
    done
qed

lemma drops_device: "drops (device_bag dv) (device_drop K dv)"
  unfolding device_drop_def device_bag_def add.assoc
  by (intro drops_seq drops_region drops_buffer)

text \<open>
  The outcome of a creation: what the process owned before, the cached render nodes, and the
  device if there is one.
\<close>

lemma holds_device_create:
  assumes "os_contract K" and "sane_apertures K"
  shows "holds (cache_bag cache) U (device_create mal K page images cache info)
    (\<lambda>(r, c'). cache_bag c' + (case r of Inl _ \<Rightarrow> {#} | Inr dv \<Rightarrow> device_bag dv))"
  unfolding device_create_def
proof (rule holds_catch [OF holds_open_render_fd [OF assms(1)]])
  fix p :: "int \<times> cached_fd list"
  obtain fd c where p: "p = (fd, c)" by fastforce
  have i: "holds (cache_bag c) (cache_bag c) (device_init mal K page images info fd) (\<lambda>dv. cache_bag c + device_bag dv)"
    by (rule holds_gain [OF holds_device_init [OF assms]]) simp
  show "holds (case p of (_, c') \<Rightarrow> cache_bag c') U (case p of (rfd, cache') \<Rightarrow>
      op_catch (device_init mal K page images info rfd) (\<lambda>e. op_ret (Inl e, cache')) (\<lambda>dv. op_ret (Inr dv, cache')))
      (\<lambda>(r, c'). cache_bag c' + (case r of Inl _ \<Rightarrow> {#} | Inr dv \<Rightarrow> device_bag dv))"
    unfolding p prod.case by (rule holds_catch [OF i]; rule holds_ret; simp)
qed (rule holds_ret, simp)

section \<open>The doorbell page\<close>

lemma holds_doorbell_page:
  assumes "os_contract K"
  shows "holds {#} {#} (doorbell_page K kfd dv raw) buffer_bag"
proof -
  note C = os_contractD [OF assms]
  note sober = survives_sys [OF C(4)]
  have free: "holds (T + {#Obj g#}) T (op_assert (sys K (FreeMemory g)) (op_fail e)) F" for T g e and F :: "'b \<Rightarrow> _"
    by (subst op_assert_try, rule holds_drop [OF drops_calls(1) holds_fail]) simp
  show ?thesis unfolding doorbell_page_def Let_def
  proof (rule holds_try [OF holds_region_reserve [OF C(1)]])
    fix r assume "yields (region_reserve K DOORBELL_PAGE_SIZE 0) r"
    then have a: "rg_addr r \<noteq> 0" using reserved_region [OF C(1)] by blast
    let ?gpu = "gpu_id (props (dv_info dv))"
    let ?alloc = "AllocMemory (rg_addr r) DOORBELL_PAGE_SIZE 0 ?gpu
       (MF_DOORBELL OR MF_WRITABLE OR MF_COHERENT OR MF_NO_SUBSTITUTE)"
    let ?first = "op_when (rg_addr r < gpuvm_base dv \<or> rg_addr r + DOORBELL_PAGE_SIZE - 1 > gpuvm_limit dv) EFAULT (
        op_try (sys K ?alloc) (\<lambda>out.
        op_else (region_rebind K r kfd PROT_RW (raw AND NOT (DOORBELL_PAGE_SIZE - 1)))
          (\<lambda>e. op_assert (sys K (FreeMemory (out_word out 0))) (op_fail e))
          (\<lambda>(mapping, _). op_ret (out_word out 0, mapping))))"
    have first: "holds (region_bag r) (region_bag r) ?first (\<lambda>(g, m). region_bag m + {#Obj g#})"
    proof (rule holds_when, rule refl, rule holds_try [OF holds_calls(1) [OF assms]])
      fix out
      have rb: "holds (region_bag r + {#Obj (out_word out 0)#}) (region_bag r + {#Obj (out_word out 0)#})
          (region_rebind K r kfd PROT_RW off) (\<lambda>(m, _). region_bag m + {#Obj (out_word out 0)#})" for off
        by (rule holds_post [OF holds_frame [OF holds_rebind [OF C(1) a]]]) auto
      show "holds (region_bag r + {#Obj (out_word out 0)#}) (region_bag r)
          (op_else (region_rebind K r kfd PROT_RW (raw AND NOT (DOORBELL_PAGE_SIZE - 1)))
            (\<lambda>e. op_assert (sys K (FreeMemory (out_word out 0))) (op_fail e))
            (\<lambda>(mapping, _). op_ret (out_word out 0, mapping))) (\<lambda>(g, m). region_bag m + {#Obj g#})"
        by (rule holds_else [OF rb free _ sober(2)]) (auto intro!: holds_ret)
    qed
    have first': "holds (region_bag r) {#} (on_error (region_destroy K r) ?first) (\<lambda>(g, m). region_bag m + {#Obj g#})"
      by (rule holds_on_error [OF _ drops_region]) (use first in simp)
    show "holds (region_bag r) {#} (op_try (on_error (region_destroy K r) ?first) (\<lambda>(handle, mapping).
         on_error (region_destroy K mapping) (
         op_try (push_one K 4 2 [] ?gpu) (\<lambda>(cap, ids).
         op_else (sys K (MapMemory handle ids))
           (\<lambda>e. op_assert (sys K (FreeMemory handle)) (op_fail e))
           (\<lambda>_. op_try (mutex_box K) (\<lambda>_.
                op_ret \<lparr>b_len = DOORBELL_PAGE_SIZE, b_handle = handle, b_mapping = mapping, b_ids = ids, b_cap = cap,
                        b_owner = Some ?gpu\<rparr>)))))) buffer_bag"
    proof (rule holds_try [OF first'])
      fix p assume y: "yields (on_error (region_destroy K r) ?first) p"
      obtain g m where p: "p = (g, m)" by fastforce
      have g: "g \<noteq> 0" using y C(9) unfolding p
        by (auto simp: yields_def on_error_eq op_eqs split: prod.splits if_splits)
      have tail: "holds (region_bag m + {#Obj g#}) (region_bag m) (op_try (mutex_box K) (\<lambda>_. op_ret b)) buffer_bag"
        if "b_handle b = g" "b_mapping b = m" for b
      proof (rule holdsI)
        fix B h y h' assume "bag h = B + (region_bag m + {#Obj g#})" "op_try (mutex_box K) (\<lambda>_. op_ret b) h = (Inr y, h')"
        then show "bag h' = B + buffer_bag y"
          using g that by (auto simp: mutex_box_def op_eqs buffer_bag_def bag_def owned_snoc token_step_inert)
      next
        fix B h e h' assume "op_try (mutex_box K) (\<lambda>_. op_ret b) h = (Inl e, h')"
        then show "bag h' = B + region_bag m" using C(5) [of h] by (auto simp: mutex_box_def op_eqs)
      qed
      have push: "push_one K 4 2 [] x = op_ret (2, [x])" for x :: u32 by (simp add: push_one_def)
      show "holds (case p of (g, m) \<Rightarrow> region_bag m + {#Obj g#}) {#} (case p of (handle, mapping) \<Rightarrow>
         on_error (region_destroy K mapping) (
         op_try (push_one K 4 2 [] ?gpu) (\<lambda>(cap, ids).
         op_else (sys K (MapMemory handle ids))
           (\<lambda>e. op_assert (sys K (FreeMemory handle)) (op_fail e))
           (\<lambda>_. op_try (mutex_box K) (\<lambda>_.
                op_ret \<lparr>b_len = DOORBELL_PAGE_SIZE, b_handle = handle, b_mapping = mapping, b_ids = ids, b_cap = cap,
                        b_owner = Some ?gpu\<rparr>))))) buffer_bag"
        unfolding p prod.case push
      proof (rule holds_on_error [OF _ drops_region], simp only: empty_neutral,
          rule holds_try [where R = "\<lambda>_. region_bag m + {#Obj g#}"])
        show "holds (region_bag m + {#Obj g#}) (region_bag m) (op_ret (2, [?gpu])) (\<lambda>_. region_bag m + {#Obj g#})"
          by (rule holds_ret) simp
        fix q :: "nat \<times> u32 list"
        show "holds (region_bag m + {#Obj g#}) (region_bag m) (case q of (cap, ids) \<Rightarrow>
          op_else (sys K (MapMemory g ids)) (\<lambda>e. op_assert (sys K (FreeMemory g)) (op_fail e))
           (\<lambda>_. op_try (mutex_box K) (\<lambda>_.
                op_ret \<lparr>b_len = DOORBELL_PAGE_SIZE, b_handle = g, b_mapping = m, b_ids = ids, b_cap = cap,
                        b_owner = Some ?gpu\<rparr>))) buffer_bag"
          by (cases q, simp only: prod.case)
            (rule holds_else [OF neutral_holds [OF neutral_basic(4)] free tail sober(1)]; simp)
      qed
    qed
  qed
qed

lemma holds_doorbell:
  assumes "os_contract K"
  shows "holds (device_bag dv) (device_bag dv) (device_doorbell K kfd dv raw) (\<lambda>(_, dv'). device_bag dv')"
proof -
  let ?D = "region_bag (scratch_reservation dv) + buffer_bag (trap_tma dv) + buffer_bag (trap_tba dv)"
  have d: "device_bag dv = ?D + buffer_bag (doorbells dv)" by (simp add: device_bag_def)
  have new: "holds (device_bag dv) (device_bag dv) (op_try (doorbell_page K kfd dv raw) (\<lambda>b.
      op_try (buffer_assign K (doorbells dv) b) (\<lambda>(b', _). op_ret (dv\<lparr>doorbells := b'\<rparr>)))) device_bag"
  proof (rule holds_try [OF holds_gain [OF holds_doorbell_page [OF assms]]], rule refl)
    fix b
    have a: "holds (device_bag dv + buffer_bag b) (device_bag dv) (buffer_assign K (doorbells dv) b) (\<lambda>(b', _). ?D + buffer_bag b')"
      unfolding d add.assoc
      using holds_frame [OF holds_buffer_assign [of "doorbells dv" b "buffer_bag (doorbells dv)" K], of ?D]
      by (simp add: ac_simps case_prod_unfold)
    show "holds (device_bag dv + buffer_bag b) (device_bag dv) (op_try (buffer_assign K (doorbells dv) b)
        (\<lambda>(b', _). op_ret (dv\<lparr>doorbells := b'\<rparr>))) device_bag"
      by (rule holds_try [OF a]) (auto intro!: holds_ret simp: device_bag_def)
  qed
  show ?thesis unfolding device_doorbell_def
  proof (rule holds_try)
    show "holds (device_bag dv) (device_bag dv) (if b_handle (doorbells dv) \<noteq> 0 then op_ret dv
        else op_try (doorbell_page K kfd dv raw) (\<lambda>b.
          op_try (buffer_assign K (doorbells dv) b) (\<lambda>(b', _). op_ret (dv\<lparr>doorbells := b'\<rparr>)))) device_bag"
      using new by (auto intro: holds_ret)
  qed (rule holds_ret, simp)
qed

text \<open>The page is mapped once, and a slot is the offset in it.\<close>

lemma doorbell_mapped_once:
  assumes "b_handle (doorbells dv) \<noteq> 0"
  shows "device_doorbell K kfd dv raw h =
    (Inr (rg_addr (b_mapping (doorbells dv)) + ucast (ucast (raw AND 0x1FFF) :: u32), dv), h)"
  using assms by (simp add: device_doorbell_def op_try_def op_ret_def DOORBELL_PAGE_SIZE_def)


definition demo_node :: node_info where
  "demo_node = \<lparr>props = empty_properties\<lparr>gpu_id := 1, gfx_target_version := 110000, drm_render_minor := 128\<rparr>,
     memory_banks = [], caches = [], io_links = []\<rparr>"

text \<open>A handler of eight bytes for GFX11, and the creation of a device with it.\<close>

definition demo_trap :: bytes where
  "demo_trap =
     ELFMAG @ [2, 1, 1, 64, 3, 0, 0, 0, 0, 0, 0, 0]
     @ le_bytes 2 (3 :: u16) @ le_bytes 2 (224 :: u16) @ le_bytes 4 (1 :: u32) @ le_bytes 8 (4 :: u64)
     @ le_bytes 8 (64 :: u64) @ le_bytes 8 (0 :: u64) @ le_bytes 4 (0x41 :: u32)
     @ le_bytes 2 (64 :: u16) @ le_bytes 2 (56 :: u16) @ le_bytes 2 (1 :: u16)
     @ le_bytes 2 (64 :: u16) @ le_bytes 2 (0 :: u16) @ le_bytes 2 (0 :: u16)
     @ le_bytes 4 (1 :: u32) @ le_bytes 4 (5 :: u32) @ le_bytes 8 (120 :: u64) @ le_bytes 8 (0 :: u64)
     @ le_bytes 8 (0 :: u64) @ le_bytes 8 (8 :: u64) @ le_bytes 8 (8 :: u64) @ le_bytes 8 (4096 :: u64)
     @ [1, 2, 3, 4, 5, 6, 7, 8]"

lemma demo_sane: "sane_apertures fresh_kernel"
  unfolding sane_apertures_def
proof (intro allI impI)
  fix h n out i assume a: "fresh_kernel h (GetApertures n) = Done out"
  let ?a = "aperture_at out i"
  have "out = [1] \<or> out = [1, 0x1000, 0x7fffffffffff, 0x2000000, 0x20fffff]"
    using a by (auto simp: fresh_kernel_def split: if_splits)
  then have "ap_scratch_limit ?a = 0 \<and> ap_scratch_base ?a = 0 \<or> ap_scratch_limit ?a = 0x20fffff \<and> ap_scratch_base ?a = 0x2000000"
    by (cases i) (auto simp: aperture_at_def out_word_def)
  then show "ap_scratch_limit ?a - ap_scratch_base ?a + 1 \<noteq> 0" by auto
qed

definition demo_create :: "(device res \<times> cached_fd list) op" where
  "demo_create = device_create (\<lambda>_. True) fresh_kernel 0x1000 [(0, demo_trap)] [] demo_node"

definition demo_life :: "(bytes \<times> u64 \<times> cached_fd list) op" where
  "demo_life = op_try demo_create (\<lambda>(r, c). case r of Inl e \<Rightarrow> op_fail e
     | Inr dv \<Rightarrow> op_try (device_doorbell fresh_kernel 3 dv 0x4008) (\<lambda>(s, dv').
         op_try (device_drop fresh_kernel dv') (\<lambda>_. op_ret (trap_code dv, s, c))))"

lemma demo_device: "fst (demo_life []) = Inr ([1, 2, 3, 4, 5, 6, 7, 8], 0x152007, [\<lparr>cf_gpu = 1, cf_fd = 200, cf_dev = 1\<rparr>])"
  by code_simp


end
