(* ===== verification/Watcher.thy ===== *)
theory Watcher
  imports Fresh_Kernel
begin

text \<open>
  The fault watcher of \<^verbatim>\<open>lib/context.cpp\<close>: the thread that sleeps until the device reports a
  fault or a watched event fires, and the operations by which other threads start it, change its
  watches and stop it. The last section puts the thread and its clients together as a step
  relation and proves that no change of the watches is slept through.
\<close>

section \<open>State\<close>

text \<open>
  The callbacks the library registers, with their \<^verbatim>\<open>user_data\<close>: the address of the error payload
  of a queue, and the address of its \<^verbatim>\<open>ScratchCtx\<close>.
\<close>

datatype watch_callback = On_queue_error u64 | On_scratch u64

record watch_entry =
  we_event :: u64                  \<comment> \<open>the address of the \<^verbatim>\<open>Event\<close>\<close>
  we_callback :: watch_callback
  we_event_id :: u32

record fault_watcher =
  fw_addr :: u64
  fw_mem :: event
  fw_hw :: event
  fw_wake :: event
  fw_exit :: bool
  fw_tid :: int
  fw_stack :: region
  fw_watches :: "watch_entry list"
  fw_cap :: nat

definition WATCHER_STACK_SIZE :: u64 where "WATCHER_STACK_SIZE = 64 * 1024"
definition MAP_STACK :: u32 where "MAP_STACK = 0x20000"

definition sizeof_FaultWatcher :: u64 where "sizeof_FaultWatcher = 520"
definition sizeof_WatchEntry :: u64 where "sizeof_WatchEntry = 32"

text \<open>The address of the member \<^verbatim>\<open>tid\<close>, which the kernel clears when the thread ends.\<close>

definition tid_addr :: "fault_watcher \<Rightarrow> u64" where "tid_addr w = fw_addr w + 220"

definition box_alloc :: "kernel \<Rightarrow> u64 \<Rightarrow> u64 op" where
  "box_alloc K n = op_else (sys K (Malloc n)) (\<lambda>_. op_fail ENOMEM) (\<lambda>out. op_ret (out_word out 0))"

section \<open>Starting and stopping\<close>

definition start_fault_watcher :: "kernel \<Rightarrow> int \<Rightarrow> signal_pages \<Rightarrow> fault_watcher op" where
  "start_fault_watcher K kfd pages =
     op_try (event_create K kfd pages MEMORY) (\<lambda>mem. on_error (event_drop K mem) (
     op_try (event_create K kfd pages HW_EXCEPTION) (\<lambda>hw. on_error (event_drop K hw) (
     op_try (event_create K kfd pages SIGNAL) (\<lambda>wake. on_error (event_drop K wake) (
     op_try (region_create K WATCHER_STACK_SIZE PROT_RW (MAP_PRIVATE OR MAP_ANONYMOUS OR MAP_STACK)) (\<lambda>stack.
     on_error (region_destroy K stack) (
     op_try (box_alloc K sizeof_FaultWatcher) (\<lambda>addr.
     op_try (sys K (Clone (rg_addr stack + WATCHER_STACK_SIZE))) (\<lambda>child.
     op_ret \<lparr>fw_addr = addr, fw_mem = mem, fw_hw = hw, fw_wake = wake, fw_exit = False,
       fw_tid = sint (ucast (out_word child 0) :: u32), fw_stack = stack, fw_watches = [], fw_cap = 8\<rparr>))))))))))"

text \<open>A load from mapped memory has no error to report.\<close>

definition load32 :: "kernel \<Rightarrow> u64 \<Rightarrow> u32 op" where
  "load32 K a = op_else (sys K (Load32 a)) (\<lambda>_. op_fail UB) (\<lambda>out. op_ret (ucast (out_word out 0)))"

text \<open>The wait for the end of the thread; a poll is one turn of the loop.\<close>

fun join_thread :: "kernel \<Rightarrow> u64 \<Rightarrow> nat \<Rightarrow> unit op" where
  "join_thread K tid 0 = op_fail HANGS"
| "join_thread K tid (Suc n) =
     op_try (load32 K tid) (\<lambda>val.
       if val = 0 then op_ret ()
       else op_else (sys K (FutexWait tid val)) (\<lambda>_. join_thread K tid n) (\<lambda>_. join_thread K tid n))"

definition stop_thread :: "kernel \<Rightarrow> nat \<Rightarrow> fault_watcher \<Rightarrow> unit op" where
  "stop_thread K polls w =
     (if fw_tid w \<noteq> 0 then op_assert (event_signal K (fw_wake w)) (join_thread K (tid_addr w) polls) else op_ret ())"

definition fault_watcher_drop :: "kernel \<Rightarrow> nat \<Rightarrow> fault_watcher \<Rightarrow> unit op" where
  "fault_watcher_drop K polls w =
     op_try (stop_thread K polls w) (\<lambda>_.
     op_try (region_destroy K (fw_stack w)) (\<lambda>_.
     op_try (event_drop K (fw_wake w)) (\<lambda>_.
     op_try (event_drop K (fw_hw w)) (\<lambda>_. event_drop K (fw_mem w)))))"

section \<open>Watches\<close>

text \<open>Both operations hold \<^verbatim>\<open>watch_mtx\<close>. A change of the list stays when the wake-up fails.\<close>

definition push_watch :: "kernel \<Rightarrow> u64 \<Rightarrow> event \<Rightarrow> watch_callback \<Rightarrow> fault_watcher \<Rightarrow> fault_watcher op" where
  "push_watch K p ev cb w =
     op_try (push_one K sizeof_WatchEntry (fw_cap w) (fw_watches w)
              \<lparr>we_event = p, we_callback = cb, we_event_id = ev_id ev\<rparr>)
       (\<lambda>(cap, ws). op_ret (w\<lparr>fw_watches := ws, fw_cap := cap\<rparr>))"

definition wake_up :: "kernel \<Rightarrow> fault_watcher \<Rightarrow> (unit res \<times> fault_watcher option) op" where
  "wake_up K w = op_catch (event_signal K (fw_wake w)) (\<lambda>e. op_ret (Inl e, Some w)) (\<lambda>_. op_ret (Inr (), Some w))"

definition add_watch ::
    "kernel \<Rightarrow> u64 \<Rightarrow> event \<Rightarrow> watch_callback \<Rightarrow> fault_watcher option \<Rightarrow> (unit res \<times> fault_watcher option) op" where
  "add_watch K p ev cb watcher =
     (case watcher of
        None \<Rightarrow> op_ret (Inr (), None)
      | Some w \<Rightarrow> op_catch (push_watch K p ev cb w) (\<lambda>e. op_ret (Inl e, Some w)) (wake_up K))"

text \<open>The first watch of the event is overwritten by the last one, which is then popped.\<close>

definition take_out :: "u64 \<Rightarrow> watch_entry list \<Rightarrow> watch_entry list" where
  "take_out p ws =
     (let i = length (takeWhile (\<lambda>we. we_event we \<noteq> p) ws)
      in if i < length ws then butlast (ws[i := last ws]) else ws)"

definition drop_watch :: "u64 \<Rightarrow> fault_watcher \<Rightarrow> fault_watcher" where
  "drop_watch p w = w\<lparr>fw_watches := take_out p (fw_watches w)\<rparr>"

definition remove_watch ::
    "kernel \<Rightarrow> u64 \<Rightarrow> fault_watcher option \<Rightarrow> (unit res \<times> fault_watcher option) op" where
  "remove_watch K p watcher =
     (case watcher of None \<Rightarrow> op_ret (Inr (), None) | Some w \<Rightarrow> wake_up K (drop_watch p w))"

section \<open>The thread\<close>

definition watch_ids :: "fault_watcher \<Rightarrow> u32 list" where
  "watch_ids w = [ev_id (fw_mem w), ev_id (fw_hw w)] @ map we_event_id (fw_watches w) @ [ev_id (fw_wake w)]"

text \<open>The list of the wait keeps its capacity from turn to turn.\<close>

fun push_ids :: "kernel \<Rightarrow> nat \<Rightarrow> u32 list \<Rightarrow> u32 list \<Rightarrow> (nat \<times> u32 list) op" where
  "push_ids K cap eds [] = op_ret (cap, eds)"
| "push_ids K cap eds (i # is) =
     op_else (push_one K 48 cap eds i) (\<lambda>_. op_fail ABORT) (\<lambda>(cap', eds'). push_ids K cap' eds' is)"

definition collect_ids :: "kernel \<Rightarrow> nat \<Rightarrow> fault_watcher \<Rightarrow> (nat \<times> u32 list) op" where
  "collect_ids K cap w = push_ids K cap [] (watch_ids w)"

text \<open>\<open>None\<close> is a turn that ends with \<^verbatim>\<open>continue\<close>.\<close>

definition wait_turn :: "kernel \<Rightarrow> u32 list \<Rightarrow> u64 list option op" where
  "wait_turn K ids =
     op_catch (sys K (WaitEvents ids False 0xFFFFFFFF)) (\<lambda>_. op_ret None)
       (\<lambda>out. op_ret (if ucast (out_word out 0) = WAIT_RESULT_COMPLETE then Some out else None))"

definition report_faults :: "kernel \<Rightarrow> u64 list \<Rightarrow> unit op" where
  "report_faults K out =
     op_try (if mf_gpu_id (memory_fault (make_event_data out 0)) \<noteq> 0 then raise_signal K SIGSEGV else op_ret ()) (\<lambda>_.
     if hx_gpu_id (hw_exception (make_event_data out 1)) \<noteq> 0 then raise_signal K SIGABRT else op_ret ())"

text \<open>
  Every callback runs, whichever event fired. What a callback does is a parameter, on a state that
  the callbacks share.
\<close>

fun run_callbacks :: "(watch_callback \<Rightarrow> 's \<Rightarrow> 's op) \<Rightarrow> watch_entry list \<Rightarrow> 's \<Rightarrow> 's op" where
  "run_callbacks call [] s = op_ret s"
| "run_callbacks call (we # ws) s = op_try (call (we_callback we) s) (run_callbacks call ws)"

definition deliver ::
    "kernel \<Rightarrow> (watch_callback \<Rightarrow> 's \<Rightarrow> 's op) \<Rightarrow> u64 list \<Rightarrow> fault_watcher \<Rightarrow> 's \<Rightarrow> 's op" where
  "deliver K call out w s = op_try (report_faults K out) (\<lambda>_. run_callbacks call (fw_watches w) s)"

section \<open>Who owns what\<close>

definition watcher_bag :: "fault_watcher \<Rightarrow> token multiset" where
  "watcher_bag w = region_bag (fw_stack w) + event_bag (fw_wake w) + event_bag (fw_hw w) + event_bag (fw_mem w)"

lemma neutral_box_alloc: "neutral (box_alloc K n)"
  by (auto simp: box_alloc_def intro!: own_rules)

lemma neutral_event_signal: "neutral (event_signal K ev)"
  by (auto simp: event_signal_def intro!: own_rules)

lemma neutral_catch [own_rules]:
  "neutral m \<Longrightarrow> (\<And>e. neutral (f e)) \<Longrightarrow> (\<And>x. neutral (k x)) \<Longrightarrow> neutral (op_catch m f k)"
  by (auto simp: op_catch_def intro!: own_rules)

lemma neutral_watch: "neutral (add_watch K p ev cb wo)" "neutral (remove_watch K p wo)"
proof -
  have wake: "neutral (wake_up K w)" for w by (auto simp: wake_up_def intro!: own_rules neutral_event_signal)
  have push: "neutral (push_watch K p ev cb w)" for w
    by (auto simp: push_watch_def intro!: own_rules neutral_push split: prod.splits)
  show "neutral (add_watch K p ev cb wo)" "neutral (remove_watch K p wo)"
    by (auto simp: add_watch_def remove_watch_def intro!: own_rules wake push split: option.splits)
qed

lemma holds_start_watcher:
  assumes "os_contract K" and "0 \<le> kfd"
  shows "holds {#} {#} (start_fault_watcher K kfd pages) watcher_bag"
  unfolding start_fault_watcher_def
  apply (rule holds_scope [OF holds_event_create [OF assms] drops_event])
  apply (rule holds_scope [OF holds_event_create [OF assms] drops_event])
  apply (rule holds_scope [OF holds_event_create [OF assms] drops_event])
  apply (rule holds_scope [OF holds_region_create [OF os_contractD(1) [OF assms(1)]] drops_region])
  apply (rule holds_neutral [OF neutral_box_alloc])
  apply (rule holds_neutral [OF neutral_basic(4)], simp)
  apply (rule holds_ret, simp add: watcher_bag_def ac_simps)
  done

lemma drops_neutral:
  assumes "neutral m" and "\<And>h e h'. m h = (Inl e, h') \<Longrightarrow> fatal e"
  shows "drops {#} m"
  using assms by (auto simp: neutral_def bag_def intro!: dropsI)

lemma drops_watcher: "drops (watcher_bag w) (fault_watcher_drop K polls w)"
proof -
  have load: "neutral (load32 K a)" for a by (auto simp: load32_def intro!: own_rules)
  have "neutral (join_thread K a n)" for a n
    by (induction n) (auto intro!: own_rules load)
  moreover have "join_thread K a n h = (Inl e, h') \<Longrightarrow> fatal e" for a n h e h'
    by (induction n arbitrary: h) (auto simp: op_eqs load32_def split: if_splits)
  ultimately have "drops {#} (stop_thread K polls w)"
    by (intro drops_neutral) (auto simp: stop_thread_def op_eqs intro!: own_rules neutral_event_signal split: if_splits)
  then have "drops ({#} + (region_bag (fw_stack w) + (event_bag (fw_wake w) + (event_bag (fw_hw w) + event_bag (fw_mem w)))))
      (fault_watcher_drop K polls w)"
    unfolding fault_watcher_drop_def by (intro drops_seq drops_region drops_event)
  then show ?thesis by (simp add: watcher_bag_def ac_simps)
qed

text \<open>A removal takes one watch of the event out of the list, and leaves the other events watched.\<close>

lemma take_out_split:
  assumes "p \<notin> we_event ` set a" and "we_event x = p"
  shows "take_out p (a @ x # b) = a @ (if b = [] then [] else last b # butlast b)"
proof -
  have "takeWhile (\<lambda>we. we_event we \<noteq> p) (a @ x # b) = a"
    using assms by (subst takeWhile_append2) (auto simp: image_iff)
  then show ?thesis by (simp add: take_out_def butlast_append)
qed

lemma take_out_other:
  assumes "p \<notin> we_event ` set ws"
  shows "take_out p ws = ws"
proof -
  have "takeWhile (\<lambda>we. we_event we \<noteq> p) ws = ws"
    using assms by (metis (mono_tags, lifting) image_eqI takeWhile_eq_all_conv)
  then show ?thesis by (simp only: take_out_def Let_def less_irrefl if_False)
qed

lemma mset_last_first: "b \<noteq> [] \<Longrightarrow> mset (last b # butlast b) = mset b"
proof -
  assume "b \<noteq> []"
  then have "mset b = mset (butlast b @ [last b])" by simp
  then show ?thesis by (simp del: append_butlast_last_id)
qed

lemma take_out_events: "mset (map we_event (take_out p ws)) = mset (map we_event ws) - {#p#}"
proof (cases "p \<in> we_event ` set ws")
  case True
  then have "\<exists>x\<in>set ws. we_event x = p" by auto
  from split_list_first_prop [OF this] obtain a x b
    where w: "ws = a @ x # b" "we_event x = p" "\<forall>y\<in>set a. we_event y \<noteq> p" by blast
  from w(3) have "p \<notin> we_event ` set a" by blast
  from take_out_split [OF this w(2)] w(1)
  have "take_out p ws = a @ (if b = [] then [] else last b # butlast b)" by simp
  then have "mset (take_out p ws) = mset (a @ b)" using mset_last_first [of b] by (cases "b = []") simp_all
  then have "image_mset we_event (mset (take_out p ws)) = image_mset we_event (mset (a @ b))" by (rule arg_cong)
  with w(1,2) show ?thesis by simp
next
  case False
  then have "p \<notin># mset (map we_event ws)" by simp
  with False show ?thesis by (simp add: take_out_other diff_single_trivial)
qed

text \<open>Adding and removing the watch of an event gives the other watches back.\<close>

lemma take_out_last: "p \<notin> we_event ` set ws \<Longrightarrow> we_event x = p \<Longrightarrow> take_out p (ws @ [x]) = ws"
  using take_out_split [of p ws x "[]"] by simp

section \<open>The thread and its clients\<close>

text \<open>
  The program points of the thread: the head of the loop, the block that collects the events under
  the lock, the wait, the second look at the exit flag, and the block that runs the callbacks under
  the lock.
\<close>

datatype watcher_pc =
    At_check | At_collect | Waiting "u32 list" | Returned "u64 list" | At_deliver "u64 list" | Stopped

text \<open>
  The thread, its state and what the callbacks share, with the wake event of the kernel: whether it
  is set, and whether the kernel once refused to set it. A client that has changed the watches or
  the exit flag owes the event a signal.
\<close>

record 's watcher_system =
  ws_watcher :: fault_watcher
  ws_pc :: watcher_pc
  ws_cap :: nat
  ws_shared :: 's
  ws_owed :: bool
  ws_set :: bool
  ws_lost :: bool

inductive watch_step ::
    "kernel \<Rightarrow> (watch_callback \<Rightarrow> 's \<Rightarrow> 's op) \<Rightarrow> 's watcher_system \<Rightarrow> 's watcher_system \<Rightarrow> bool"
  for K :: kernel and call :: "watch_callback \<Rightarrow> 's \<Rightarrow> 's op" where
  Add: "\<not> ws_owed s \<Longrightarrow> push_watch K p ev cb (ws_watcher s) h = (Inr w, h') \<Longrightarrow>
    watch_step K call s (s\<lparr>ws_watcher := w, ws_owed := True\<rparr>)"
| Remove: "\<not> ws_owed s \<Longrightarrow> watch_step K call s (s\<lparr>ws_watcher := drop_watch p (ws_watcher s), ws_owed := True\<rparr>)"
| Stop: "\<not> ws_owed s \<Longrightarrow>
    watch_step K call s (s\<lparr>ws_watcher := (ws_watcher s)\<lparr>fw_exit := True\<rparr>, ws_owed := True\<rparr>)"
| Wake: "ws_owed s \<Longrightarrow> wake_up K (ws_watcher s) h = (Inr (r, w), h') \<Longrightarrow>
    watch_step K call s (s\<lparr>ws_owed := False, ws_set := ws_set s \<or> r = Inr (), ws_lost := ws_lost s \<or> r \<noteq> Inr ()\<rparr>)"
| Check: "ws_pc s = At_check \<Longrightarrow>
    watch_step K call s (s\<lparr>ws_pc := if fw_exit (ws_watcher s) then Stopped else At_collect\<rparr>)"
| Collect: "ws_pc s = At_collect \<Longrightarrow> \<not> ws_owed s \<Longrightarrow>
    collect_ids K (ws_cap s) (ws_watcher s) h = (Inr (cap, ids), h') \<Longrightarrow>
    watch_step K call s (s\<lparr>ws_pc := Waiting ids, ws_cap := cap\<rparr>)"
| Wait: "ws_pc s = Waiting ids \<Longrightarrow> wait_turn K ids h = (Inr r, h') \<Longrightarrow> (still_set \<Longrightarrow> ws_set s) \<Longrightarrow>
    watch_step K call s (s\<lparr>ws_pc := (case r of None \<Rightarrow> At_check | Some out \<Rightarrow> Returned out), ws_set := still_set\<rparr>)"
| Look: "ws_pc s = Returned out \<Longrightarrow>
    watch_step K call s (s\<lparr>ws_pc := if fw_exit (ws_watcher s) then Stopped else At_deliver out\<rparr>)"
| Deliver: "ws_pc s = At_deliver out \<Longrightarrow> \<not> ws_owed s \<Longrightarrow>
    deliver K call out (ws_watcher s) (ws_shared s) h = (Inr x, h') \<Longrightarrow>
    watch_step K call s (s\<lparr>ws_pc := At_check, ws_shared := x\<rparr>)"

definition watch_start :: "fault_watcher \<Rightarrow> 's \<Rightarrow> 's watcher_system" where
  "watch_start w x = \<lparr>ws_watcher = w\<lparr>fw_exit := False\<rparr>, ws_pc = At_check, ws_cap = 16, ws_shared = x,
     ws_owed = False, ws_set = False, ws_lost = False\<rparr>"

inductive watch_reach ::
    "kernel \<Rightarrow> (watch_callback \<Rightarrow> 's \<Rightarrow> 's op) \<Rightarrow> 's watcher_system \<Rightarrow> bool"
  for K :: kernel and call :: "watch_callback \<Rightarrow> 's \<Rightarrow> 's op" where
  Start: "watch_reach K call (watch_start w x)"
| Step: "watch_reach K call s \<Longrightarrow> watch_step K call s t \<Longrightarrow> watch_reach K call t"

lemma push_ids_all: "push_ids K cap eds is h = (Inr (cap', ids), h') \<Longrightarrow> ids = eds @ is"
proof (induction "is" arbitrary: cap eds h)
  case (Cons i "is")
  then obtain c h1 where "push_ids K c (eds @ [i]) is h1 = (Inr (cap', ids), h')"
    by (auto simp: op_eqs push_one_def split: if_splits prod.splits)
  with Cons.IH show ?case by fastforce
qed (simp add: op_simps)

lemma push_watch_frame:
  "push_watch K p ev cb w h = (Inr w', h') \<Longrightarrow> fw_wake w' = fw_wake w \<and> fw_exit w' = fw_exit w"
  by (auto simp: push_watch_def op_eqs split: prod.splits)

text \<open>Who will wake the thread up: nobody needs to when its list and the exit flag are as it saw them.\<close>

definition wake_due :: "'s watcher_system \<Rightarrow> bool" where
  "wake_due s \<longleftrightarrow> ws_set s \<or> ws_owed s \<or> ws_lost s"

definition watch_inv :: "'s watcher_system \<Rightarrow> bool" where
  "watch_inv s \<longleftrightarrow>
     (fw_exit (ws_watcher s) \<and> (ws_pc s = At_collect \<or> (\<exists>ids. ws_pc s = Waiting ids)) \<longrightarrow> wake_due s) \<and>
     (\<forall>ids. ws_pc s = Waiting ids \<longrightarrow>
        ev_id (fw_wake (ws_watcher s)) \<in> set ids \<and> (ids = watch_ids (ws_watcher s) \<or> wake_due s))"

lemma watch_step_inv: "watch_step K call s t \<Longrightarrow> watch_inv s \<Longrightarrow> watch_inv t"
proof (induction rule: watch_step.induct)
  case (Add s p ev cb h w h')
  then show ?case by (auto simp: watch_inv_def wake_due_def dest: push_watch_frame)
next
  case (Collect s h cap ids h')
  then have "ids = watch_ids (ws_watcher s)" by (auto simp: collect_ids_def dest: push_ids_all)
  with Collect show ?case by (auto simp: watch_inv_def wake_due_def watch_ids_def)
qed (auto simp: watch_inv_def wake_due_def drop_watch_def split: option.splits if_splits)

lemma watch_reach_inv: "watch_reach K call s \<Longrightarrow> watch_inv s"
proof (induction rule: watch_reach.induct)
  case (Start w x)
  then show ?case by (simp add: watch_inv_def watch_start_def)
next
  case (Step s t)
  then show ?case using watch_step_inv by blast
qed


definition demo_watcher :: fault_watcher where
  "demo_watcher = \<lparr>fw_addr = 0x1000, fw_mem = null_event\<lparr>ev_id := 1\<rparr>, fw_hw = null_event\<lparr>ev_id := 2\<rparr>,
     fw_wake = null_event\<lparr>ev_id := 3\<rparr>, fw_exit = False, fw_tid = 77, fw_stack = null_region, fw_watches = [], fw_cap = 8\<rparr>"

definition demo_entry :: watch_entry where
  "demo_entry = \<lparr>we_event = 0x5000, we_callback = On_scratch 0x6000, we_event_id = 9\<rparr>"


text \<open>A turn calls back exactly the watches that are registered when it takes the lock, in their order.\<close>

lemma deliver_calls_registered:
  assumes "deliver K (\<lambda>cb log. op_ret (log @ [cb])) out w log h = (Inr log', h')"
  shows "log' = log @ map we_callback (fw_watches w)"
proof -
  have "run_callbacks (\<lambda>cb log. op_ret (log @ [cb])) ws log h = (Inr log', h') \<Longrightarrow> log' = log @ map we_callback ws"
    for ws log h
    by (induction ws arbitrary: log h) (fastforce simp: op_eqs)+
  with assms show ?thesis by (auto simp: deliver_def op_try_eq)
qed

end
