(* ===== verification/Shared_State.thy ===== *)
theory Shared_State
  imports Resources
begin

text \<open>
  Operations that report an error and yet leave changes behind: a device that has mapped its
  doorbells, a list of watches, what a process initialises once. Such an operation takes the state
  it shares with others and returns it beside its result, whatever the result is; only what ends
  the process returns no state. The ownership judgement of \<^theory_text>\<open>Resources\<close> is lifted to them.
\<close>

section \<open>Operations on shared state\<close>

type_synonym ('s, 'a) sop = "'s \<Rightarrow> ('a res \<times> 's) op"

definition s_ret :: "'a \<Rightarrow> ('s, 'a) sop" where "s_ret x s = op_ret (Inr x, s)"

definition s_fail :: "error \<Rightarrow> ('s, 'a) sop" where "s_fail e s = op_ret (Inl e, s)"

definition s_lift :: "'a op \<Rightarrow> ('s, 'a) sop" where
  "s_lift m s = op_catch m (\<lambda>e. op_ret (Inl e, s)) (\<lambda>x. op_ret (Inr x, s))"

definition s_try :: "('s, 'a) sop \<Rightarrow> ('a \<Rightarrow> ('s, 'b) sop) \<Rightarrow> ('s, 'b) sop" where
  "s_try m k s = op_try (m s) (\<lambda>(r, s'). case r of Inl e \<Rightarrow> op_ret (Inl e, s') | Inr x \<Rightarrow> k x s')"

definition s_when :: "bool \<Rightarrow> error \<Rightarrow> ('s, 'a) sop \<Rightarrow> ('s, 'a) sop" where
  "s_when c e m = (if c then s_fail e else m)"

text \<open>An early return runs the destructors of the scope, which may change the state too.\<close>

definition s_on_error :: "('s \<Rightarrow> 's op) \<Rightarrow> ('s, 'a) sop \<Rightarrow> ('s, 'a) sop" where
  "s_on_error d m s = op_try (m s) (\<lambda>(r, s').
     case r of Inl e \<Rightarrow> op_try (d s') (\<lambda>s''. op_ret (Inl e, s'')) | Inr x \<Rightarrow> op_ret (Inr x, s'))"

text \<open>A destructor that does not see the state, and a step that only changes the state.\<close>

definition s_free :: "unit op \<Rightarrow> 's \<Rightarrow> 's op" where "s_free d s = op_try d (\<lambda>_. op_ret s)"

definition s_upd :: "('s \<Rightarrow> 's) \<Rightarrow> ('s, unit) sop" where "s_upd f s = op_ret (Inr (), f s)"

lemmas s_defs = s_ret_def s_fail_def s_lift_def s_try_def s_when_def s_on_error_def s_free_def s_upd_def

lemma s_try_Inr:
  "s_try m k s h = (Inr (Inr y, s'), h') \<longleftrightarrow> (\<exists>x s1 h1. m s h = (Inr (Inr x, s1), h1) \<and> k x s1 h1 = (Inr (Inr y, s'), h'))"
  unfolding s_try_def op_try_eq
proof (intro iffI)
  assume "(\<exists>e. m s h = (Inl e, h') \<and> Inr (Inr y, s') = Inl e) \<or>
    (\<exists>p h1. m s h = (Inr p, h1) \<and> (case p of (r, s'') \<Rightarrow> case r of Inl e \<Rightarrow> op_ret (Inl e, s'') | Inr x \<Rightarrow> k x s'') h1 = (Inr (Inr y, s'), h'))"
  then obtain r s1 h1 where m: "m s h = (Inr (r, s1), h1)"
    "(case r of Inl e \<Rightarrow> op_ret (Inl e, s1) | Inr x \<Rightarrow> k x s1) h1 = (Inr (Inr y, s'), h')" by auto
  then show "\<exists>x s1 h1. m s h = (Inr (Inr x, s1), h1) \<and> k x s1 h1 = (Inr (Inr y, s'), h')"
    by (cases r) (auto simp: op_ret_eq)
qed auto

lemma s_on_error_Inr: "s_on_error d m s h = (Inr (Inr y, s'), h') \<longleftrightarrow> m s h = (Inr (Inr y, s'), h')"
  unfolding s_on_error_def op_try_eq
proof (intro iffI)
  assume "(\<exists>e. m s h = (Inl e, h') \<and> Inr (Inr y, s') = Inl e) \<or>
    (\<exists>p h1. m s h = (Inr p, h1) \<and> (case p of (r, s') \<Rightarrow>
       case r of Inl e \<Rightarrow> op_try (d s') (\<lambda>s''. op_ret (Inl e, s'')) | Inr x \<Rightarrow> op_ret (Inr x, s')) h1 = (Inr (Inr y, s'), h'))"
  then obtain r s1 h1 where m: "m s h = (Inr (r, s1), h1)"
    "(case r of Inl e \<Rightarrow> op_try (d s1) (\<lambda>s''. op_ret (Inl e, s'')) | Inr x \<Rightarrow> op_ret (Inr x, s1)) h1 = (Inr (Inr y, s'), h')" by auto
  then show "m s h = (Inr (Inr y, s'), h')" by (cases r) (auto simp: op_ret_eq op_try_eq)
qed (auto simp: op_ret_eq)

lemma s_ret_Inr: "s_ret x s h = (Inr (Inr y, s'), h') \<longleftrightarrow> y = x \<and> s' = s \<and> h' = h"
  by (auto simp: s_ret_def op_ret_eq)

lemma s_lift_Inr: "s_lift m s h = (Inr (Inr y, s'), h') \<longleftrightarrow> m h = (Inr y, h') \<and> s' = s"
  by (auto simp: s_lift_def op_catch_eq op_eqs split: if_splits)

lemmas s_Inr = s_try_Inr s_on_error_Inr s_ret_Inr s_lift_Inr

section \<open>Who owns what\<close>

text \<open>
  \<open>s_owns I U T m F\<close>: with the state holding \<open>I s\<close> and the operation \<open>T\<close>, it ends with the new state
  holding what the bag says of it and \<open>F x\<close> for its result \<open>x\<close>, or \<open>U\<close> when it reports an error.
\<close>

definition outcome_bag :: "('s \<Rightarrow> token multiset) \<Rightarrow> token multiset \<Rightarrow> ('a \<Rightarrow> token multiset) \<Rightarrow> 'a res \<times> 's \<Rightarrow> token multiset" where
  "outcome_bag I U F p = I (snd p) + (case fst p of Inl e \<Rightarrow> U | Inr x \<Rightarrow> F x)"

definition s_owns ::
    "('s \<Rightarrow> token multiset) \<Rightarrow> token multiset \<Rightarrow> token multiset \<Rightarrow> ('s, 'a) sop \<Rightarrow> ('a \<Rightarrow> token multiset) \<Rightarrow> bool" where
  "s_owns I U T m F \<longleftrightarrow> (\<forall>s V. holds (I s + T) V (m s) (outcome_bag I U F))"

text \<open>What a destructor gives back; it has no error to report that a caller would see.\<close>

definition s_drops :: "('s \<Rightarrow> token multiset) \<Rightarrow> token multiset \<Rightarrow> ('s \<Rightarrow> 's op) \<Rightarrow> bool" where
  "s_drops I D d \<longleftrightarrow> (\<forall>s V. holds (I s + D) V (d s) I)"

lemma holds_frame_any:
  assumes "\<And>V. holds T V m F"
  shows "holds (T + W) V m (\<lambda>y. F y + W)"
proof (rule holdsI)
  fix B h y h' assume "bag h = B + (T + W)" "m h = (Inr y, h')"
  then show "bag h' = B + (F y + W)" using holdsD(1) [OF assms, of h "B + W" y h'] by (simp add: ac_simps)
next
  fix B h e h' assume a: "bag h = B + (T + W)" "m h = (Inl e, h')" "\<not> fatal e"
  then have "bag h' = B + W + V" for V using holdsD(2) [OF assms [of V], of h "B + W" e h'] by (simp add: ac_simps)
  from this [of "{#}"] this [of "{#Evt 0#}"] show "bag h' = B + V" by simp
qed

lemma holds_if: "(c \<Longrightarrow> holds T U a F) \<Longrightarrow> (\<not> c \<Longrightarrow> holds T U b F) \<Longrightarrow> holds T U (if c then a else b) F"
  by simp

lemma outcome_bags [simp]: "outcome_bag I U F (Inl e, s) = I s + U" "outcome_bag I U F (Inr x, s) = I s + F x"
  by (simp_all add: outcome_bag_def)

lemma owns_ret: "F x = T \<Longrightarrow> s_owns I U T (s_ret x) F"
  by (simp add: s_owns_def s_ret_def holds_ret)

lemma owns_fail: "T = U \<Longrightarrow> s_owns I U T (s_fail e) F"
  by (simp add: s_owns_def s_fail_def holds_ret)

lemma owns_when: "T = U \<Longrightarrow> s_owns I U T m F \<Longrightarrow> s_owns I U T (s_when c e m) F"
  by (simp add: s_when_def owns_fail)

lemma owns_upd: "(\<And>s. I (f s) + F () = I s + T) \<Longrightarrow> s_owns I U T (s_upd f) F"
  by (simp add: s_owns_def s_upd_def holds_ret)

lemma owns_lift:
  assumes "holds T U m F"
  shows "s_owns I U T (s_lift m) F"
  unfolding s_owns_def s_lift_def
proof (intro allI, rule holds_catch)
  fix s
  show "holds (I s + T) (I s + U) m (\<lambda>x. I s + F x)"
    using holds_frame [OF assms, of "I s"] by (simp add: ac_simps)
qed (rule holds_ret, simp)+

lemma owns_try_yields:
  fixes m :: "('s, 'a) sop" and k :: "'a \<Rightarrow> ('s, 'b) sop"
  assumes "s_owns I U T m R" and "\<And>x s s'. yields (m s) (Inr x, s') \<Longrightarrow> s_owns I U (R x) (k x) F"
  shows "s_owns I U T (s_try m k) F"
  unfolding s_owns_def s_try_def
proof (intro allI, rule holds_try)
  fix s V
  show "holds (I s + T) V (m s) (outcome_bag I U R)" using assms(1) by (simp add: s_owns_def)
next
  fix s V and p :: "'a res \<times> 's"
  obtain r s' where p: "p = (r, s')" by fastforce
  assume "yields (m s) p"
  then show "holds (outcome_bag I U R p) V (case p of (r, s') \<Rightarrow> case r of Inl e \<Rightarrow> op_ret (Inl e, s') | Inr x \<Rightarrow> k x s')
      (outcome_bag I U F)"
    unfolding p using assms(2) by (cases r) (auto simp: s_owns_def holds_ret)
qed

lemma owns_try: "s_owns I U T m R \<Longrightarrow> (\<And>x. s_owns I U (R x) (k x) F) \<Longrightarrow> s_owns I U T (s_try m k) F"
  by (rule owns_try_yields)

lemma yields_lift: "yields (s_lift m s) (Inr x, s') \<Longrightarrow> yields m x"
  by (auto simp: yields_def s_lift_Inr)

lemma owns_on_error:
  fixes m :: "('s, 'a) sop"
  assumes "s_owns I (U + D) T m F" and "s_drops I D d"
  shows "s_owns I U T (s_on_error d m) F"
  unfolding s_owns_def s_on_error_def
proof (intro allI, rule holds_try)
  fix s V
  show "holds (I s + T) V (m s) (outcome_bag I (U + D) F)" using assms(1) by (simp add: s_owns_def)
next
  fix s V and p :: "'a res \<times> 's"
  obtain r s' where p: "p = (r, s')" by fastforce
  show "holds (outcome_bag I (U + D) F p) V (case p of (r, s') \<Rightarrow>
      case r of Inl e \<Rightarrow> op_try (d s') (\<lambda>s''. op_ret (Inl e, s'')) | Inr x \<Rightarrow> op_ret (Inr x, s')) (outcome_bag I U F)"
  proof (cases r)
    case (Inl e)
    have "holds (I s' + D + U) V (d s') (\<lambda>s''. I s'' + U)"
      by (rule holds_frame_any) (use assms(2) in \<open>simp add: s_drops_def\<close>)
    then have "holds (I s' + (U + D)) V (d s') (\<lambda>s''. I s'' + U)" by (simp add: ac_simps)
    then show ?thesis by (auto simp: p Inl intro!: holds_try holds_ret)
  qed (simp add: p holds_ret)
qed

lemma owns_lift_gain:
  assumes "holds {#} {#} m R"
  shows "s_owns I T T (s_lift m) (\<lambda>x. T + R x)"
  by (rule owns_lift [OF holds_gain [OF assms]]) simp

lemma owns_state: "(\<And>s. s_owns I U T (m s) F) \<Longrightarrow> s_owns I U T (\<lambda>s. m s s) F"
  by (simp add: s_owns_def)

lemma s_drops_free: "drops D d \<Longrightarrow> s_drops I D (s_free d)"
  unfolding s_drops_def s_free_def by (auto intro!: holds_drop holds_ret)

lemma s_drops_seq:
  assumes "s_drops I D d" and "s_drops I E e"
  shows "s_drops I (D + E) (\<lambda>s. op_try (d s) e)"
  unfolding s_drops_def
proof (intro allI, rule holds_try)
  fix s V
  have "holds (I s + D + E) V (d s) (\<lambda>s'. I s' + E)"
    by (rule holds_frame_any) (use assms(1) in \<open>simp add: s_drops_def\<close>)
  then show "holds (I s + (D + E)) V (d s) (\<lambda>s'. I s' + E)" by (simp add: ac_simps)
  show "holds (I s' + E) V (e s') I" for s' using assms(2) by (simp add: s_drops_def)
qed

lemma drops_buffer_destroy: "drops (if b_handle b = 0 then {#} else {#Obj (b_handle b)#}) (buffer_destroy K b)"
proof -
  have free: "drops {#Obj (b_handle b)#} (op_assert (sys K (FreeMemory (b_handle b))) (op_ret b'))" for b'
    by (rule drops_calls)
  have "drops ({#} + {#Obj (b_handle b)#})
      (op_assert (sys K (UnmapMemory (b_handle b) ids)) (op_assert (sys K (FreeMemory (b_handle b))) (op_ret b')))" for ids b'
    by (subst op_assert_try, rule drops_seq [OF _ free])
       (use drops_assert [of K "UnmapMemory (b_handle b) ids" "{}"] in \<open>simp add: owned_snoc token_step_inert\<close>)
  then show ?thesis using free drops_ret by (auto simp: buffer_destroy_def Let_def)
qed

text \<open>An operation that acquires and releases nothing and fails only for good.\<close>

lemma holds_harmless:
  assumes "neutral m" and "\<And>h e h'. m h = (Inl e, h') \<Longrightarrow> fatal e" and "\<And>x. yields m x \<Longrightarrow> F x = T"
  shows "holds T V m F"
proof (rule holdsI)
  fix B h y h' assume a: "bag h = B + T" "m h = (Inr y, h')"
  then have "F y = T" by (intro assms(3)) (auto simp: yields_def)
  with a assms(1) show "bag h' = B + F y" by (simp add: neutral_def bag_def)
qed (use assms(2) in blast)

lemma holds_dropping:
  assumes "drops R d" and "\<And>x. yields d x \<Longrightarrow> holds S U (k x) F"
  shows "holds (S + R) U (op_try d k) F"
proof (rule holds_try)
  show "holds (S + R) U d (\<lambda>_. S)"
  proof (rule holdsI)
    fix B h y h' assume "bag h = B + (S + R)" "d h = (Inr y, h')"
    with dropsD(1) [OF assms(1), of h "B + S" y h'] show "bag h' = B + S" by (simp add: add.assoc)
  next
    fix B h e h' assume "bag h = B + (S + R)" "d h = (Inl e, h')" "\<not> fatal e"
    with dropsD(2) [OF assms(1), of h "B + S" e h'] show "bag h' = B + U" by (simp add: add.assoc)
  qed
qed (rule assms(2))

text \<open>A lifted operation whose result then goes into this state.\<close>

lemma owns_lift_upd:
  assumes "holds T U m R" and "\<And>x. yields m x \<Longrightarrow> I (f x s) + F () = I s + R x"
  shows "holds (I s + T) V (s_try (s_lift m) (\<lambda>x. s_upd (f x)) s) (outcome_bag I U F)"
  unfolding s_try_def
proof (rule holds_try)
  have "s_owns I U T (s_lift m) R" by (rule owns_lift [OF assms(1)])
  then show "holds (I s + T) V (s_lift m s) (outcome_bag I U R)" by (simp add: s_owns_def)
  fix p assume "yields (s_lift m s) p"
  then consider e where "p = (Inl e, s)" | x where "p = (Inr x, s)" "yields m x"
    by (auto simp: yields_def s_lift_def op_catch_eq op_eqs split: if_splits)
  then show "holds (outcome_bag I U R p) V (case p of (r, s') \<Rightarrow> case r of Inl e \<Rightarrow> op_ret (Inl e, s') | Inr x \<Rightarrow> s_upd (f x) s')
      (outcome_bag I U F)"
    using assms(2) by cases (auto simp: s_upd_def intro!: holds_ret)
qed

section \<open>How the state may change\<close>

text \<open>\<open>s_keeps R m\<close>: whatever its result, the operation changes the state along \<open>R\<close>.\<close>

definition s_keeps :: "('s \<Rightarrow> 's \<Rightarrow> bool) \<Rightarrow> ('s, 'a) sop \<Rightarrow> bool" where
  "s_keeps R m \<longleftrightarrow> (\<forall>s h r s' h'. m s h = (Inr (r, s'), h') \<longrightarrow> R s s')"

lemma s_keepsD: "s_keeps R m \<Longrightarrow> m s h = (Inr (r, s'), h') \<Longrightarrow> R s s'"
  unfolding s_keeps_def by blast

lemma s_keeps_lift: "reflp R \<Longrightarrow> s_keeps R (s_lift m)"
  by (auto simp: s_keeps_def s_lift_def op_catch_eq op_eqs reflp_def split: if_splits)

lemma s_keeps_ret: "reflp R \<Longrightarrow> s_keeps R (s_ret x)"
  by (auto simp: s_keeps_def s_ret_def op_ret_eq reflp_def)

lemma s_keeps_free:
  assumes "s_keeps R m"
  shows "s_keeps R (s_on_error (s_free d) m)"
  unfolding s_keeps_def
proof (intro allI impI)
  fix s h r s' h' assume "s_on_error (s_free d) m s h = (Inr (r, s'), h')"
  then obtain r1 s1 h1 where "m s h = (Inr (r1, s1), h1)"
    "(case r1 of Inl e \<Rightarrow> op_try (s_free d s1) (\<lambda>s''. op_ret (Inl e, s'')) | Inr x \<Rightarrow> op_ret (Inr x, s1)) h1 = (Inr (r, s'), h')"
    by (auto simp: s_on_error_def op_try_eq)
  moreover have "R s s1" by (rule s_keepsD [OF assms]) fact
  ultimately show "R s s'" by (cases r1) (auto simp: s_free_def op_try_eq op_ret_eq)
qed

lemma s_keeps_try:
  assumes "transp R" and "s_keeps R m" and "\<And>x. s_keeps R (k x)"
  shows "s_keeps R (s_try m k)"
  unfolding s_keeps_def
proof (intro allI impI)
  fix s h r s' h' assume "s_try m k s h = (Inr (r, s'), h')"
  then obtain r1 s1 h1 where a: "m s h = (Inr (r1, s1), h1)"
    and b: "(case r1 of Inl e \<Rightarrow> op_ret (Inl e, s1) | Inr x \<Rightarrow> k x s1) h1 = (Inr (r, s'), h')"
    by (auto simp: s_try_def op_try_eq)
  have "R s s1" by (rule s_keepsD [OF assms(2) a])
  moreover have "s' = s1 \<or> R s1 s'" using b s_keepsD [OF assms(3)] by (cases r1) (auto simp: op_ret_eq)
  ultimately show "R s s'" using assms(1) by (auto dest: transpD)
qed

end
