(* ===== verification/Queue_Create.thy ===== *)
theory Queue_Create
  imports Shared_State Watcher Device Scratch_Protocol
begin

text \<open>
  Creation and destruction of queues, from \<^verbatim>\<open>lib/queue.cpp\<close>: the control page, the save area of
  compute wave switching, ring and end-of-pipe buffers, the retries of \<^verbatim>\<open>CREATE_QUEUE\<close>, the doorbell,
  and the watches of the queue's events. Queues share the device, whose doorbell page and scratch
  allocator they change, and the fault watcher of the context.
\<close>

section \<open>State\<close>

record queue_error_ctx =
  ec_payload :: u64
  ec_queue :: u32
  ec_gpu :: u32

record cwsr_header =
  ch_debug_offset :: u32
  ch_debug_size :: u32
  ch_err_payload_addr :: u64
  ch_err_event_id :: u32

text \<open>A boxed object is its address and its contents. A queue without context was moved from.\<close>

record queue =
  qu_type :: queue_type
  qu_live :: bool
  qu_id :: u32
  qu_control :: buffer
  qu_ring :: buffer
  qu_eop :: buffer
  qu_cwsr :: region
  qu_cwsr_bo :: buffer
  qu_headers :: "(u64 \<times> cwsr_header) list"   \<comment> \<open>what was written to the save area\<close>
  qu_doorbell :: u64
  qu_err_event :: "(u64 \<times> event) option"
  qu_err_ctx :: "queue_error_ctx option"
  qu_scratch_event :: "(u64 \<times> event) option"
  qu_scratch :: "(u64 \<times> scratch_ctx) option"
  qu_pending :: u64

record shared =
  sh_dev :: device
  sh_watcher :: "fault_watcher option"

text \<open>What the operations find in their environment: the heap, the system, the driver's descriptor.\<close>

record setting =
  st_malloc :: "u64 \<Rightarrow> bool"
  st_kernel :: kernel
  st_kfd :: int
  st_pages :: signal_pages
  st_page :: u64

definition sizeof_QueueControl :: u64 where "sizeof_QueueControl = 128"
definition sizeof_Event :: u64 where "sizeof_Event = 72"
definition sizeof_QueueErrorCtx :: u64 where "sizeof_QueueErrorCtx = 16"
definition sizeof_ScratchCtx :: u64 where "sizeof_ScratchCtx = 336"
definition EOP_BUFFER_SIZE :: u64 where "EOP_BUFFER_SIZE = 4096"

definition QUEUE_GTT_FLAGS :: u32 where
  "QUEUE_GTT_FLAGS = MF_WRITABLE OR MF_EXECUTABLE OR MF_NO_SUBSTITUTE OR MF_COHERENT OR MF_UNCACHED"

fun queue_type_bits :: "queue_type \<Rightarrow> u32" where
  "queue_type_bits COMPUTE = 0"
| "queue_type_bits SDMA = 1"
| "queue_type_bits SDMA_XGMI = 3"

text \<open>Members of \<^verbatim>\<open>QueueControl\<close>.\<close>

definition read_ptr_addr :: "u64 \<Rightarrow> u64" where "read_ptr_addr ctl = ctl"
definition write_ptr_addr :: "u64 \<Rightarrow> u64" where "write_ptr_addr ctl = ctl + 8"
definition err_payload_addr :: "u64 \<Rightarrow> u64" where "err_payload_addr ctl = ctl + 24"

section \<open>The save area of wave switching\<close>

definition cwsr_debug_mem :: "node_properties \<Rightarrow> u32" where
  "cwsr_debug_mem p = align_up (cwsr_wave_num p * 32) 64"

definition cwsr_total :: "u64 \<Rightarrow> node_properties \<Rightarrow> u64" where
  "cwsr_total page p = align_up (ucast (cwsr_size p + cwsr_debug_mem p) * ucast (or_one (num_xcc p))) page"

text \<open>The headers that are written, one per XCC, at their offsets in the area.\<close>

definition cwsr_headers :: "node_properties \<Rightarrow> u64 \<Rightarrow> u32 \<Rightarrow> (u64 \<times> cwsr_header) list" where
  "cwsr_headers p payload event =
     map (\<lambda>i. (ucast (of_nat i * cwsr_size p),
               \<lparr>ch_debug_offset = (or_one (num_xcc p) - of_nat i) * cwsr_size p,
                ch_debug_size = cwsr_debug_mem p * or_one (num_xcc p),
                ch_err_payload_addr = payload, ch_err_event_id = event\<rparr>))
       [0..<unat (or_one (num_xcc p))]"

text \<open>Attributes and flags of the SVM interface.\<close>

definition SVM_ATTR_PREFERRED_LOC :: u32 where "SVM_ATTR_PREFERRED_LOC = 0"
definition SVM_ATTR_PREFETCH_LOC :: u32 where "SVM_ATTR_PREFETCH_LOC = 1"
definition SVM_ATTR_ACCESS :: u32 where "SVM_ATTR_ACCESS = 2"
definition SVM_ATTR_SET_FLAGS :: u32 where "SVM_ATTR_SET_FLAGS = 5"
definition SVM_ATTR_CLR_FLAGS :: u32 where "SVM_ATTR_CLR_FLAGS = 6"
definition SVM_ATTR_GRANULARITY :: u32 where "SVM_ATTR_GRANULARITY = 7"
definition SVM_LOCATION_SYSMEM :: u32 where "SVM_LOCATION_SYSMEM = 0"
definition SVM_FLAGS :: u32 where "SVM_FLAGS = 0x1 OR 0x10 OR 0x40"

definition register_svm :: "kernel \<Rightarrow> u64 \<Rightarrow> u64 \<Rightarrow> u32 \<Rightarrow> unit op" where
  "register_svm K addr sz gpu =
     op_try (sys K (SvmSetAttr addr sz
       [(SVM_ATTR_PREFETCH_LOC, gpu), (SVM_ATTR_PREFERRED_LOC, SVM_LOCATION_SYSMEM),
        (SVM_ATTR_CLR_FLAGS, NOT SVM_FLAGS), (SVM_ATTR_SET_FLAGS, SVM_FLAGS),
        (SVM_ATTR_ACCESS, gpu), (SVM_ATTR_GRANULARITY, 0xFF)])) (\<lambda>_. op_ret ())"

definition CWSR_PIN_FLAGS :: u32 where "CWSR_PIN_FLAGS = MF_WRITABLE OR MF_EXECUTABLE OR MF_COHERENT"

definition pin_mapped :: "kernel \<Rightarrow> u64 \<Rightarrow> mem_dev \<Rightarrow> u64 \<Rightarrow> u64 \<Rightarrow> u32 \<Rightarrow> buffer op" where
  "pin_mapped K page d ptr sz flags =
     op_try (buffer_pin K page d ptr sz flags) (\<lambda>b.
     op_try (buffer_map K b [md_gpu d]) (\<lambda>(r, b'). on_error (buffer_drop K b') (op_try (op_res r) (\<lambda>_. op_ret b'))))"

definition boxed_event :: "setting \<Rightarrow> (u64 \<times> event) op" where
  "boxed_event st =
     op_try (event_create (st_kernel st) (st_kfd st) (st_pages st) SIGNAL) (\<lambda>ev.
     on_error (event_drop (st_kernel st) ev) (
     op_try (box_alloc (st_kernel st) sizeof_Event) (\<lambda>p. op_ret (p, ev))))"

definition drop_boxed_event :: "kernel \<Rightarrow> (u64 \<times> event) option \<Rightarrow> unit op" where
  "drop_boxed_event K e = (case e of None \<Rightarrow> op_ret () | Some (p, ev) \<Rightarrow> event_drop K ev)"

type_synonym cwsr_area = "(u64 \<times> event) option \<times> region \<times> buffer"

definition create_cwsr :: "setting \<Rightarrow> node_properties \<Rightarrow> mem_dev \<Rightarrow> cwsr_area op" where
  "create_cwsr st p md =
     (let K = st_kernel st; total = cwsr_total (st_page st) p
      in op_try (boxed_event st) (\<lambda>err.
         on_error (drop_boxed_event K (Some err)) (
         op_try (region_create K total PROT_RW (MAP_PRIVATE OR MAP_ANONYMOUS)) (\<lambda>area.
         on_error (region_destroy K area) (
         if capability_bits p AND NODE_CAP_SVMAPI_SUPPORTED \<noteq> 0
         then op_try (register_svm K (rg_addr area) (rg_len area) (md_gpu md)) (\<lambda>_. op_ret (Some err, area, null_buffer))
         else op_try (pin_mapped K (st_page st) md (rg_addr area) total CWSR_PIN_FLAGS) (\<lambda>bo.
              op_ret (Some err, area, bo)))))))"

definition drop_cwsr :: "kernel \<Rightarrow> cwsr_area \<Rightarrow> unit op" where
  "drop_cwsr K c = (case c of (err, area, bo) \<Rightarrow>
     op_try (drop_boxed_event K err) (\<lambda>_. op_try (buffer_drop K bo) (\<lambda>_. region_destroy K area)))"

section \<open>The queue of the driver\<close>

definition QUEUE_CREATE_RETRIES :: nat where "QUEUE_CREATE_RETRIES = 20"
definition QUEUE_RETRY_MS :: u64 where "QUEUE_RETRY_MS = 100"

fun create_attempts :: "kernel \<Rightarrow> queue_args \<Rightarrow> nat \<Rightarrow> u64 list op" where
  "create_attempts K args 0 = sys K (CreateQueue args)"
| "create_attempts K args (Suc n) =
     op_else (sys K (CreateQueue args))
       (\<lambda>e. if e \<noteq> ENOMEM then op_fail e
            else op_else (sys K (Sleep (QUEUE_RETRY_MS * 1000000)))
                   (\<lambda>_. create_attempts K args n) (\<lambda>_. create_attempts K args n))
       op_ret"

definition queue_args_of ::
    "queue_type \<Rightarrow> u64 \<Rightarrow> u32 \<Rightarrow> node_properties \<Rightarrow> buffer \<Rightarrow> cwsr_area \<Rightarrow> buffer \<Rightarrow> buffer \<Rightarrow> queue_args" where
  "queue_args_of ty ring_size target_xcc p ctl cwsr rng eop =
     (let is_compute = (ty = COMPUTE);
          (_, area, bo) = cwsr;
          has_cwsr = (rg_addr area \<noteq> 0 \<or> b_handle bo \<noteq> 0);
          base = rg_addr (b_mapping ctl)
      in \<lparr>qa_ring = rg_addr (b_mapping rng), qa_write = write_ptr_addr base, qa_read = read_ptr_addr base,
          qa_ring_size = ucast ring_size, qa_gpu = gpu_id p, qa_type = queue_type_bits ty,
          qa_percentage = push_bit 8 target_xcc OR 100, qa_priority = 7,
          qa_eop = if is_compute then rg_addr (b_mapping eop) else 0,
          qa_eop_size = if is_compute then EOP_BUFFER_SIZE else 0,
          qa_cwsr = if has_cwsr then (if rg_addr area \<noteq> 0 then rg_addr area else rg_addr (b_mapping bo)) else 0,
          qa_cwsr_size = if has_cwsr then cwsr_size p else 0,
          qa_ctl_stack = if has_cwsr then ctl_stack_size p else 0\<rparr>)"

text \<open>
  The memory of a queue and the queue of the driver, with the offset of its doorbell. The result
  is the queue as its constructor will take it.
\<close>

definition queue_memory :: "setting \<Rightarrow> node_properties \<Rightarrow> mem_dev \<Rightarrow> queue_type \<Rightarrow> u64 \<Rightarrow> u32 \<Rightarrow> (queue \<times> u64) op" where
  "queue_memory st p md ty ring_size target_xcc =
     (let K = st_kernel st; page = st_page st; is_compute = (ty = COMPUTE)
      in op_try (allocate_mapped K page md sizeof_QueueControl GTT QUEUE_GTT_FLAGS) (\<lambda>ctl.
         on_error (buffer_drop K ctl) (
         op_try (if is_compute \<and> cwsr_size p > 0 then create_cwsr st p md else op_ret (None, null_region, null_buffer)) (\<lambda>cwsr.
         on_error (drop_cwsr K cwsr) (
         op_try (allocate_mapped K page md ring_size GTT QUEUE_GTT_FLAGS) (\<lambda>rng.
         on_error (buffer_drop K rng) (
         op_try (if is_compute
                 then allocate_mapped K page md EOP_BUFFER_SIZE VRAM (MF_WRITABLE OR MF_EXECUTABLE OR MF_NO_SUBSTITUTE)
                 else op_ret null_buffer) (\<lambda>eop.
         on_error (buffer_drop K eop) (
         op_try (create_attempts K (queue_args_of ty ring_size target_xcc p ctl cwsr rng eop) QUEUE_CREATE_RETRIES) (\<lambda>out.
         op_ret (\<lparr>qu_type = ty, qu_live = True, qu_id = ucast (out_word out 0), qu_control = ctl, qu_ring = rng,
             qu_eop = eop, qu_cwsr = fst (snd cwsr), qu_cwsr_bo = snd (snd cwsr),
             qu_headers = (case fst cwsr of None \<Rightarrow> []
               | Some (a, ev) \<Rightarrow> cwsr_headers p (err_payload_addr (rg_addr (b_mapping ctl))) (ev_id ev)),
             qu_doorbell = 0, qu_err_event = fst cwsr, qu_err_ctx = None, qu_scratch_event = None, qu_scratch = None,
             qu_pending = 0\<rparr>, out_word out 1)))))))))))"

section \<open>Watches and destruction\<close>

definition s_watch :: "kernel \<Rightarrow> u64 \<Rightarrow> event \<Rightarrow> watch_callback \<Rightarrow> (shared, unit) sop" where
  "s_watch K a ev cb s =
     op_try (add_watch K a ev cb (sh_watcher s)) (\<lambda>(r, w). op_ret (r, s\<lparr>sh_watcher := w\<rparr>))"

definition unwatch :: "kernel \<Rightarrow> (u64 \<times> event) option \<Rightarrow> shared \<Rightarrow> shared op" where
  "unwatch K e s =
     (case e of
        None \<Rightarrow> op_ret s
      | Some (a, _) \<Rightarrow> op_try (remove_watch K a (sh_watcher s)) (\<lambda>(r, w).
          case r of Inl _ \<Rightarrow> op_fail ABORT | Inr _ \<Rightarrow> op_ret (s\<lparr>sh_watcher := w\<rparr>)))"

text \<open>
  What the destructor and the assignment have in common. The scratch region goes back to the
  allocator of the device.
\<close>

definition release_scratch :: "setting \<Rightarrow> queue \<Rightarrow> shared \<Rightarrow> (queue \<times> shared) op" where
  "release_scratch st q s =
     (case qu_scratch q of
        None \<Rightarrow> op_ret (q, s)
      | Some (a, sc) \<Rightarrow>
          op_try (drop_scratch (st_malloc st) (st_kernel st) (sc\<lparr>sc_pool := scratch_allocator (sh_dev s)\<rparr>)) (\<lambda>sc'.
          op_ret (q\<lparr>qu_scratch := Some (a, sc')\<rparr>, s\<lparr>sh_dev := (sh_dev s)\<lparr>scratch_allocator := sc_pool sc'\<rparr>\<rparr>)))"

definition queue_close :: "setting \<Rightarrow> queue \<Rightarrow> shared \<Rightarrow> (queue \<times> shared) op" where
  "queue_close st q s =
     (if \<not> qu_live q then op_ret (q, s)
      else op_try (unwatch (st_kernel st) (qu_err_event q) s) (\<lambda>s.
           op_try (unwatch (st_kernel st) (qu_scratch_event q) s) (\<lambda>s.
           op_assert (sys (st_kernel st) (DestroyQueue (qu_id q))) (release_scratch st q s))))"

definition drop_scratch_ctx :: "kernel \<Rightarrow> (u64 \<times> scratch_ctx) option \<Rightarrow> unit op" where
  "drop_scratch_ctx K c = (case c of None \<Rightarrow> op_ret () | Some (a, sc) \<Rightarrow> buffer_drop K (sc_bo sc))"

text \<open>The members, in the reverse order of their declaration.\<close>

definition queue_members_drop :: "kernel \<Rightarrow> queue \<Rightarrow> unit op" where
  "queue_members_drop K q =
     op_try (drop_scratch_ctx K (qu_scratch q)) (\<lambda>_.
     op_try (drop_boxed_event K (qu_scratch_event q)) (\<lambda>_.
     op_try (drop_boxed_event K (qu_err_event q)) (\<lambda>_.
     op_try (buffer_drop K (qu_cwsr_bo q)) (\<lambda>_.
     op_try (region_destroy K (qu_cwsr q)) (\<lambda>_.
     op_try (buffer_drop K (qu_eop q)) (\<lambda>_.
     op_try (buffer_drop K (qu_ring q)) (\<lambda>_. buffer_drop K (qu_control q))))))))"

definition queue_drop :: "setting \<Rightarrow> queue \<Rightarrow> shared \<Rightarrow> shared op" where
  "queue_drop st q s =
     op_try (queue_close st q s) (\<lambda>(q', s'). op_try (queue_members_drop (st_kernel st) q') (\<lambda>_. op_ret s'))"

definition moved_queue :: "queue \<Rightarrow> queue" where
  "moved_queue q = q\<lparr>qu_live := False, qu_id := 0, qu_control := null_buffer, qu_ring := null_buffer,
     qu_eop := null_buffer, qu_cwsr := null_region, qu_cwsr_bo := null_buffer, qu_doorbell := 0,
     qu_err_event := None, qu_err_ctx := None, qu_scratch_event := None, qu_scratch := None, qu_pending := 0\<rparr>"

definition queue_move :: "queue \<Rightarrow> queue \<times> queue" where
  "queue_move other = (other, moved_queue other)"

text \<open>The assignment, of a queue of the same device, to another object.\<close>

definition queue_assign :: "setting \<Rightarrow> queue \<Rightarrow> queue \<Rightarrow> shared \<Rightarrow> ((queue \<times> queue) \<times> shared) op" where
  "queue_assign st this other s =
     (let K = st_kernel st
      in op_try (queue_close st this s) (\<lambda>(this', s').
         op_try (buffer_assign K (qu_ring this') (qu_ring other)) (\<lambda>_.
         op_try (buffer_assign K (qu_control this') (qu_control other)) (\<lambda>_.
         op_try (buffer_assign K (qu_eop this') (qu_eop other)) (\<lambda>_.
         op_try (region_assign K (qu_cwsr this') (qu_cwsr other)) (\<lambda>_.
         op_try (buffer_assign K (qu_cwsr_bo this') (qu_cwsr_bo other)) (\<lambda>_.
         op_try (drop_boxed_event K (qu_err_event this')) (\<lambda>_.
         op_try (drop_boxed_event K (qu_scratch_event this')) (\<lambda>_.
         op_try (drop_scratch_ctx K (qu_scratch this')) (\<lambda>_.
         op_ret ((other, moved_queue other), s')))))))))))"

section \<open>Creation\<close>

definition s_doorbell :: "setting \<Rightarrow> u64 \<Rightarrow> (shared, u64) sop" where
  "s_doorbell st raw_offset s =
     op_catch (device_doorbell (st_kernel st) (st_kfd st) (sh_dev s) raw_offset)
       (\<lambda>e. op_ret (Inl e, s)) (\<lambda>(slot, dv). op_ret (Inr slot, s\<lparr>sh_dev := dv\<rparr>))"

text \<open>The locals of the creation, up to the constructor, in the reverse order of their declaration.\<close>

definition queue_locals_drop :: "kernel \<Rightarrow> queue \<Rightarrow> unit op" where
  "queue_locals_drop K q =
     op_try (buffer_drop K (qu_eop q)) (\<lambda>_.
     op_try (buffer_drop K (qu_ring q)) (\<lambda>_.
     op_try (drop_cwsr K (qu_err_event q, qu_cwsr q, qu_cwsr_bo q)) (\<lambda>_. buffer_drop K (qu_control q))))"

text \<open>The destructor of a queue that is not finished yet runs when one of these steps fails.\<close>

definition s_step :: "setting \<Rightarrow> queue \<Rightarrow> (shared, 'a) sop \<Rightarrow> ('a \<Rightarrow> (shared, 'b) sop) \<Rightarrow> (shared, 'b) sop" where
  "s_step st q m k = s_try (s_on_error (queue_drop st q) m) k"

definition watch_errors :: "setting \<Rightarrow> queue \<Rightarrow> (shared, queue) sop" where
  "watch_errors st q =
     (case qu_err_event q of
        None \<Rightarrow> s_ret q
      | Some (a, ev) \<Rightarrow>
          let payload = err_payload_addr (rg_addr (b_mapping (qu_control q)))
          in s_step st q (s_lift (box_alloc (st_kernel st) sizeof_QueueErrorCtx)) (\<lambda>_. \<lambda>s.
             let q' = q\<lparr>qu_err_ctx := Some \<lparr>ec_payload = payload, ec_queue = qu_id q, ec_gpu = gpu_id (props (dv_info (sh_dev s)))\<rparr>\<rparr>
             in s_step st q' (s_watch (st_kernel st) a ev (On_queue_error payload)) (\<lambda>_. s_ret q') s))"

definition watch_scratch :: "setting \<Rightarrow> queue \<Rightarrow> (shared, queue) sop" where
  "watch_scratch st q =
     s_step st q (s_lift (boxed_event st)) (\<lambda>(a, ev).
     let q' = q\<lparr>qu_scratch_event := Some (a, ev)\<rparr>
     in s_step st q' (s_lift (box_alloc (st_kernel st) sizeof_ScratchCtx)) (\<lambda>c. \<lambda>s.
        let q'' = q'\<lparr>qu_scratch := Some (c, pr_ctx (protocol_start (scratch_allocator (sh_dev s))))\<rparr>
        in s_step st q'' (s_watch (st_kernel st) a ev (On_scratch c)) (\<lambda>_. s_ret q'') s))"

definition queue_create :: "setting \<Rightarrow> queue_type \<Rightarrow> u64 \<Rightarrow> u32 \<Rightarrow> (shared, queue) sop" where
  "queue_create st ty ring_size target_xcc =
     s_when (\<not> has_single_bit ring_size) EINVAL (
     s_when (ring_size > 0xFFFFFFFF) EINVAL (\<lambda>s.
       let K = st_kernel st; p = props (dv_info (sh_dev s))
       in s_try (s_lift (queue_memory st p (mem_dev_of (sh_dev s)) ty ring_size target_xcc)) (\<lambda>(q, offset).
          s_try (s_on_error (s_free (op_assert (sys K (DestroyQueue (qu_id q))) (queue_locals_drop K q)))
                   (s_doorbell st offset)) (\<lambda>slot.
          s_try (s_on_error (s_free (queue_locals_drop K q)) (s_lift (mutex_box K))) (\<lambda>_.
          s_try (watch_errors st (q\<lparr>qu_doorbell := slot\<rparr>)) (\<lambda>q'.
          if ty = COMPUTE then watch_scratch st q' else s_ret q')))) s))"

section \<open>Compute and SDMA queues\<close>

text \<open>The ring of a new queue: its size is that of the buffer, which is the size asked for in whole pages.\<close>

definition fresh_ring :: "queue \<Rightarrow> ring_queue" where
  "fresh_ring q = \<lparr>q_type = qu_type q, ring = replicate (unat (b_len (qu_ring q)) div 4) 0, pending_wptr = qu_pending q,
     write_ptr = 0, doorbell = 0\<rparr>"

definition init_packets :: "u64 \<Rightarrow> u32 list" where
  "init_packets eop = write_data eop 0 DST_MEM_ASYNC POLICY_NOA True @ write_data (eop + 4) 0 DST_MEM_ASYNC POLICY_NOA True"

text \<open>
  \<^verbatim>\<open>ComputeQueue::create\<close> and \<^verbatim>\<open>SDMAQueue::create\<close>. The first packets go to the new ring; the polls
  of a wait for room are inputs, and \<open>None\<close> is a wait that still spins.
\<close>

record compute_handle =
  ch_base :: queue
  ch_ring :: ring_queue
  ch_eop_seq :: buffer
  ch_next_eop_seq :: u32

definition submit_first :: "ring_queue \<Rightarrow> u32 list \<Rightarrow> room_env \<Rightarrow> room_env \<Rightarrow> ring_queue res" where
  "submit_first rq data env1 env2 =
     (case submit_impl rq data env1 env2 of
        None \<Rightarrow> Inl HANGS | Some (Inl e, _) \<Rightarrow> Inl e | Some (Inr _, rq') \<Rightarrow> Inr rq')"

definition compute_drop :: "setting \<Rightarrow> compute_handle \<Rightarrow> shared \<Rightarrow> shared op" where
  "compute_drop st c s =
     op_try (queue_drop st (ch_base c) s) (\<lambda>s'. op_try (buffer_drop (st_kernel st) (ch_eop_seq c)) (\<lambda>_. op_ret s'))"

definition compute_create ::
    "setting \<Rightarrow> room_env \<Rightarrow> room_env \<Rightarrow> u64 \<Rightarrow> u32 \<Rightarrow> (shared, compute_handle) sop" where
  "compute_create st env1 env2 ring_size target_xcc =
     s_try (queue_create st COMPUTE ring_size target_xcc) (\<lambda>q. \<lambda>s.
       s_step st q (s_lift (allocate_mapped (st_kernel st) (st_page st) (mem_dev_of (sh_dev s)) 8 VRAM
                              (MF_WRITABLE OR MF_NO_SUBSTITUTE OR MF_UNCACHED))) (\<lambda>eop.
       let c = \<lparr>ch_base = q, ch_ring = fresh_ring q, ch_eop_seq = eop, ch_next_eop_seq = 0\<rparr>
       in s_try (s_on_error (compute_drop st c)
                   (s_lift (op_res (submit_first (ch_ring c) (init_packets (rg_addr (b_mapping eop))) env1 env2))))
            (\<lambda>rq. s_ret (c\<lparr>ch_ring := rq\<rparr>))) s)"

definition sdma_create :: "setting \<Rightarrow> queue_type \<Rightarrow> u64 \<Rightarrow> (shared, queue) sop" where
  "sdma_create st ty ring_size = s_when (ty = COMPUTE) EINVAL (queue_create st ty ring_size 0)"

end
