(* ===== verification/Queue_Life.thy ===== *)
theory Queue_Life
  imports Queue_Create
begin

text \<open>
  What a queue owns from its creation to its destruction: mappings, memory objects, events and the
  queue of the driver by the ownership judgement of \<^verbatim>\<open>Resources\<close> and \<^verbatim>\<open>Shared_State\<close>, and its entries
  in the list of the fault watcher by a judgement of the same form.
\<close>

section \<open>Who owns what\<close>

definition boxed_bag :: "(u64 \<times> event) option \<Rightarrow> token multiset" where
  "boxed_bag e = (case e of None \<Rightarrow> {#} | Some (a, ev) \<Rightarrow> event_bag ev)"

text \<open>
  Scratch memory lies in the reservation of the device, so a queue with scratch memory owns its
  object only.
\<close>

definition scratch_bag :: "(u64 \<times> scratch_ctx) option \<Rightarrow> token multiset" where
  "scratch_bag c = (case c of None \<Rightarrow> {#} | Some (a, sc) \<Rightarrow>
     if sc_va sc = 0 then buffer_bag (sc_bo sc)
     else if b_handle (sc_bo sc) = 0 then {#} else {#Obj (b_handle (sc_bo sc))#})"

definition members_bag :: "queue \<Rightarrow> token multiset" where
  "members_bag q = boxed_bag (qu_scratch_event q) + (boxed_bag (qu_err_event q) + (buffer_bag (qu_cwsr_bo q) +
     (region_bag (qu_cwsr q) + (buffer_bag (qu_eop q) + (buffer_bag (qu_ring q) + buffer_bag (qu_control q))))))"

definition queue_bag :: "queue \<Rightarrow> token multiset" where
  "queue_bag q = {#Que (qu_id q)#} + (scratch_bag (qu_scratch q) + members_bag q)"

definition shared_bag :: "shared \<Rightarrow> token multiset" where
  "shared_bag s = device_bag (sh_dev s) + (case sh_watcher s of None \<Rightarrow> {#} | Some w \<Rightarrow> watcher_bag w)"

lemma drops_boxed: "drops (boxed_bag e) (drop_boxed_event K e)"
  using drops_event drops_ret by (auto simp: boxed_bag_def drop_boxed_event_def split: option.splits)

lemma drops_cwsr: "drops (boxed_bag err + (buffer_bag bo + region_bag area)) (drop_cwsr K (err, area, bo))"
  unfolding drop_cwsr_def prod.case by (intro drops_seq drops_boxed drops_buffer drops_region)

lemma holds_boxed_event:
  assumes "os_contract (st_kernel st)" and "0 \<le> st_kfd st"
  shows "holds {#} {#} (boxed_event st) (\<lambda>e. boxed_bag (Some e))"
  unfolding boxed_event_def
  by (rule holds_scope [OF holds_event_create [OF assms] drops_event], rule holds_neutral [OF neutral_box_alloc],
      rule holds_ret) (simp add: boxed_bag_def)

lemma holds_pin_mapped:
  assumes "os_contract K"
  shows "holds {#} {#} (pin_mapped K page d ptr sz flags) buffer_bag"
  unfolding pin_mapped_def
proof (rule holds_try [OF holds_buffer_pin [OF assms]])
  fix b
  show "holds (buffer_bag b) {#} (op_try (buffer_map K b [md_gpu d])
      (\<lambda>(r, b'). on_error (buffer_drop K b') (op_try (op_res r) (\<lambda>_. op_ret b')))) buffer_bag"
    using holds_map_scope [where T = "{#}" and b = b and k = op_ret]
    by (simp add: holds_ret buffer_bag_def)
qed

lemma holds_create_cwsr:
  assumes "os_contract (st_kernel st)" and "0 \<le> st_kfd st"
  shows "holds {#} {#} (create_cwsr st p md)
    (\<lambda>(err, area, bo). boxed_bag err + (buffer_bag bo + region_bag area))"
  unfolding create_cwsr_def Let_def
  apply (rule holds_scope [OF holds_boxed_event [OF assms] drops_boxed])
  apply (rule holds_scope [OF holds_region_create [OF os_contractD(1) [OF assms(1)]] drops_region])
  apply (rule holds_if)
   apply (rule holds_neutral)
    apply (auto simp: register_svm_def intro!: own_rules)[1]
   apply (rule holds_ret, simp add: ac_simps)
  apply (rule holds_try [OF holds_gain [OF holds_pin_mapped [OF assms(1)]]], rule refl)
  apply (rule holds_ret, simp add: ac_simps)
  done

lemma holds_create_attempts:
  assumes "os_contract K"
  shows "holds {#} {#} (create_attempts K args n) (\<lambda>out. {#Que (ucast (out_word out 0))#})"
proof (induction n)
  case 0
  show ?case using holds_calls(3) [OF assms, of "{#}"] by simp
next
  case (Suc n)
  let ?F = "\<lambda>out :: u64 list. {#Que (ucast (out_word out 0))#}"
  note sober = survives_sys(1) [OF os_contractD(4) [OF assms]]
  have retry: "holds {#} {#} (op_else (sys K (Sleep t)) (\<lambda>_. create_attempts K args n) (\<lambda>_. create_attempts K args n)) ?F" for t
    by (rule holds_else [OF neutral_holds Suc Suc sober]) (simp add: neutral_basic)
  have "holds {#} {#} (sys K (CreateQueue args)) ?F" using holds_calls(3) [OF assms, of "{#}"] by simp
  then show ?case unfolding create_attempts.simps
    by (rule holds_else [OF _ _ _ sober]) (auto intro: retry holds_fail holds_ret)
qed

text \<open>The driver is asked at most once more than there are retries, and only after it ran out of memory.\<close>

definition asks_for_queue :: "sys_call \<times> reply \<Rightarrow> bool" where
  "asks_for_queue cr = (case fst cr of CreateQueue q \<Rightarrow> True | _ \<Rightarrow> False)"

lemma asks_for_queue_simps [simp]: "asks_for_queue (CreateQueue q, r)" "\<not> asks_for_queue (Sleep t, r)"
  by (simp_all add: asks_for_queue_def)

lemma create_attempts_bounded:
  assumes "create_attempts K args n h = (r, h')"
  shows "\<exists>t. h' = h @ t \<and> length (filter asks_for_queue t) \<le> Suc n \<and>
     list_all (\<lambda>cr. asks_for_queue cr \<longrightarrow> snd cr = Failed ENOMEM) (butlast t) \<and>
     (case r of Inl e \<Rightarrow> snd (last t) = Failed e | Inr out \<Rightarrow> snd (last t) = Done out) \<and> t \<noteq> []"
  using assms
proof (induction n arbitrary: h)
  case 0
  then show ?case by (auto simp: sys_eq)
next
  case (Suc n)
  let ?c = "CreateQueue args" and ?s = "Sleep (QUEUE_RETRY_MS * 1000000)"
  from Suc.prems consider
      (once) out where "h' = h @ [(?c, out)]" "case r of Inl e \<Rightarrow> out = Failed e | Inr xs \<Rightarrow> out = Done xs"
    | (again) out where "create_attempts K args n (h @ [(?c, Failed ENOMEM), (?s, out)]) = (r, h')"
    by (auto simp: op_eqs split: if_splits)
  then show ?case
  proof cases
    case once
    then show ?thesis by (auto split: sum.splits)
  next
    case again
    from Suc.IH [OF this] obtain t where t: "h' = h @ [(?c, Failed ENOMEM), (?s, out)] @ t"
      "length (filter asks_for_queue t) \<le> Suc n" "list_all (\<lambda>cr. asks_for_queue cr \<longrightarrow> snd cr = Failed ENOMEM) (butlast t)"
      "case r of Inl e \<Rightarrow> snd (last t) = Failed e | Inr out \<Rightarrow> snd (last t) = Done out" "t \<noteq> []" by auto
    then show ?thesis
      by (intro exI [of _ "[(?c, Failed ENOMEM), (?s, out)] @ t"]) (simp split: sum.splits)
  qed
qed

lemma holds_queue_memory:
  assumes "os_contract (st_kernel st)" and "0 \<le> st_kfd st"
  shows "holds {#} {#} (queue_memory st p md ty ring_size target_xcc) (\<lambda>(q, _). queue_bag q)"
proof -
  note buf = holds_scope [OF holds_allocate_mapped [OF assms(1)] drops_buffer]
  let ?C = "\<lambda>(err, area, bo). boxed_bag err + (buffer_bag bo + region_bag area)"
  have cwsr: "holds {#} {#} (if ty = COMPUTE \<and> cwsr_size p > 0 then create_cwsr st p md
      else op_ret (None, null_region, null_buffer)) ?C"
    by (rule holds_if [OF holds_create_cwsr [OF assms] holds_ret]) (simp add: boxed_bag_def)
  have cdrop: "drops (?C c) (drop_cwsr K c)" for c K by (cases c) (simp add: drops_cwsr)
  have eop: "holds {#} {#} (if ty = COMPUTE then allocate_mapped K page md EOP_BUFFER_SIZE VRAM fl else op_ret null_buffer) buffer_bag"
    if "os_contract K" for K page fl
    by (rule holds_if [OF holds_allocate_mapped [OF that] holds_ret]) simp
  show ?thesis unfolding queue_memory_def Let_def
    apply (rule buf)
    apply (rule holds_scope [OF cwsr cdrop])
    apply (rule buf)
    apply (rule holds_scope [OF eop [OF assms(1)] drops_buffer])
    apply (rule holds_try [OF holds_gain [OF holds_create_attempts [OF assms(1)]]], rule refl)
    apply (rule holds_ret)
    apply (simp add: queue_bag_def members_bag_def scratch_bag_def boxed_bag_def ac_simps split: prod.splits)
    done
qed

section \<open>Destruction gives everything back\<close>

definition watched :: "shared \<Rightarrow> u64 list" where
  "watched s = (case sh_watcher s of None \<Rightarrow> [] | Some w \<Rightarrow> map we_event (fw_watches w))"

definition watch_of :: "(u64 \<times> event) option \<Rightarrow> u64 multiset" where
  "watch_of e = (case e of None \<Rightarrow> {#} | Some (a, _) \<Rightarrow> {#a#})"

lemma watch_frame:
  "wake_up K w h = (Inr (r, w'), h') \<Longrightarrow> w' = Some w"
  "push_watch K a ev cb w h = (Inr w2, h') \<Longrightarrow> watcher_bag w2 = watcher_bag w \<and>
     fw_watches w2 = fw_watches w @ [\<lparr>we_event = a, we_callback = cb, we_event_id = ev_id ev\<rparr>]"
  "watcher_bag (drop_watch a w) = watcher_bag w"
  by (auto simp: wake_up_def push_watch_def push_one_def drop_watch_def watcher_bag_def op_eqs op_catch_eq split: if_splits)

lemma watched_drop: "mset (map we_event (fw_watches (drop_watch a w))) = mset (map we_event (fw_watches w)) - {#a#}"
proof -
  have "fw_watches (drop_watch a w) = take_out a (fw_watches w)" by (simp add: drop_watch_def)
  then show ?thesis by (simp only: take_out_events)
qed

lemma unwatch_keeps:
  assumes "unwatch K e s h = (r, h')"
  shows "owned h' = owned h \<and> (case r of Inl x \<Rightarrow> fatal x
     | Inr s' \<Rightarrow> shared_bag s' = shared_bag s \<and> sh_dev s' = sh_dev s \<and>
         mset (watched s') = mset (watched s) - watch_of e \<and> (sh_watcher s \<noteq> None \<longrightarrow> sh_watcher s' \<noteq> None))"
proof (cases e)
  case None
  with assms show ?thesis by (auto simp: unwatch_def watch_of_def op_eqs)
next
  case (Some p)
  obtain a ev where p: "p = (a, ev)" by fastforce
  obtain x h1 where rm: "remove_watch K a (sh_watcher s) h = (x, h1)" by fastforce
  then have o: "owned h1 = owned h" using neutral_watch(2) by (auto simp: neutral_def)
  show ?thesis
  proof (cases x)
    case (Inl y)
    then have "fatal y" using rm
      by (auto simp: remove_watch_def wake_up_def op_eqs op_catch_eq split: option.splits if_splits)
    with assms rm o Inl show ?thesis by (auto simp: unwatch_def Some p op_eqs)
  next
    case (Inr z)
    obtain q w where z: "z = (q, w)" by fastforce
    have w: "w = map_option (drop_watch a) (sh_watcher s)"
      using rm by (auto simp: Inr z remove_watch_def op_eqs dest: watch_frame(1) split: option.splits)
    have "shared_bag (s\<lparr>sh_watcher := w\<rparr>) = shared_bag s"
      by (cases "sh_watcher s") (simp_all add: shared_bag_def w watch_frame(3))
    moreover have "mset (watched (s\<lparr>sh_watcher := w\<rparr>)) = mset (watched s) - {#a#}"
      using watched_drop by (cases "sh_watcher s") (simp_all add: watched_def w)
    moreover have "sh_watcher s \<noteq> None \<longrightarrow> w \<noteq> None" by (auto simp: w)
    ultimately show ?thesis using assms rm o Inr z
      by (auto simp: unwatch_def Some p op_eqs watch_of_def split: sum.splits)
  qed
qed

lemma holds_unwatch: "holds (shared_bag s + T) V (unwatch K e s) (\<lambda>s'. shared_bag s' + T)"
proof (rule holds_harmless)
  show "neutral (unwatch K e s)" using unwatch_keeps by (fastforce simp: neutral_def)
  show "unwatch K e s h = (Inl x, h') \<Longrightarrow> fatal x" for h x h' using unwatch_keeps by fastforce
  show "yields (unwatch K e s) s' \<Longrightarrow> shared_bag s' + T = shared_bag s + T" for s'
    using unwatch_keeps by (fastforce simp: yields_def)
qed

definition rest_bag :: "(u64 \<times> scratch_ctx) option \<Rightarrow> token multiset" where
  "rest_bag c = (case c of None \<Rightarrow> {#} | Some (a, sc) \<Rightarrow> buffer_bag (sc_bo sc))"

lemma drops_scratch_ctx: "drops (rest_bag c) (drop_scratch_ctx K c)"
  using drops_buffer drops_ret by (auto simp: rest_bag_def drop_scratch_ctx_def split: option.splits)

lemma holds_drop_scratch:
  "holds (scratch_bag (Some (a, sc))) V (drop_scratch mal K sc) (\<lambda>sc'. buffer_bag (sc_bo sc'))"
proof (cases "sc_va sc = 0")
  case True
  then show ?thesis by (simp add: drop_scratch_def scratch_bag_def holds_ret)
next
  case False
  have returned: "holds {#} V (pool_return mal va sz s) (\<lambda>sc'. buffer_bag (sc_bo sc'))" if "sc_bo s = null_buffer" for va sz s
    by (rule holds_harmless)
       (use that in \<open>auto simp: pool_return_def neutral_def yields_def op_eqs split: sum.splits\<close>)
  have gone: "b_handle bo = 0 \<and> b_mapping bo = null_region"
    if "yields (release_device K b) bo" for b bo
    using that by (auto simp: yields_def release_device_def buffer_destroy_def region_release_def
        op_eqs Let_def split: if_splits)
  have clear: "holds {#} V (buffer_assign K bo null_buffer) (\<lambda>_. {#})"
    if "b_handle bo = 0" "b_mapping bo = null_region" for bo
    by (rule holds_harmless)
       (use that in \<open>auto simp: buffer_assign_def buffer_destroy_def region_assign_def region_destroy_def null_region_def
         neutral_def op_eqs\<close>)
  have "holds ({#} + (if b_handle (sc_bo sc) = 0 then {#} else {#Obj (b_handle (sc_bo sc))#})) V
      (drop_scratch mal K sc) (\<lambda>sc'. buffer_bag (sc_bo sc'))"
    unfolding drop_scratch_def if_not_P [OF False]
  proof (rule holds_dropping)
    show "drops (if b_handle (sc_bo sc) = 0 then {#} else {#Obj (b_handle (sc_bo sc))#}) (release_device K (sc_bo sc))"
      unfolding release_device_def by (rule drops_post [OF drops_buffer_destroy]) simp
    fix bo assume "yields (release_device K (sc_bo sc)) bo"
    note bo = gone [OF this]
    show "holds {#} V (op_try (buffer_assign K bo null_buffer) (\<lambda>(bo', _).
           op_try (pool_return mal (sc_va sc) (sc_size sc) (sc\<lparr>sc_bo := bo'\<rparr>)) (\<lambda>s'.
           op_ret (s'\<lparr>sc_va := 0, sc_size := 0, sc_tmpring := 0, sc_per_thread := 0\<rparr>)))) (\<lambda>sc'. buffer_bag (sc_bo sc'))"
    proof (rule holds_try [OF clear])
      fix p assume "yields (buffer_assign K bo null_buffer) p"
      then have "fst p = null_buffer"
        using bo by (auto simp: yields_def buffer_assign_def region_assign_def op_eqs null_buffer_def)
      then show "holds {#} V (case p of (bo', _) \<Rightarrow>
           op_try (pool_return mal (sc_va sc) (sc_size sc) (sc\<lparr>sc_bo := bo'\<rparr>)) (\<lambda>s'.
           op_ret (s'\<lparr>sc_va := 0, sc_size := 0, sc_tmpring := 0, sc_per_thread := 0\<rparr>))) (\<lambda>sc'. buffer_bag (sc_bo sc'))"
        by (cases p) (auto intro!: holds_try [OF returned] holds_ret)
    qed (use bo in simp_all)
  qed
  with False show ?thesis by (simp add: scratch_bag_def)
qed

lemma holds_release_scratch:
  "holds (shared_bag s + scratch_bag (qu_scratch q)) V (release_scratch st q s)
     (\<lambda>(q', s'). shared_bag s' + rest_bag (qu_scratch q'))"
proof (cases "qu_scratch q")
  case None
  then show ?thesis by (auto simp: release_scratch_def scratch_bag_def rest_bag_def intro!: holds_ret)
next
  case (Some p)
  obtain a sc where p: "p = (a, sc)" by fastforce
  let ?sc = "sc\<lparr>sc_pool := scratch_allocator (sh_dev s)\<rparr>"
  have "holds (scratch_bag (Some (a, ?sc)) + shared_bag s) V (drop_scratch (st_malloc st) (st_kernel st) ?sc)
      (\<lambda>sc'. buffer_bag (sc_bo sc') + shared_bag s)"
    by (rule holds_frame_any [OF holds_drop_scratch])
  moreover have "scratch_bag (Some (a, ?sc)) = scratch_bag (qu_scratch q)" by (simp add: Some p scratch_bag_def)
  ultimately have d: "holds (shared_bag s + scratch_bag (qu_scratch q)) V
      (drop_scratch (st_malloc st) (st_kernel st) ?sc) (\<lambda>sc'. buffer_bag (sc_bo sc') + shared_bag s)"
    by (simp add: ac_simps)
  show ?thesis unfolding release_scratch_def Some p option.case prod.case
    by (rule holds_try) (use d in \<open>auto simp: Some p shared_bag_def device_bag_def rest_bag_def ac_simps intro!: holds_ret\<close>)
qed

lemma release_scratch_frame:
  "release_scratch st q s h = (Inr (q', s'), h') \<Longrightarrow>
     q' = q\<lparr>qu_scratch := qu_scratch q'\<rparr> \<and> watched s' = watched s"
  by (auto simp: release_scratch_def watched_def op_eqs split: option.splits)

lemma holds_queue_close:
  assumes "qu_live q"
  shows "holds (shared_bag s + queue_bag q) V (queue_close st q s)
    (\<lambda>(q', s'). shared_bag s' + (rest_bag (qu_scratch q') + members_bag q'))"
proof -
  have release: "holds (shared_bag s + scratch_bag (qu_scratch q) + members_bag q) V (release_scratch st q s)
      (\<lambda>(q', s'). shared_bag s' + (rest_bag (qu_scratch q') + members_bag q'))" for s
  proof (rule holds_post [OF holds_frame_any [OF holds_release_scratch]])
    fix p assume "yields (release_scratch st q s) p"
    then obtain q' s' where p: "p = (q', s')" and "q' = q\<lparr>qu_scratch := qu_scratch q'\<rparr>"
      using release_scratch_frame by (cases p) (auto simp: yields_def)
    from this(2) have "members_bag q' = members_bag q"
      by (metis (no_types, lifting) members_bag_def queue.ext_inject queue.select_convs queue.surjective queue.update_convs(14))
    then show "(case p of (q', s') \<Rightarrow> shared_bag s' + rest_bag (qu_scratch q')) + members_bag q =
        (case p of (q', s') \<Rightarrow> shared_bag s' + (rest_bag (qu_scratch q') + members_bag q'))"
      by (simp add: p ac_simps)
  qed
  have destroy: "holds (shared_bag s + queue_bag q) V
      (op_assert (sys (st_kernel st) (DestroyQueue (qu_id q))) (release_scratch st q s))
      (\<lambda>(q', s'). shared_bag s' + (rest_bag (qu_scratch q') + members_bag q'))" for s
  proof -
    have "holds ((shared_bag s + scratch_bag (qu_scratch q) + members_bag q) + {#Que (qu_id q)#}) V
        (op_try (op_assert (sys (st_kernel st) (DestroyQueue (qu_id q))) (op_ret ())) (\<lambda>_. release_scratch st q s))
        (\<lambda>(q', s'). shared_bag s' + (rest_bag (qu_scratch q') + members_bag q'))"
      by (rule holds_drop [OF drops_calls(3) release])
    then show ?thesis by (subst op_assert_try) (simp add: queue_bag_def ac_simps)
  qed
  show ?thesis unfolding queue_close_def using assms
    by (auto intro!: holds_try [OF holds_unwatch] destroy)
qed

lemma drops_members: "drops (rest_bag (qu_scratch q) + members_bag q) (queue_members_drop K q)"
  unfolding queue_members_drop_def members_bag_def
  by (intro drops_seq drops_scratch_ctx drops_boxed drops_buffer drops_region)

lemma s_drops_queue:
  assumes "qu_live q"
  shows "s_drops shared_bag (queue_bag q) (queue_drop st q)"
  unfolding s_drops_def queue_drop_def
proof (intro allI, rule holds_try [OF holds_queue_close [OF assms]])
  fix s V and p :: "queue \<times> shared"
  obtain q' s' where p: "p = (q', s')" by fastforce
  show "holds (case p of (q', s') \<Rightarrow> shared_bag s' + (rest_bag (qu_scratch q') + members_bag q')) V
      (case p of (q', s') \<Rightarrow> op_try (queue_members_drop (st_kernel st) q') (\<lambda>_. op_ret s')) shared_bag"
    unfolding p prod.case by (rule holds_drop [OF drops_members], rule holds_ret) simp
qed

lemma drops_locals:
  assumes "qu_scratch_event q = None"
  shows "drops (members_bag q) (queue_locals_drop K q)"
proof -
  have "drops (buffer_bag (qu_eop q) + (buffer_bag (qu_ring q) + ((boxed_bag (qu_err_event q) +
      (buffer_bag (qu_cwsr_bo q) + region_bag (qu_cwsr q))) + buffer_bag (qu_control q)))) (queue_locals_drop K q)"
    unfolding queue_locals_drop_def by (intro drops_seq drops_buffer drops_cwsr)
  with assms show ?thesis by (simp add: members_bag_def boxed_bag_def ac_simps)
qed

section \<open>Creation owns what it returns\<close>

lemma owns_watch: "s_owns shared_bag T T (s_watch K a ev cb) (\<lambda>_. T)"
  unfolding s_owns_def s_watch_def
proof (intro allI)
  fix s :: shared and V
  let ?m = "op_try (add_watch K a ev cb (sh_watcher s)) (\<lambda>(r, w). op_ret (r, s\<lparr>sh_watcher := w\<rparr>))"
  have bags: "(case w of None \<Rightarrow> {#} | Some w \<Rightarrow> watcher_bag w) = (case sh_watcher s of None \<Rightarrow> {#} | Some w \<Rightarrow> watcher_bag w)"
    if "add_watch K a ev cb (sh_watcher s) h = (Inr (r, w), h')" for h r w h'
    using that by (auto simp: add_watch_def op_eqs op_catch_eq dest!: watch_frame(1,2) split: option.splits if_splits)
  show "holds (shared_bag s + T) V ?m (outcome_bag shared_bag T (\<lambda>_. T))"
  proof (rule holds_harmless)
    show "neutral ?m" by (auto intro!: own_rules neutral_watch split: prod.splits)
    show "?m h = (Inl e, h') \<Longrightarrow> fatal e" for h e h'
      by (auto simp: add_watch_def push_watch_def wake_up_def op_eqs op_catch_eq split: option.splits if_splits prod.splits)
    show "yields ?m x \<Longrightarrow> outcome_bag shared_bag T (\<lambda>_. T) x = shared_bag s + T" for x
      by (auto simp: yields_def op_try_eq op_ret_eq shared_bag_def outcome_bag_def dest!: bags split: sum.splits)
  qed
qed

lemma owns_doorbell:
  assumes "os_contract (st_kernel st)"
  shows "s_owns shared_bag T T (s_doorbell st raw) (\<lambda>_. T)"
  unfolding s_owns_def s_doorbell_def
proof (intro allI)
  fix s :: shared and V
  let ?W = "case sh_watcher s of None \<Rightarrow> {#} | Some w \<Rightarrow> watcher_bag w"
  have "holds (device_bag (sh_dev s) + (?W + T)) (device_bag (sh_dev s) + (?W + T))
      (device_doorbell (st_kernel st) (st_kfd st) (sh_dev s) raw) (\<lambda>p. (case p of (_, dv') \<Rightarrow> device_bag dv') + (?W + T))"
    by (rule holds_frame [OF holds_doorbell [OF assms]])
  then have d: "holds (shared_bag s + T) (shared_bag s + T)
      (device_doorbell (st_kernel st) (st_kfd st) (sh_dev s) raw) (\<lambda>(_, dv'). device_bag dv' + ?W + T)"
    by (simp add: shared_bag_def ac_simps case_prod_unfold)
  show "holds (shared_bag s + T) V (op_catch (device_doorbell (st_kernel st) (st_kfd st) (sh_dev s) raw)
       (\<lambda>e. op_ret (Inl e, s)) (\<lambda>(slot, dv). op_ret (Inr slot, s\<lparr>sh_dev := dv\<rparr>))) (outcome_bag shared_bag T (\<lambda>_. T))"
    by (rule holds_catch [OF d]) (auto intro!: holds_ret simp: shared_bag_def)
qed

lemma owns_step:
  assumes "qu_live q" and "s_owns shared_bag (queue_bag q) (queue_bag q) m R"
    and "\<And>x. s_owns shared_bag {#} (R x) (k x) F"
  shows "s_owns shared_bag {#} (queue_bag q) (s_step st q m k) F"
  unfolding s_step_def
  by (rule owns_try [OF owns_on_error [OF _ s_drops_queue [OF assms(1)]] assms(3)]) (use assms(2) in simp)

lemma owns_watch_errors:
  assumes "qu_live q"
  shows "s_owns shared_bag {#} (queue_bag q) (watch_errors st q) queue_bag"
proof (cases "qu_err_event q")
  case None
  then show ?thesis by (simp add: watch_errors_def owns_ret)
next
  case (Some p)
  obtain a ev where p: "p = (a, ev)" by fastforce
  have box: "s_owns shared_bag T T (s_lift (box_alloc K n)) (\<lambda>_. T)" for T K n
    by (rule owns_lift [OF neutral_holds [OF neutral_box_alloc]])
  have same: "queue_bag (q\<lparr>qu_err_ctx := c\<rparr>) = queue_bag q" for c by (simp add: queue_bag_def members_bag_def)
  have watch: "s_owns shared_bag {#} (queue_bag q) (s_step st (q\<lparr>qu_err_ctx := c\<rparr>) (s_watch K a ev cb)
      (\<lambda>_. s_ret (q\<lparr>qu_err_ctx := c\<rparr>))) queue_bag" for c K cb
    unfolding same [of c, symmetric]
    by (rule owns_step [OF _ owns_watch]) (use assms in \<open>simp_all add: owns_ret\<close>)
  show ?thesis unfolding watch_errors_def Some p option.case prod.case Let_def
    by (rule owns_step [OF assms box], rule owns_state, rule watch)
qed

lemma owns_watch_scratch:
  assumes "os_contract (st_kernel st)" and "0 \<le> st_kfd st"
    and "qu_live q" and "qu_scratch_event q = None" and "qu_scratch q = None"
  shows "s_owns shared_bag {#} (queue_bag q) (watch_scratch st q) queue_bag"
proof -
  let ?ev = "\<lambda>e. q\<lparr>qu_scratch_event := Some e\<rparr>"
  have event: "s_owns shared_bag (queue_bag q) (queue_bag q) (s_lift (boxed_event st)) (\<lambda>e. queue_bag (?ev e))"
    by (rule owns_lift [OF holds_gain [OF holds_boxed_event [OF assms(1,2)]]])
       (use assms(4) in \<open>simp add: queue_bag_def members_bag_def boxed_bag_def ac_simps\<close>)
  have box: "s_owns shared_bag T T (s_lift (box_alloc K n)) (\<lambda>_. T)" for T K n
    by (rule owns_lift [OF neutral_holds [OF neutral_box_alloc]])
  have watch: "s_owns shared_bag {#} (queue_bag (?ev e)) (s_step st (?ev e\<lparr>qu_scratch := Some (c, pr_ctx (protocol_start pl))\<rparr>)
      (s_watch K a ev cb) (\<lambda>_. s_ret (?ev e\<lparr>qu_scratch := Some (c, pr_ctx (protocol_start pl))\<rparr>))) queue_bag" for e c pl K a ev cb
  proof -
    let ?q = "?ev e\<lparr>qu_scratch := Some (c, pr_ctx (protocol_start pl))\<rparr>"
    have same: "queue_bag (?ev e) = queue_bag ?q"
      using assms(5) by (simp add: queue_bag_def members_bag_def scratch_bag_def protocol_start_def)
    show ?thesis unfolding same
      by (rule owns_step [OF _ owns_watch]) (use assms(3) in \<open>simp_all add: owns_ret\<close>)
  qed
  show ?thesis unfolding watch_scratch_def Let_def
  proof (rule owns_step [OF assms(3) event])
    fix x :: "u64 \<times> event"
    obtain a ev where x: "x = (a, ev)" by fastforce
    show "s_owns shared_bag {#} (queue_bag (?ev x)) (case x of (a, ev) \<Rightarrow>
        s_step st (q\<lparr>qu_scratch_event := Some (a, ev)\<rparr>) (s_lift (box_alloc (st_kernel st) sizeof_ScratchCtx))
          (\<lambda>c s. s_step st (q\<lparr>qu_scratch_event := Some (a, ev), qu_scratch := Some (c, pr_ctx (protocol_start (scratch_allocator (sh_dev s))))\<rparr>)
             (s_watch (st_kernel st) a ev (On_scratch c))
             (\<lambda>_. s_ret (q\<lparr>qu_scratch_event := Some (a, ev), qu_scratch := Some (c, pr_ctx (protocol_start (scratch_allocator (sh_dev s))))\<rparr>)) s)) queue_bag"
      unfolding x prod.case
      by (rule owns_step [OF _ box], simp add: assms(3), rule owns_state, rule watch)
  qed
qed

lemma queue_memory_result:
  "yields (queue_memory st p md ty ring_size target_xcc) (q, off) \<Longrightarrow>
     qu_live q \<and> qu_type q = ty \<and> qu_scratch_event q = None \<and> qu_scratch q = None \<and> qu_pending q = 0 \<and> qu_err_ctx q = None"
  by (auto simp: yields_def queue_memory_def on_error_eq op_try_eq op_ret_eq Let_def)

lemma owns_queue_create:
  assumes "os_contract (st_kernel st)" and "0 \<le> st_kfd st"
  shows "s_owns shared_bag {#} {#} (queue_create st ty ring_size target_xcc) queue_bag"
proof -
  let ?K = "st_kernel st"
  have slot: "queue_bag (q\<lparr>qu_doorbell := x\<rparr>) = queue_bag q" for q x by (simp add: queue_bag_def members_bag_def)
  have undo: "s_drops shared_bag (queue_bag q)
      (s_free (op_assert (sys ?K (DestroyQueue (qu_id q))) (queue_locals_drop ?K q)))"
    if "qu_scratch_event q = None" "qu_scratch q = None" for q
    by (rule s_drops_free, subst op_assert_try)
       (use drops_seq [OF drops_calls(3) drops_locals [OF that(1)]] that(2) in \<open>simp add: queue_bag_def scratch_bag_def\<close>)
  have mutex: "s_owns shared_bag {#} (queue_bag q) (s_on_error (s_free (queue_locals_drop ?K q)) (s_lift (mutex_box ?K))) (\<lambda>_. queue_bag q)"
    if "qu_scratch_event q = None" for q
  proof (rule owns_on_error [OF owns_lift s_drops_free [OF drops_locals [OF that]]], rule holdsI)
    fix B h y h' assume "bag h = B + queue_bag q" "mutex_box ?K h = (Inr y, h')"
    then show "bag h' = B + queue_bag q" using neutral_heap(2) by (auto simp: neutral_def bag_def)
  next
    fix B h e h' assume "mutex_box ?K h = (Inl e, h')"
    then show "bag h' = B + ({#} + members_bag q)"
      using os_contractD(5) [OF assms(1), of h] by (auto simp: mutex_box_def op_eqs)
  qed
  have finish: "s_owns shared_bag {#} (queue_bag q) (s_try (watch_errors st q) (\<lambda>q'. if ty = COMPUTE then watch_scratch st q' else s_ret q')) queue_bag"
    if q: "qu_live q" "qu_scratch_event q = None" "qu_scratch q = None" for q
  proof (rule owns_try_yields [OF owns_watch_errors [OF q(1)]])
    fix q' s s' assume "yields (watch_errors st q s) (Inr q', s')"
    then have "qu_live q' \<and> qu_scratch_event q' = None \<and> qu_scratch q' = None"
      using q by (auto simp: yields_def watch_errors_def s_step_def s_Inr Let_def split: option.splits)
    then show "s_owns shared_bag {#} (queue_bag q') (if ty = COMPUTE then watch_scratch st q' else s_ret q') queue_bag"
      using owns_watch_scratch [OF assms] by (auto intro: owns_ret)
  qed
  have main: "s_owns shared_bag {#} {#} (s_try (s_lift (queue_memory st p md ty ring_size target_xcc)) (\<lambda>(q, off).
        s_try (s_on_error (s_free (op_assert (sys ?K (DestroyQueue (qu_id q))) (queue_locals_drop ?K q))) (s_doorbell st off))
          (\<lambda>slot. s_try (s_on_error (s_free (queue_locals_drop ?K q)) (s_lift (mutex_box ?K)))
            (\<lambda>_. s_try (watch_errors st (q\<lparr>qu_doorbell := slot\<rparr>))
              (\<lambda>q'. if ty = COMPUTE then watch_scratch st q' else s_ret q'))))) queue_bag" for p md
  proof (rule owns_try_yields [OF owns_lift [OF holds_queue_memory [OF assms]]])
    fix x :: "queue \<times> u64" and s1 s2 :: shared
    obtain q off where x: "x = (q, off)" by fastforce
    assume "yields (s_lift (queue_memory st p md ty ring_size target_xcc) s1) (Inr x, s2)"
    from queue_memory_result [OF yields_lift [OF this, unfolded x]]
    have q: "qu_live q" "qu_scratch_event q = None" "qu_scratch q = None" by auto
    show "s_owns shared_bag {#} (case x of (q, _) \<Rightarrow> queue_bag q) (case x of (q, off) \<Rightarrow>
        s_try (s_on_error (s_free (op_assert (sys ?K (DestroyQueue (qu_id q))) (queue_locals_drop ?K q))) (s_doorbell st off))
          (\<lambda>slot. s_try (s_on_error (s_free (queue_locals_drop ?K q)) (s_lift (mutex_box ?K)))
            (\<lambda>_. s_try (watch_errors st (q\<lparr>qu_doorbell := slot\<rparr>))
              (\<lambda>q'. if ty = COMPUTE then watch_scratch st q' else s_ret q')))) queue_bag"
      unfolding x prod.case
    proof (rule owns_try, rule owns_on_error [OF _ undo [OF q(2,3)]])
      show "s_owns shared_bag ({#} + queue_bag q) (queue_bag q) (s_doorbell st off) (\<lambda>_. queue_bag q)"
        using owns_doorbell [OF assms(1)] by simp
      fix slot
      show "s_owns shared_bag {#} (queue_bag q) (s_try (s_on_error (s_free (queue_locals_drop ?K q)) (s_lift (mutex_box ?K)))
            (\<lambda>_. s_try (watch_errors st (q\<lparr>qu_doorbell := slot\<rparr>))
              (\<lambda>q'. if ty = COMPUTE then watch_scratch st q' else s_ret q'))) queue_bag"
        by (rule owns_try [OF mutex [OF q(2)]]) (use finish [of "q\<lparr>qu_doorbell := slot\<rparr>"] q in \<open>simp add: slot\<close>)
    qed
  qed
  show ?thesis unfolding queue_create_def Let_def
    by (rule owns_when, rule refl, rule owns_when, rule refl, rule owns_state [OF main])
qed

section \<open>Watches come and go with their queue\<close>

text \<open>
  \<open>keeps_watches U A m F\<close>: when the watches are those of others and \<open>A\<close>, the operation leaves those of the
  others and \<open>F x\<close>, and a failure leaves no more than those of the others and \<open>U\<close>.
\<close>

definition keeps_watches ::
    "u64 multiset \<Rightarrow> u64 multiset \<Rightarrow> (shared, 'a) sop \<Rightarrow> ('a \<Rightarrow> u64 multiset) \<Rightarrow> bool" where
  "keeps_watches U A m F \<longleftrightarrow>
     (\<forall>M s h r s' h'. sh_watcher s \<noteq> None \<and> mset (watched s) = M + A \<and> m s h = (Inr (r, s'), h') \<longrightarrow>
        sh_watcher s' \<noteq> None \<and>
        (case r of Inl e \<Rightarrow> mset (watched s') \<subseteq># M + U | Inr x \<Rightarrow> mset (watched s') = M + F x))"

definition queue_watches :: "queue \<Rightarrow> u64 multiset" where
  "queue_watches q = watch_of (qu_err_event q) + watch_of (qu_scratch_event q)"

lemma keeps_watchesI:
  assumes "\<And>M s h x s' h'. sh_watcher s \<noteq> None \<Longrightarrow> mset (watched s) = M + A \<Longrightarrow> m s h = (Inr (Inr x, s'), h') \<Longrightarrow>
      sh_watcher s' \<noteq> None \<and> mset (watched s') = M + F x"
    and "\<And>M s h e s' h'. sh_watcher s \<noteq> None \<Longrightarrow> mset (watched s) = M + A \<Longrightarrow> m s h = (Inr (Inl e, s'), h') \<Longrightarrow>
      sh_watcher s' \<noteq> None \<and> mset (watched s') \<subseteq># M + U"
  shows "keeps_watches U A m F"
  unfolding keeps_watches_def
proof (intro allI impI, elim conjE)
  fix M s h r s' h' assume a: "sh_watcher s \<noteq> None" "mset (watched s) = M + A" "m s h = (Inr (r, s'), h')"
  show "sh_watcher s' \<noteq> None \<and> (case r of Inl e \<Rightarrow> mset (watched s') \<subseteq># M + U | Inr x \<Rightarrow> mset (watched s') = M + F x)"
    using assms(1) [OF a(1,2)] assms(2) [OF a(1,2)] a(3) by (cases r) auto
qed

lemma keeps_watchesD:
  "keeps_watches U A m F \<Longrightarrow> sh_watcher s \<noteq> None \<Longrightarrow> mset (watched s) = M + A \<Longrightarrow> m s h = (Inr (Inr x, s'), h') \<Longrightarrow>
     sh_watcher s' \<noteq> None \<and> mset (watched s') = M + F x"
  "keeps_watches U A m F \<Longrightarrow> sh_watcher s \<noteq> None \<Longrightarrow> mset (watched s) = M + A \<Longrightarrow> m s h = (Inr (Inl e, s'), h') \<Longrightarrow>
     sh_watcher s' \<noteq> None \<and> mset (watched s') \<subseteq># M + U"
  unfolding keeps_watches_def by fastforce+

lemma keeps_watches_ret: "F x = A \<Longrightarrow> keeps_watches U A (s_ret x) F"
  by (rule keeps_watchesI) (auto simp: s_ret_def op_ret_eq)

lemma keeps_watches_still:
  assumes "\<And>s h r s' h'. m s h = (Inr (r, s'), h') \<Longrightarrow> sh_watcher s' = sh_watcher s" and "A \<subseteq># U"
  shows "keeps_watches U A m (\<lambda>_. A)"
proof (rule keeps_watchesI)
  fix M s h x s' h'
  assume a: "sh_watcher s \<noteq> None" "mset (watched s) = M + A" "m s h = (Inr (Inr x, s'), h')"
  from assms(1) [OF a(3)] a(1,2) show "sh_watcher s' \<noteq> None \<and> mset (watched s') = M + A" by (simp add: watched_def)
next
  fix M s h e s' h'
  assume a: "sh_watcher s \<noteq> None" "mset (watched s) = M + A" "m s h = (Inr (Inl e, s'), h')"
  from assms(1) [OF a(3)] a(1,2) assms(2) show "sh_watcher s' \<noteq> None \<and> mset (watched s') \<subseteq># M + U"
    by (simp add: watched_def subset_mset.add_left_mono)
qed

lemma lift_still: "s_lift m s h = (Inr (r, s'), h') \<Longrightarrow> s' = s"
  by (auto simp: s_lift_def op_catch_eq op_eqs split: if_splits)

lemma doorbell_still: "s_doorbell st off s h = (Inr (r, s'), h') \<Longrightarrow> sh_watcher s' = sh_watcher s"
  by (auto simp: s_doorbell_def op_catch_eq op_eqs split: if_splits)

lemma keeps_watches_lift: "A \<subseteq># U \<Longrightarrow> keeps_watches U A (s_lift m) (\<lambda>_. A)"
  by (rule keeps_watches_still) (auto dest: lift_still)

lemma add_watch_effect:
  assumes "add_watch K a ev cb (Some w) h = (Inr (r, w'), h')"
  shows "\<exists>w2. w' = Some w2 \<and> (mset (map we_event (fw_watches w2)) = mset (map we_event (fw_watches w)) + {#a#} \<or>
     r \<noteq> Inr () \<and> w2 = w)"
  using assms by (auto simp: add_watch_def op_catch_eq op_ret_eq op_fail_eq dest!: watch_frame(1,2) split: if_splits)

lemma keeps_watches_watch: "A + {#a#} \<subseteq># U \<Longrightarrow> keeps_watches U A (s_watch K a ev cb) (\<lambda>_. A + {#a#})"
proof (rule keeps_watchesI)
  fix M s h x s' h'
  assume a: "sh_watcher s \<noteq> None" "mset (watched s) = M + A" "s_watch K a ev cb s h = (Inr (Inr x, s'), h')"
  then obtain w where w: "sh_watcher s = Some w" by auto
  with a(3) obtain w' where "add_watch K a ev cb (Some w) h = (Inr (Inr x, w'), h')" "s' = s\<lparr>sh_watcher := w'\<rparr>"
    by (auto simp: s_watch_def op_eqs)
  from add_watch_effect [OF this(1)] this(2) a(2) w show "sh_watcher s' \<noteq> None \<and> mset (watched s') = M + (A + {#a#})"
    by (auto simp: watched_def)
next
  fix M s h e s' h'
  assume u: "A + {#a#} \<subseteq># U"
  assume a: "sh_watcher s \<noteq> None" "mset (watched s) = M + A" "s_watch K a ev cb s h = (Inr (Inl e, s'), h')"
  then obtain w where w: "sh_watcher s = Some w" by auto
  with a(3) obtain w' where "add_watch K a ev cb (Some w) h = (Inr (Inl e, w'), h')" "s' = s\<lparr>sh_watcher := w'\<rparr>"
    by (auto simp: s_watch_def op_eqs)
  from add_watch_effect [OF this(1)] this(2) a(2) w
  have "sh_watcher s' \<noteq> None" "mset (watched s') = M + A \<or> mset (watched s') = M + (A + {#a#})"
    by (auto simp: watched_def)
  moreover have "A \<subseteq># U" using u by (meson mset_subset_eq_add_left subset_mset.trans)
  ultimately show "sh_watcher s' \<noteq> None \<and> mset (watched s') \<subseteq># M + U"
    using u by (auto simp: subset_mset.add_left_mono)
qed

lemma release_scratch_watcher: "release_scratch st q s h = (Inr (q', s'), h') \<Longrightarrow> sh_watcher s' = sh_watcher s"
  by (auto simp: release_scratch_def op_eqs split: option.splits)

lemma unwatch_watcher: "unwatch K e s h = (Inr s', h') \<Longrightarrow> sh_watcher s \<noteq> None \<Longrightarrow> sh_watcher s' \<noteq> None"
  by (drule unwatch_keeps) simp

text \<open>Destruction takes out the watches of the queue and leaves those of the others.\<close>

lemma queue_drop_watches:
  assumes "queue_drop st q s h = (Inr s', h')" and "qu_live q"
  shows "mset (watched s') = mset (watched s) - queue_watches q" and "sh_watcher s \<noteq> None \<Longrightarrow> sh_watcher s' \<noteq> None"
proof -
  from assms obtain s1 h1 s2 h2 h3 q' h4 where u: "unwatch (st_kernel st) (qu_err_event q) s h = (Inr s1, h1)"
    "unwatch (st_kernel st) (qu_scratch_event q) s1 h1 = (Inr s2, h2)"
    "release_scratch st q s2 h3 = (Inr (q', s'), h4)"
    by (auto simp: queue_drop_def queue_close_def op_eqs)
  note w = release_scratch_watcher [OF u(3)]
  have "mset (watched s') = mset (watched s) - watch_of (qu_err_event q) - watch_of (qu_scratch_event q)"
    using unwatch_keeps [OF u(1)] unwatch_keeps [OF u(2)] w by (simp add: watched_def)
  then show "mset (watched s') = mset (watched s) - queue_watches q"
    by (simp add: queue_watches_def)
  show "sh_watcher s \<noteq> None \<Longrightarrow> sh_watcher s' \<noteq> None" using unwatch_watcher [OF u(1)] unwatch_watcher [OF u(2)] w by simp
qed

lemma keeps_watches_try_yields:
  assumes "keeps_watches U A m R" and "\<And>x s s'. yields (m s) (Inr x, s') \<Longrightarrow> keeps_watches U (R x) (k x) F"
  shows "keeps_watches U A (s_try m k) F"
  unfolding keeps_watches_def
proof (intro allI impI, elim conjE)
  fix M s h r s' h' assume a: "sh_watcher s \<noteq> None" "mset (watched s) = M + A" "s_try m k s h = (Inr (r, s'), h')"
  then obtain x s1 h1 where b: "m s h = (Inr (x, s1), h1)"
    "(case x of Inl e \<Rightarrow> op_ret (Inl e, s1) | Inr x \<Rightarrow> k x s1) h1 = (Inr (r, s'), h')" by (auto simp: s_try_def op_try_eq)
  show "sh_watcher s' \<noteq> None \<and> (case r of Inl e \<Rightarrow> mset (watched s') \<subseteq># M + U | Inr x \<Rightarrow> mset (watched s') = M + F x)"
  proof (cases x)
    case (Inl e)
    with keeps_watchesD(2) [OF assms(1) a(1,2)] b show ?thesis by (auto simp: op_ret_eq)
  next
    case (Inr y)
    from b(1) have "yields (m s) (Inr y, s1)" by (auto simp: yields_def Inr)
    with assms(2) have t: "keeps_watches U (R y) (k y) F" by blast
    from keeps_watchesD(1) [OF assms(1) a(1,2)] b(1) Inr have "sh_watcher s1 \<noteq> None" "mset (watched s1) = M + R y" by blast+
    moreover have "k y s1 h1 = (Inr (r, s'), h')" using b(2) Inr by simp
    ultimately show ?thesis using t unfolding keeps_watches_def by blast
  qed
qed

lemma keeps_watches_try: "keeps_watches U A m R \<Longrightarrow> (\<And>x. keeps_watches U (R x) (k x) F) \<Longrightarrow> keeps_watches U A (s_try m k) F"
  by (rule keeps_watches_try_yields)

lemma keeps_watches_on_error:
  assumes "keeps_watches (U + D) A m F"
    and "\<And>s h s' h'. d s h = (Inr s', h') \<Longrightarrow>
       mset (watched s') = mset (watched s) - D \<and> (sh_watcher s \<noteq> None \<longrightarrow> sh_watcher s' \<noteq> None)"
  shows "keeps_watches U A (s_on_error d m) F"
  unfolding keeps_watches_def
proof (intro allI impI, elim conjE)
  fix M s h r s' h' assume a: "sh_watcher s \<noteq> None" "mset (watched s) = M + A" "s_on_error d m s h = (Inr (r, s'), h')"
  then obtain x s1 h1 where b: "m s h = (Inr (x, s1), h1)"
    "(case x of Inl e \<Rightarrow> op_try (d s1) (\<lambda>s''. op_ret (Inl e, s'')) | Inr x \<Rightarrow> op_ret (Inr x, s1)) h1 = (Inr (r, s'), h')"
    by (auto simp: s_on_error_def op_try_eq)
  show "sh_watcher s' \<noteq> None \<and> (case r of Inl e \<Rightarrow> mset (watched s') \<subseteq># M + U | Inr x \<Rightarrow> mset (watched s') = M + F x)"
  proof (cases x)
    case (Inl e)
    with b have d: "d s1 h1 = (Inr s', h')" "r = Inl e" by (auto simp: op_eqs)
    have "sh_watcher s1 \<noteq> None \<and> mset (watched s1) \<subseteq># M + (U + D)"
      using keeps_watchesD(2) [OF assms(1) a(1,2)] b(1) Inl by blast
    with assms(2) [OF d(1)] d(2) show ?thesis by (simp add: subset_eq_diff_conv add.assoc)
  next
    case (Inr y)
    with keeps_watchesD(1) [OF assms(1) a(1,2)] b show ?thesis by (auto simp: op_ret_eq)
  qed
qed

lemma keeps_watches_step:
  assumes "qu_live q" and "keeps_watches (queue_watches q) A m R" and "\<And>x. keeps_watches {#} (R x) (k x) F"
  shows "keeps_watches {#} A (s_step st q m k) F"
  unfolding s_step_def
  by (rule keeps_watches_try [OF keeps_watches_on_error assms(3)]) (use assms(2) queue_drop_watches [OF _ assms(1)] in simp_all)

lemma keeps_watches_state: "(\<And>s. keeps_watches U A (m s) F) \<Longrightarrow> keeps_watches U A (\<lambda>s. m s s) F"
  unfolding keeps_watches_def by blast

lemma keeps_watches_watch_errors:
  assumes "qu_live q" and "qu_scratch_event q = None"
  shows "keeps_watches {#} {#} (watch_errors st q) queue_watches"
proof (cases "qu_err_event q")
  case None
  then show ?thesis using assms(2) by (simp add: watch_errors_def keeps_watches_ret queue_watches_def watch_of_def)
next
  case (Some p)
  obtain a ev where p: "p = (a, ev)" by fastforce
  have w: "queue_watches (q\<lparr>qu_err_ctx := c\<rparr>) = {#a#}" for c
    using assms(2) by (simp add: queue_watches_def watch_of_def Some p)
  have watch: "keeps_watches {#} {#} (s_step st (q\<lparr>qu_err_ctx := c\<rparr>) (s_watch K a ev cb)
      (\<lambda>_. s_ret (q\<lparr>qu_err_ctx := c\<rparr>))) queue_watches" for c K cb
    by (rule keeps_watches_step [OF _ keeps_watches_watch]) (use assms(1) in \<open>simp_all add: w keeps_watches_ret\<close>)
  show ?thesis unfolding watch_errors_def Some p option.case prod.case Let_def
    by (rule keeps_watches_step [OF assms(1) keeps_watches_lift], simp, rule keeps_watches_state, rule watch)
qed

lemma keeps_watches_watch_scratch:
  assumes "qu_live q" and "qu_scratch_event q = None"
  shows "keeps_watches {#} (queue_watches q) (watch_scratch st q) queue_watches"
proof -
  have w: "queue_watches (q\<lparr>qu_scratch_event := Some (a, ev)\<rparr>) = queue_watches q + {#a#}"
    "queue_watches (q\<lparr>qu_scratch_event := Some (a, ev), qu_scratch := c\<rparr>) = queue_watches q + {#a#}" for a ev c
    using assms(2) by (simp_all add: queue_watches_def watch_of_def)
  have watch: "keeps_watches {#} (queue_watches q) (s_step st (q\<lparr>qu_scratch_event := Some (a, ev), qu_scratch := c\<rparr>) (s_watch K a ev cb)
      (\<lambda>_. s_ret (q\<lparr>qu_scratch_event := Some (a, ev), qu_scratch := c\<rparr>))) queue_watches" for c K cb a ev
    by (rule keeps_watches_step [OF _ keeps_watches_watch]) (use assms(1) in \<open>simp_all add: w keeps_watches_ret\<close>)
  show ?thesis unfolding watch_scratch_def Let_def
  proof (rule keeps_watches_step [OF assms(1) keeps_watches_lift])
    fix x :: "u64 \<times> event"
    obtain a ev where x: "x = (a, ev)" by fastforce
    show "keeps_watches {#} (queue_watches q) (case x of (a, ev) \<Rightarrow>
        s_step st (q\<lparr>qu_scratch_event := Some (a, ev)\<rparr>) (s_lift (box_alloc (st_kernel st) sizeof_ScratchCtx))
          (\<lambda>c s. s_step st (q\<lparr>qu_scratch_event := Some (a, ev), qu_scratch := Some (c, pr_ctx (protocol_start (scratch_allocator (sh_dev s))))\<rparr>)
             (s_watch (st_kernel st) a ev (On_scratch c))
             (\<lambda>_. s_ret (q\<lparr>qu_scratch_event := Some (a, ev), qu_scratch := Some (c, pr_ctx (protocol_start (scratch_allocator (sh_dev s))))\<rparr>)) s)) queue_watches"
      unfolding x prod.case
      by (rule keeps_watches_step [OF _ keeps_watches_lift], simp add: assms(1), simp add: w, rule keeps_watches_state, rule watch)
  qed simp
qed

lemma keeps_watches_queue_create: "keeps_watches {#} {#} (queue_create st ty ring_size target_xcc) queue_watches"
proof -
  let ?K = "st_kernel st"
  have free: "mset (watched s') = mset (watched s) - {#} \<and> (sh_watcher s \<noteq> None \<longrightarrow> sh_watcher s' \<noteq> None)"
    if "s_free d s h = (Inr s', h')" for d s h s' h'
    using that by (auto simp: s_free_def op_eqs)
  have main: "keeps_watches {#} {#} (s_try (s_lift (queue_memory st p md ty ring_size target_xcc)) (\<lambda>(q, off).
        s_try (s_on_error (s_free (op_assert (sys ?K (DestroyQueue (qu_id q))) (queue_locals_drop ?K q))) (s_doorbell st off))
          (\<lambda>slot. s_try (s_on_error (s_free (queue_locals_drop ?K q)) (s_lift (mutex_box ?K)))
            (\<lambda>_. s_try (watch_errors st (q\<lparr>qu_doorbell := slot\<rparr>))
              (\<lambda>q'. if ty = COMPUTE then watch_scratch st q' else s_ret q'))))) queue_watches" for p md
  proof (rule keeps_watches_try_yields [OF keeps_watches_lift])
    fix x :: "queue \<times> u64" and s1 s2 :: shared
    obtain q off where x: "x = (q, off)" by fastforce
    assume "yields (s_lift (queue_memory st p md ty ring_size target_xcc) s1) (Inr x, s2)"
    from queue_memory_result [OF yields_lift [OF this, unfolded x]]
    have q: "qu_live q" "qu_scratch_event q = None" "qu_scratch q = None" by auto
    have finish: "keeps_watches {#} {#} (s_try (watch_errors st (q\<lparr>qu_doorbell := slot\<rparr>))
        (\<lambda>q'. if ty = COMPUTE then watch_scratch st q' else s_ret q')) queue_watches" for slot
    proof (rule keeps_watches_try_yields [OF keeps_watches_watch_errors])
      fix q' s s' assume "yields (watch_errors st (q\<lparr>qu_doorbell := slot\<rparr>) s) (Inr q', s')"
      then have "qu_live q' \<and> qu_scratch_event q' = None"
        using q by (auto simp: yields_def watch_errors_def s_step_def s_Inr Let_def split: option.splits)
      then show "keeps_watches {#} (queue_watches q') (if ty = COMPUTE then watch_scratch st q' else s_ret q') queue_watches"
        using keeps_watches_watch_scratch by (auto intro: keeps_watches_ret)
    qed (use q in simp_all)
    show "keeps_watches {#} {#} (case x of (q, off) \<Rightarrow>
        s_try (s_on_error (s_free (op_assert (sys ?K (DestroyQueue (qu_id q))) (queue_locals_drop ?K q))) (s_doorbell st off))
          (\<lambda>slot. s_try (s_on_error (s_free (queue_locals_drop ?K q)) (s_lift (mutex_box ?K)))
            (\<lambda>_. s_try (watch_errors st (q\<lparr>qu_doorbell := slot\<rparr>))
              (\<lambda>q'. if ty = COMPUTE then watch_scratch st q' else s_ret q')))) queue_watches"
      unfolding x prod.case
      by (rule keeps_watches_try [OF keeps_watches_on_error [OF keeps_watches_still free]], erule doorbell_still, simp, assumption,
          rule keeps_watches_try [OF keeps_watches_on_error [OF keeps_watches_lift free]], simp, assumption, rule finish)
  qed simp
  have fail: "keeps_watches {#} {#} (s_when c e m) queue_watches" if "keeps_watches {#} {#} m queue_watches" for c e m
    using that by (auto simp: s_when_def s_fail_def op_ret_eq intro!: keeps_watchesI dest: keeps_watchesD)
  show ?thesis unfolding queue_create_def Let_def
    by (rule fail, rule fail, rule keeps_watches_state [OF main])
qed

lemma finished_live:
  assumes "qu_live q" and "yields (watch_errors st q s) (Inr q', s')"
  shows "qu_live q' \<and> qu_ring q' = qu_ring q \<and> qu_type q' = qu_type q \<and> qu_pending q' = qu_pending q \<and> qu_control q' = qu_control q \<and> qu_id q' = qu_id q"
  using assms by (auto simp: yields_def watch_errors_def s_step_def s_Inr Let_def split: option.splits)

lemma scratch_live:
  assumes "qu_live q" and "yields (watch_scratch st q s) (Inr q', s')"
  shows "qu_live q' \<and> qu_ring q' = qu_ring q \<and> qu_type q' = qu_type q \<and> qu_pending q' = qu_pending q \<and> qu_control q' = qu_control q \<and> qu_id q' = qu_id q"
  using assms by (auto simp: yields_def watch_scratch_def s_step_def s_Inr Let_def)

text \<open>A queue that was created has the ring it was given the memory for.\<close>

lemma allocate_mapped_len: "yields (allocate_mapped K page d sz type flags) b \<Longrightarrow> b_len b = align_up sz page"
proof -
  assume "yields (allocate_mapped K page d sz type flags) b"
  then obtain b0 p h h1 h2 where b0: "buffer_allocate K page d sz type flags 0 h = (Inr b0, h1)"
    "buffer_map K b0 [md_gpu d] h1 = (Inr p, h2)" "b = snd p"
    by (auto simp: yields_def allocate_mapped_def op_try_eq op_res_eq op_ret_eq on_error_eq split: prod.splits)
  from b0(2) have "b_len (snd p) = b_len b0" using mapped_buffer [of K b0 "[md_gpu d]" p] by (auto simp: yields_def)
  moreover have "b_len b0 = align_up sz page"
    using b0(1) by (auto simp: buffer_allocate_def op_eqs Let_def split: if_splits)
  ultimately show ?thesis using b0(3) by simp
qed

lemma created_from_memory:
  assumes "queue_create st ty ring_size target_xcc s h = (Inr (Inr q, s'), h')"
  obtains q0 off h1 where "queue_memory st (props (dv_info (sh_dev s))) (mem_dev_of (sh_dev s)) ty ring_size target_xcc h = (Inr (q0, off), h1)"
    and "qu_live q" "qu_type q = ty" "qu_pending q = 0" "qu_ring q = qu_ring q0" "qu_control q = qu_control q0" "qu_id q = qu_id q0"
    and "has_single_bit ring_size" "ring_size \<le> 0xFFFFFFFF"
proof -
  have ok: "has_single_bit ring_size" "ring_size \<le> 0xFFFFFFFF"
    using assms by (auto simp: queue_create_def s_when_def s_fail_def op_ret_eq split: if_splits)
  then obtain q0 off h1 s2 s3 s4 slot h2 h3 q1 h4 where
    m: "queue_memory st (props (dv_info (sh_dev s))) (mem_dev_of (sh_dev s)) ty ring_size target_xcc h = (Inr (q0, off), h1)"
    and w: "watch_errors st (q0\<lparr>qu_doorbell := slot\<rparr>) s3 h3 = (Inr (Inr q1, s4), h4)"
    and r: "(if ty = COMPUTE then watch_scratch st q1 else s_ret q1) s4 h4 = (Inr (Inr q, s'), h')"
    using assms ok unfolding queue_create_def s_when_def Let_def
    by (simp only: not_True_eq_False if_False not_less [symmetric]) (auto simp: s_Inr split: prod.splits)
  have "yields (queue_memory st (props (dv_info (sh_dev s))) (mem_dev_of (sh_dev s)) ty ring_size target_xcc) (q0, off)"
    using m by (auto simp: yields_def)
  note q0 = queue_memory_result [OF this]
  have q1: "qu_live q1 \<and> qu_ring q1 = qu_ring q0 \<and> qu_type q1 = ty \<and> qu_pending q1 = 0 \<and> qu_control q1 = qu_control q0 \<and>
      qu_id q1 = qu_id q0"
    using finished_live [of "q0\<lparr>qu_doorbell := slot\<rparr>" st s3 q1 s4] w q0 by (auto simp: yields_def)
  then have "qu_live q \<and> qu_ring q = qu_ring q0 \<and> qu_type q = ty \<and> qu_pending q = 0 \<and> qu_control q = qu_control q0 \<and>
      qu_id q = qu_id q0"
    using scratch_live [of q1 st s4 q s'] r by (auto simp: yields_def s_ret_def op_ret_eq split: if_splits)
  with m ok show ?thesis by (intro that) simp_all
qed

lemma created_queue:
  assumes "queue_create st ty ring_size target_xcc s h = (Inr (Inr q, s'), h')"
  shows "qu_live q \<and> qu_type q = ty \<and> qu_pending q = 0 \<and> b_len (qu_ring q) = align_up ring_size (st_page st) \<and>
    has_single_bit ring_size \<and> ring_size \<le> 0xFFFFFFFF"
proof (rule created_from_memory [OF assms])
  fix q0 off h1
  assume m: "queue_memory st (props (dv_info (sh_dev s))) (mem_dev_of (sh_dev s)) ty ring_size target_xcc h = (Inr (q0, off), h1)"
    and q: "qu_ring q = qu_ring q0" "qu_live q" "qu_type q = ty" "qu_pending q = 0" "has_single_bit ring_size" "ring_size \<le> 0xFFFFFFFF"
  have "\<exists>b. yields (allocate_mapped (st_kernel st) (st_page st) (mem_dev_of (sh_dev s)) ring_size GTT QUEUE_GTT_FLAGS) b \<and> qu_ring q0 = b"
    using m by (auto simp: queue_memory_def on_error_eq op_try_eq op_ret_eq Let_def yields_def) blast
  then have "b_len (qu_ring q0) = align_up ring_size (st_page st)" using allocate_mapped_len by blast
  with q show ?thesis by simp
qed


text \<open>
  A process from its first call on: the device, the thread that watches its faults, a compute queue
  with an area for saved waves, and its destruction.
\<close>

definition demo_setting :: setting where
  "demo_setting = \<lparr>st_malloc = \<lambda>_. True, st_kernel = fresh_kernel, st_kfd = 3,
     st_pages = \<lparr>event_page = 0x9000, fence_page = 0xA000\<rparr>, st_page = 0x1000\<rparr>"

definition demo_device_create :: "(device res \<times> cached_fd list) op" where
  "demo_device_create =
     device_create (\<lambda>_. True) fresh_kernel 0x1000 [(0, demo_trap)] []
       (demo_node\<lparr>props := (props demo_node)\<lparr>cwsr_size := 0x2000, ctl_stack_size := 0x1000\<rparr>\<rparr>)"

definition demo_process :: "shared op" where
  "demo_process =
     op_try demo_device_create (\<lambda>(r, c).
       case r of Inl e \<Rightarrow> op_fail e
       | Inr dv \<Rightarrow> op_try (start_fault_watcher fresh_kernel 3 (st_pages demo_setting)) (\<lambda>w.
           op_ret \<lparr>sh_dev = dv, sh_watcher = Some w\<rparr>))"

definition demo_queue_life :: "(u64 \<times> u64 list \<times> u64 list) op" where
  "demo_queue_life =
     op_try demo_process (\<lambda>s. op_try (queue_create demo_setting COMPUTE 0x4000 0 s) (\<lambda>(r, s').
       case r of Inl e \<Rightarrow> op_fail e
       | Inr q \<Rightarrow> op_try (queue_drop demo_setting q s') (\<lambda>s''. op_ret (qu_doorbell q, watched s', watched s''))))"

lemma demo_run: "fst (demo_queue_life []) = Inr (0x1BA007, [0x700008C0, 0x70000F00], [])"
  by code_simp

lemma demo_owned:
  assumes "demo_process [] = (Inr s, h)"
  obtains B where "bag h = B + shared_bag s" and "sh_watcher s \<noteq> None"
proof -
  from assms obtain r c h1 where r: "demo_device_create [] = (Inr (r, c), h1)"
    and rest: "(case r of Inl e \<Rightarrow> op_fail e
       | Inr dv \<Rightarrow> op_try (start_fault_watcher fresh_kernel 3 (st_pages demo_setting)) (\<lambda>w.
           op_ret \<lparr>sh_dev = dv, sh_watcher = Some w\<rparr>)) h1 = (Inr s, h)"
    unfolding demo_process_def by (auto simp: op_try_eq)
  from rest obtain dv w where dv: "r = Inr dv" and w: "start_fault_watcher fresh_kernel 3 (st_pages demo_setting) h1 = (Inr w, h)"
    and s: "s = \<lparr>sh_dev = dv, sh_watcher = Some w\<rparr>"
    by (cases r) (auto simp: op_eqs)
  have "bag [] = {#} + ({#} + cache_bag [])" by (simp add: bag_def owned_Nil cache_bag_def)
  from holdsD(1) [OF holds_device_create [OF fresh_kernel_contract demo_sane] _ r [unfolded demo_device_create_def], of "{#}"]
  have "bag h1 = cache_bag c + device_bag dv"
    using dv by (simp add: bag_def owned_Nil cache_bag_def)
  from holdsD(1) [OF holds_start_watcher [OF fresh_kernel_contract] _ w, of "bag h1"]
  have "bag h = cache_bag c + (device_bag dv + watcher_bag w)" using \<open>bag h1 = _\<close> by (simp add: ac_simps)
  then show thesis by (rule_tac that [of "cache_bag c"]) (simp_all add: s shared_bag_def)
qed


end
