(* ===== verification/Queue_Start.thy ===== *)
theory Queue_Start
  imports Queue_Life Queue_Ops
begin

text \<open>
  A queue from its creation to its first packets: the ring of a new queue meets the discipline of
  \<^verbatim>\<open>Queue_Ring\<close> and is the ring the driver was given, and a compute queue owns its queue and its
  end-of-pipe counter.
\<close>

section \<open>What a compute queue owns\<close>

definition handle_bag :: "compute_handle \<Rightarrow> token multiset" where
  "handle_bag c = queue_bag (ch_base c) + buffer_bag (ch_eop_seq c)"

lemma s_drops_compute:
  assumes "qu_live (ch_base c)"
  shows "s_drops shared_bag (handle_bag c) (compute_drop st c)"
  using s_drops_seq [OF s_drops_queue [OF assms] s_drops_free [OF drops_buffer]]
  by (simp add: handle_bag_def compute_drop_def [abs_def] s_free_def [abs_def])

lemma created_live: "yields (queue_create st ty n xcc s) (Inr q, s') \<Longrightarrow> qu_live q"
  using created_queue by (auto simp: yields_def)

lemma owns_compute_create:
  assumes "os_contract (st_kernel st)" and "0 \<le> st_kfd st"
  shows "s_owns shared_bag {#} {#} (compute_create st env1 env2 ring_size target_xcc) handle_bag"
  unfolding compute_create_def
proof (rule owns_try_yields [OF owns_queue_create [OF assms]])
  fix q s s' assume "yields (queue_create st COMPUTE ring_size target_xcc s) (Inr q, s')"
  then have live: "qu_live q" by (rule created_live)
  have first: "s_owns shared_bag {#} (queue_bag q + buffer_bag eop)
      (s_try (s_on_error (compute_drop st c)
          (s_lift (op_res (submit_first (ch_ring c) (init_packets (rg_addr (b_mapping eop))) env1 env2))))
         (\<lambda>rq. s_ret (c\<lparr>ch_ring := rq\<rparr>))) handle_bag"
    if c: "ch_base c = q" "ch_eop_seq c = eop" for c eop
  proof (rule owns_try)
    have h: "handle_bag c = queue_bag q + buffer_bag eop" by (simp add: handle_bag_def c)
    show "s_owns shared_bag {#} (queue_bag q + buffer_bag eop) (s_on_error (compute_drop st c)
        (s_lift (op_res (submit_first (ch_ring c) (init_packets (rg_addr (b_mapping eop))) env1 env2)))) (\<lambda>_. handle_bag c)"
      unfolding h [symmetric]
      by (rule owns_on_error [OF owns_lift s_drops_compute]) (use neutral_holds [OF neutral_basic(3)] live c in simp_all)
    show "s_owns shared_bag {#} (handle_bag c) (s_ret (c\<lparr>ch_ring := rq\<rparr>)) handle_bag" for rq
      by (rule owns_ret) (simp add: handle_bag_def)
  qed
  show "s_owns shared_bag {#} (queue_bag q) (\<lambda>s.
       s_step st q (s_lift (allocate_mapped (st_kernel st) (st_page st) (mem_dev_of (sh_dev s)) 8 VRAM
                              (MF_WRITABLE OR MF_NO_SUBSTITUTE OR MF_UNCACHED))) (\<lambda>eop.
       let c = \<lparr>ch_base = q, ch_ring = fresh_ring q, ch_eop_seq = eop, ch_next_eop_seq = 0\<rparr>
       in s_try (s_on_error (compute_drop st c)
                   (s_lift (op_res (submit_first (ch_ring c) (init_packets (rg_addr (b_mapping eop))) env1 env2))))
            (\<lambda>rq. s_ret (c\<lparr>ch_ring := rq\<rparr>))) s) handle_bag"
    unfolding Let_def
    by (rule owns_state, rule owns_step [OF live owns_lift_gain [OF holds_allocate_mapped [OF assms(1)]]])
       (rule first, simp_all)
qed

section \<open>The first packets of a compute queue\<close>

lemma replicate_ring: "ring_dwords (fresh_ring q) = unat (b_len (qu_ring q)) div 4"
  by (simp add: ring_dwords_def fresh_ring_def)

text \<open>A size that is a power of two and no less than a page is a whole number of pages.\<close>

lemma whole_pages:
  assumes n: "has_single_bit (n :: u64)" "n \<le> 0xFFFFFFFF" and k: "k < 32" and le: "2 ^ k \<le> n"
  shows "align_up n (2 ^ k) = n" and "\<exists>j<32. k \<le> j \<and> unat n = 2 ^ j"
proof -
  from n(1) obtain j where j: "j < 64" "n = 2 ^ j" using has_single_bit_pow [of n] by auto
  have un: "unat n = 2 ^ j" using j by simp
  have "(2::nat) ^ j < 2 ^ 32" using n(2) unfolding word_le_nat_alt un by simp
  then have j32: "j < 32" by (rule power_less_imp_less_exp [rotated]) simp
  have "(2::nat) ^ k \<le> 2 ^ j" using le k unfolding word_le_nat_alt un by simp
  then have kj: "k \<le> j" by (rule power_le_imp_le_exp [rotated]) simp
  with j32 un show "\<exists>j<32. k \<le> j \<and> unat n = 2 ^ j" by blast
  have sum: "(2::nat) ^ j + 2 ^ k - 1 < 2 ^ 64"
  proof -
    have "(2::nat) ^ j \<le> 2 ^ 31" "(2::nat) ^ k \<le> 2 ^ 31" using j32 k by (intro power_increasing; simp)+
    then show ?thesis by simp
  qed
  have "unat (align_up n (2 ^ k)) = round_up (2 ^ j) (2 ^ k)"
    using unat_align_up [of k n] k sum un by simp
  also have "\<dots> = 2 ^ j" using kj by (intro round_up_id) (simp_all add: le_imp_power_dvd)
  finally show "align_up n (2 ^ k) = n" using un by (simp add: word_unat_eq_iff)
qed

text \<open>What the driver was told of a queue that was created.\<close>

lemma queue_args_shown:
  assumes "queue_create st ty n xcc s h = (Inr (Inr q, s'), h')"
  shows "\<exists>args h1 out h2. create_attempts (st_kernel st) args QUEUE_CREATE_RETRIES h1 = (Inr out, h2) \<and>
     qu_id q = ucast (out_word out 0) \<and> qa_ring args = rg_addr (b_mapping (qu_ring q)) \<and> qa_ring_size args = ucast n \<and>
     qa_write args = write_ptr_addr (rg_addr (b_mapping (qu_control q))) \<and>
     qa_read args = read_ptr_addr (rg_addr (b_mapping (qu_control q)))"
proof (rule created_from_memory [OF assms])
  fix q0 off h1
  assume m: "queue_memory st (props (dv_info (sh_dev s))) (mem_dev_of (sh_dev s)) ty n xcc h = (Inr (q0, off), h1)"
    and q: "qu_ring q = qu_ring q0" "qu_control q = qu_control q0" "qu_id q = qu_id q0"
  from m obtain ctl cwsr rng eop h2 out h3 where
    a: "create_attempts (st_kernel st) (queue_args_of ty n xcc (props (dv_info (sh_dev s))) ctl cwsr rng eop) QUEUE_CREATE_RETRIES h2 = (Inr out, h3)"
    and "qu_ring q0 = rng" "qu_control q0 = ctl" "qu_id q0 = ucast (out_word out 0)"
    by (auto simp: queue_memory_def on_error_eq op_try_eq op_ret_eq Let_def)
  with q show ?thesis
    by (intro exI [of _ "queue_args_of ty n xcc (props (dv_info (sh_dev s))) ctl cwsr rng eop"] exI [of _ h2] exI [of _ out]
        exI [of _ h3]) (auto simp: queue_args_of_def Let_def split: prod.split)
qed

lemma fresh_ring_ok:
  assumes q: "qu_pending q = 0" "unat (b_len (qu_ring q)) = 2 ^ j" and j: "2 \<le> j" "j < 32"
  shows "ring_ok (fresh_ring q) [] 0" and "4 * ring_dwords (fresh_ring q) = unat (b_len (qu_ring q))"
proof -
  have d: "(2::nat) ^ j = 4 * 2 ^ (j - 2)" using j(1) by (auto simp: le_iff_add power_add)
  then have r: "ring_dwords (fresh_ring q) = 2 ^ (j - 2)" by (simp add: replicate_ring q(2))
  then show "4 * ring_dwords (fresh_ring q) = unat (b_len (qu_ring q))" using q(2) d by simp
  show "ring_ok (fresh_ring q) [] 0"
    unfolding ring_ok_def r using j by (auto simp: fresh_ring_def q(1) to_hw_def)
qed

lemma length_init_packets: "length (init_packets eop) = 10"
  by (simp add: init_packets_def write_data_def)

lemma first_submission:
  assumes ok: "ring_ok rq [] 0" and ty: "q_type rq = COMPUTE" and cap: "length data < ring_dwords rq" and data: "data \<noteq> []"
    and polls: "fresh_polls COMPUTE (ring_dwords rq) 0 0 env2" and run: "submit_first rq data env1 env2 = Inr rq'"
  shows "ring_ok rq' data 0" and "ring_dwords rq' = ring_dwords rq"
proof -
  note g = submit_geometry [OF ok cap]
  have n0: "(of_nat (length data) :: u32) \<noteq> 0" using g(1) data by (metis length_0_conv unat_0)
  have nowrap: "\<not> pos_of rq + of_nat (length data) > cap_of rq" using g(4) cap by simp
  have small: "\<not> of_nat (length data) \<ge> cap_of rq" using g(1,2) cap by (simp add: word_le_nat_alt)
  have "submit_impl rq data env1 env2 = put_dwords rq (pos_of rq) data env2"
    using n0 nowrap small g(1) by (simp add: submit_impl_def Let_def)
  then have "put_dwords rq (pos_of rq) data env2 = Some (Inr (), rq')"
    using run by (auto simp: submit_first_def split: option.splits sum.splits)
  from put_dwords_ok(1,3) [OF ok _ _ _ _ this] show "ring_ok rq' data 0" "ring_dwords rq' = ring_dwords rq"
    using ty polls cap g(3) by simp_all
qed

text \<open>
  A ring smaller than a page is still created with the memory of a whole page, and all of it is
  used, but the driver is told the smaller size.
\<close>

lemma ring_below_page:
  assumes "queue_create st ty n xcc s h = (Inr (Inr q, s'), h')" and "st_page st = 2 ^ k" "2 \<le> k" "k < 32" "n < 2 ^ k"
  shows "\<exists>args h1 out h2. create_attempts (st_kernel st) args QUEUE_CREATE_RETRIES h1 = (Inr out, h2) \<and>
     qa_ring args = rg_addr (b_mapping (qu_ring q)) \<and> unat (qa_ring_size args) < 4 * ring_dwords (fresh_ring q)"
proof -
  note made = created_queue [OF assms(1)]
  obtain j where "j < 64" "n = 2 ^ j" using made has_single_bit_pow [of n] by auto
  then have "unat n \<noteq> 0" by simp
  with assms(4,5) have n: "unat n < 2 ^ k" "unat n \<noteq> 0" unfolding word_less_nat_alt by simp_all
  have bound: "unat n + 2 ^ k \<le> 2 ^ 64"
  proof -
    have "(2::nat) ^ k \<le> 2 ^ 31" using assms(4) by (intro power_increasing) simp_all
    with n(1) show ?thesis by simp
  qed
  have "unat (align_up n (2 ^ k)) = round_up (unat n) (2 ^ k)"
    using unat_align_up [of k n] assms(4) bound by simp
  also have "\<dots> = 2 ^ k" using n by (simp add: round_up_def div_nat_eqI)
  finally have len: "unat (b_len (qu_ring q)) = 2 ^ k" using made assms(2) by simp
  have "4 * ring_dwords (fresh_ring q) = 2 ^ k" using fresh_ring_ok(2) [OF _ len assms(3,4)] len made by simp
  moreover have "unat (ucast n :: u32) = unat n"
    using made by (simp add: unsigned_ucast_eq take_bit_nat_eq_self word_le_nat_alt)
  moreover obtain args h1 out h2 where "create_attempts (st_kernel st) args QUEUE_CREATE_RETRIES h1 = (Inr out, h2)"
    "qa_ring args = rg_addr (b_mapping (qu_ring q))" "qa_ring_size args = ucast n"
    using queue_args_shown [OF assms(1)] by blast
  ultimately show ?thesis using n(1)
    by (intro exI [of _ args] exI [of _ h1] exI [of _ out] exI [of _ h2]) simp
qed


text \<open>Small pages keep the run short: one of 64 bytes is a ring of 16 dwords, which the first packets fit.\<close>

definition small_setting :: setting where "small_setting = demo_setting\<lparr>st_page := 64\<rparr>"

definition demo_compute :: "u32 op" where
  "demo_compute =
     op_try demo_process (\<lambda>s. op_try (compute_create small_setting (0, []) (0, [(0, 0)]) 0x40 0 s) (\<lambda>(r, s').
       case r of Inl e \<Rightarrow> op_fail e | Inr c \<Rightarrow> op_ret (ch_next_eop_seq c)))"

lemma demo_compute_run: "fst (demo_compute []) = Inr 0"
  by code_simp


end
