(* ===== verification/Context.thy ===== *)
theory Context
  imports Shared_State Watcher Device
begin

text \<open>
  The context of \<^verbatim>\<open>lib/context.cpp\<close>: the descriptor of the driver, the devices of the topology and
  the fault watcher, and what a process initialises once: the pages that events and fences are
  signalled through and the delivery of exceptions.
\<close>

section \<open>State\<close>

text \<open>
  The code keeps the addresses of the two pages only and never frees them; the model keeps what they
  were allocated as, so that it can say who owns them. A page that is null has the address 0. The
  locks around the two initialisations are held over them, so each is one step here.
\<close>

record signal_memory =
  sm_addr :: u64
  sm_handle :: u64
  sm_size :: u64

definition no_page :: signal_memory where "no_page = \<lparr>sm_addr = 0, sm_handle = 0, sm_size = 0\<rparr>"

record globals =
  gl_cache :: "cached_fd list"
  gl_events :: signal_memory
  gl_fences :: signal_memory
  gl_runtime :: bool

definition pages_of :: "globals \<Rightarrow> signal_pages" where
  "pages_of g = \<lparr>event_page = sm_addr (gl_events g), fence_page = sm_addr (gl_fences g)\<rparr>"

record kfd_context =
  cx_fd :: int
  cx_xnack :: bool
  cx_nodes :: "device list"
  cx_cap :: nat
  cx_watcher :: "fault_watcher option"

text \<open>The environment: heap, system, page size, trap handlers, the size of a \<^verbatim>\<open>Device\<close>, and the polls of a join.\<close>

record environment =
  en_malloc :: "u64 \<Rightarrow> bool"
  en_kernel :: kernel
  en_page :: u64
  en_images :: "trap_image list"
  en_device_size :: u64
  en_polls :: nat

definition gpu_ids :: "device list \<Rightarrow> u32 list" where "gpu_ids dvs = map (\<lambda>dv. gpu_id (props (dv_info dv))) dvs"

section \<open>The pages of the signals\<close>

definition SIGNAL_PAGE_FLAGS :: u32 where
  "SIGNAL_PAGE_FLAGS = MF_WRITABLE OR MF_EXECUTABLE OR MF_HOST_ACCESS OR MF_COHERENT OR MF_UNCACHED"

definition SIGNAL_PAGE_SIZE :: u64 where "SIGNAL_PAGE_SIZE = ucast KFD_SIGNAL_EVENT_LIMIT * 8"

text \<open>The buffer is mapped, released and cleared; its memory stays with the page.\<close>

definition alloc_signal_page :: "environment \<Rightarrow> device list \<Rightarrow> u64 \<Rightarrow> signal_memory op" where
  "alloc_signal_page en devs sz =
     (let K = en_kernel en
      in case devs of
           [] \<Rightarrow> op_ret no_page
         | d # _ \<Rightarrow>
             op_try (buffer_allocate K (en_page en) (mem_dev_of d) sz GTT SIGNAL_PAGE_FLAGS 0) (\<lambda>bo.
             op_try (on_error (buffer_drop K bo) (Memory.push_all K 8 4 [] (gpu_ids devs))) (\<lambda>targets.
             op_try (buffer_map K bo targets) (\<lambda>(r, bo'). on_error (buffer_drop K bo') (op_try (op_res r) (\<lambda>_.
             op_ret \<lparr>sm_addr = rg_addr (b_mapping bo'), sm_handle = fst (buffer_release bo'), sm_size = b_len bo'\<rparr>))))))"

definition free_signal_page :: "kernel \<Rightarrow> device list \<Rightarrow> signal_memory \<Rightarrow> unit op" where
  "free_signal_page K devs p =
     (if sm_addr p = 0 then op_ret ()
      else op_else (Memory.push_all K 4 4 [] (gpu_ids devs)) (\<lambda>_. op_fail ABORT) (\<lambda>ids.
           op_assert (sys K (UnmapMemory (sm_handle p) ids)) (
           op_assert (sys K (FreeMemory (sm_handle p))) (
           region_destroy K \<lparr>rg_addr = sm_addr p, rg_len = sm_size p\<rparr>))))"

text \<open>A throwaway event hands the page to the driver.\<close>

definition register_page :: "kernel \<Rightarrow> device list \<Rightarrow> signal_memory \<Rightarrow> unit op" where
  "register_page K devs p =
     op_try (on_error (free_signal_page K devs p) (sys K (CreateEvent (sm_handle p) (event_type_bits SIGNAL) 1))) (\<lambda>out.
     op_assert (sys K (DestroyEvent (ucast (out_word out 0)))) (op_ret ()))"

definition init_signal_pages :: "environment \<Rightarrow> device list \<Rightarrow> (globals, unit) sop" where
  "init_signal_pages en devs = (\<lambda>g.
     (if sm_addr (gl_events g) \<noteq> 0 then s_ret ()
      else s_try (s_lift (
             op_try (alloc_signal_page en devs SIGNAL_PAGE_SIZE) (\<lambda>ep.
             op_try (register_page (en_kernel en) devs ep) (\<lambda>_.
             op_try (on_error (free_signal_page (en_kernel en) devs ep) (alloc_signal_page en devs SIGNAL_PAGE_SIZE)) (\<lambda>fp.
             op_ret (ep, fp)))))) (\<lambda>(ep, fp).
           s_upd (\<lambda>g. g\<lparr>gl_fences := fp, gl_events := ep\<rparr>))) g)"

section \<open>Exceptions of the runtime\<close>

definition RUNTIME_MODE_MASK :: u32 where "RUNTIME_MODE_MASK = 1 OR 2"

definition enable_runtime :: "kernel \<Rightarrow> (globals, unit) sop" where
  "enable_runtime K = (\<lambda>g.
     (if gl_runtime g then s_ret ()
      else s_try (s_lift (sys K (RuntimeEnable 0 RUNTIME_MODE_MASK))) (\<lambda>_. s_upd (\<lambda>g. g\<lparr>gl_runtime := True\<rparr>))) g)"

section \<open>Creation and destruction\<close>

fun drop_devices :: "kernel \<Rightarrow> device list \<Rightarrow> unit op" where
  "drop_devices K [] = op_ret ()"
| "drop_devices K (d # ds) = op_try (device_drop K d) (\<lambda>_. drop_devices K ds)"

definition drop_watcher :: "kernel \<Rightarrow> nat \<Rightarrow> fault_watcher option \<Rightarrow> unit op" where
  "drop_watcher K polls w = (case w of None \<Rightarrow> op_ret () | Some w \<Rightarrow> fault_watcher_drop K polls w)"

definition context_drop :: "environment \<Rightarrow> kfd_context \<Rightarrow> unit op" where
  "context_drop en cx =
     op_try (drop_watcher (en_kernel en) (en_polls en) (cx_watcher cx)) (\<lambda>_.
     op_try (drop_devices (en_kernel en) (cx_nodes cx)) (\<lambda>_.
     if cx_fd cx \<ge> 0 then close_fd (en_kernel en) (cx_fd cx) (op_ret ()) else op_ret ()))"

definition KFD_PATH :: string where "KFD_PATH = ''/dev/kfd''"
definition MIN_KFD_MAJOR :: u32 where "MIN_KFD_MAJOR = 1"
definition MIN_KFD_MINOR :: u32 where "MIN_KFD_MINOR = 4"

record version_info =
  major :: u32
  minor :: u32

definition kfd_version :: "kernel \<Rightarrow> version_info op" where
  "kfd_version K = op_try (sys K GetVersion) (\<lambda>out.
     op_ret \<lparr>major = ucast (out_word out 0), minor = ucast (out_word out 1)\<rparr>)"

definition too_old :: "version_info \<Rightarrow> bool" where
  "too_old v \<longleftrightarrow> major v < MIN_KFD_MAJOR \<or> major v = MIN_KFD_MAJOR \<and> minor v < MIN_KFD_MINOR"

text \<open>Up to the constructor a failure closes the descriptor.\<close>

definition open_kfd :: "kernel \<Rightarrow> node_info list res \<Rightarrow> (int \<times> bool \<times> node_info list) op" where
  "open_kfd K topo =
     op_try (sys K (Open KFD_PATH)) (\<lambda>out.
     let fd = out_fd out
     in on_error (close_fd K fd (op_ret ())) (
        op_try (kfd_version K) (\<lambda>ver.
        op_when (too_old ver) ENOTSUP (
        op_try (op_res topo) (\<lambda>nodes.
        op_catch (sys K (SetXnackMode (- 1))) (\<lambda>_. op_ret (fd, False, nodes))
          (\<lambda>out. op_ret (fd, sint (ucast (out_word out 0) :: u32) > 0, nodes)))))))"

definition add_device :: "environment \<Rightarrow> kfd_context \<Rightarrow> node_info \<Rightarrow> (globals, kfd_context) sop" where
  "add_device en cx n =
     s_try (s_on_error (s_free (context_drop en cx)) (\<lambda>g.
              op_try (device_create (en_malloc en) (en_kernel en) (en_page en) (en_images en) (gl_cache g) n) (\<lambda>(r, c).
              op_ret (r, g\<lparr>gl_cache := c\<rparr>)))) (\<lambda>dv.
     s_try (s_on_error (s_free (op_try (device_drop (en_kernel en) dv) (\<lambda>_. context_drop en cx)))
              (s_lift (push_one (en_kernel en) (en_device_size en) (cx_cap cx) (cx_nodes cx) dv))) (\<lambda>(cap, nodes).
     s_ret (cx\<lparr>cx_nodes := nodes, cx_cap := cap\<rparr>)))"

fun add_devices :: "environment \<Rightarrow> kfd_context \<Rightarrow> node_info list \<Rightarrow> (globals, kfd_context) sop" where
  "add_devices en cx [] = s_ret cx"
| "add_devices en cx (n # ns) = s_try (add_device en cx n) (\<lambda>cx'. add_devices en cx' ns)"

definition context_create :: "environment \<Rightarrow> node_info list res \<Rightarrow> (globals, kfd_context) sop" where
  "context_create en topo =
     s_try (s_lift (open_kfd (en_kernel en) topo)) (\<lambda>(fd, xnack, nodes).
     s_try (add_devices en \<lparr>cx_fd = fd, cx_xnack = xnack, cx_nodes = [], cx_cap = 4, cx_watcher = None\<rparr> nodes) (\<lambda>cx.
     s_try (s_on_error (s_free (context_drop en cx)) (init_signal_pages en (cx_nodes cx))) (\<lambda>_.
     s_try (s_on_error (s_free (context_drop en cx)) (enable_runtime (en_kernel en))) (\<lambda>_.
     s_try (s_on_error (s_free (context_drop en cx))
              (\<lambda>g. s_lift (start_fault_watcher (en_kernel en) fd (pages_of g)) g)) (\<lambda>w.
     s_ret (cx\<lparr>cx_watcher := Some w\<rparr>))))))"

section \<open>Moves and accessors\<close>

definition moved_context :: "kfd_context \<Rightarrow> kfd_context" where
  "moved_context cx = cx\<lparr>cx_fd := - 1, cx_nodes := [], cx_cap := 4, cx_watcher := None\<rparr>"

definition context_move :: "kfd_context \<Rightarrow> kfd_context \<times> kfd_context" where
  "context_move other = (other, moved_context other)"

definition context_assign :: "environment \<Rightarrow> kfd_context \<Rightarrow> kfd_context \<Rightarrow> (kfd_context \<times> kfd_context) op" where
  "context_assign en this other = op_try (context_drop en this) (\<lambda>_. op_ret (other, moved_context other))"

definition context_device :: "kfd_context \<Rightarrow> u64 \<Rightarrow> device res" where
  "context_device cx i =
     fail_if (i \<ge> of_nat (length (cx_nodes cx))) EINVAL (Inr (cx_nodes cx ! unat i))"

definition watch_event ::
    "kernel \<Rightarrow> u64 \<Rightarrow> event \<Rightarrow> watch_callback \<Rightarrow> kfd_context \<Rightarrow> (unit res \<times> kfd_context) op" where
  "watch_event K a ev cb cx =
     op_try (add_watch K a ev cb (cx_watcher cx)) (\<lambda>(r, w). op_ret (r, cx\<lparr>cx_watcher := w\<rparr>))"

definition unwatch_event :: "kernel \<Rightarrow> u64 \<Rightarrow> kfd_context \<Rightarrow> (unit res \<times> kfd_context) op" where
  "unwatch_event K a cx =
     op_try (remove_watch K a (cx_watcher cx)) (\<lambda>(r, w). op_ret (r, cx\<lparr>cx_watcher := w\<rparr>))"

section \<open>Who owns what\<close>

definition page_bag :: "signal_memory \<Rightarrow> token multiset" where
  "page_bag p = (if sm_addr p = 0 then {#} else {#Obj (sm_handle p)#} + region_bag \<lparr>rg_addr = sm_addr p, rg_len = sm_size p\<rparr>)"

definition globals_bag :: "globals \<Rightarrow> token multiset" where
  "globals_bag g = cache_bag (gl_cache g) +
     (if sm_addr (gl_events g) = 0 then {#} else page_bag (gl_events g) + page_bag (gl_fences g))"

definition devices_bag :: "device list \<Rightarrow> token multiset" where
  "devices_bag ds = sum_list (map device_bag ds)"

definition watcher_part :: "fault_watcher option \<Rightarrow> token multiset" where
  "watcher_part w = (case w of None \<Rightarrow> {#} | Some w \<Rightarrow> watcher_bag w)"

definition context_bag :: "kfd_context \<Rightarrow> token multiset" where
  "context_bag cx = watcher_part (cx_watcher cx) + (devices_bag (cx_nodes cx) + (if cx_fd cx < 0 then {#} else {#Fd (cx_fd cx)#}))"

lemma drops_close: "drops {#Fd fd#} (close_fd K fd (op_ret ()))"
proof (rule dropsI)
  have "holds ({#} + {#Fd fd#}) {#} (close_fd K fd (op_ret ())) (\<lambda>_. {#})"
    by (rule holds_release(1) [OF holds_ret]) simp
  then have h: "holds {#Fd fd#} {#} (close_fd K fd (op_ret ())) (\<lambda>_. {#})" by simp
  show "bag h' = B" if "bag h = B + {#Fd fd#}" "close_fd K fd (op_ret ()) h = (Inr x, h')" for B h x h'
    using holdsD(1) [OF h that] by simp
qed (auto simp: close_fd_def op_eqs)

lemma drops_devices: "drops (devices_bag ds) (drop_devices K ds)"
  by (induction ds) (auto simp: devices_bag_def intro!: own_rules drops_device)

lemma drops_context: "drops (context_bag cx) (context_drop en cx)"
  unfolding context_drop_def context_bag_def
  by (intro drops_seq drops_devices)
     (auto simp: watcher_part_def drop_watcher_def drops_watcher drops_close drops_ret split: option.split)

lemma drops_page: "drops (page_bag p) (free_signal_page K devs p)"
proof (cases "sm_addr p = 0")
  case False
  let ?r = "\<lparr>rg_addr = sm_addr p, rg_len = sm_size p\<rparr>"
  have unmap: "drops {#} (op_assert (sys K (UnmapMemory g ids)) (op_ret ()))" for g ids
    using drops_assert [of K "UnmapMemory g ids" "{}"] by (simp add: owned_snoc token_step_inert)
  have "drops ({#} + ({#Obj (sm_handle p)#} + region_bag ?r))
      (op_assert (sys K (UnmapMemory (sm_handle p) ids)) (op_assert (sys K (FreeMemory (sm_handle p))) (region_destroy K ?r)))" for ids
    by (subst op_assert_try, subst (2) op_assert_try) (intro drops_seq drops_calls drops_region unmap)
  then have rest: "drops (page_bag p) (op_assert (sys K (UnmapMemory (sm_handle p) ids))
      (op_assert (sys K (FreeMemory (sm_handle p))) (region_destroy K ?r)))" for ids
    using False by (simp add: page_bag_def)
  have ids: "neutral (Memory.push_all K 4 4 [] (gpu_ids devs))" by (rule neutral_push)
  show ?thesis
  proof (rule dropsI)
    fix B h x h' assume a: "bag h = B + page_bag p" "free_signal_page K devs p h = (Inr x, h')"
    then obtain ids h1 where i: "Memory.push_all K 4 4 [] (gpu_ids devs) h = (Inr ids, h1)"
      and r: "op_assert (sys K (UnmapMemory (sm_handle p) ids)) (op_assert (sys K (FreeMemory (sm_handle p))) (region_destroy K ?r)) h1 = (Inr x, h')"
      using False unfolding free_signal_page_def by (auto simp: op_else_eq op_fail_def)
    have "bag h1 = B + page_bag p" using ids i a(1) by (simp add: neutral_def bag_def)
    then show "bag h' = B" by (rule dropsD(1) [OF rest _ r])
  next
    fix B h e h' assume a: "bag h = B + page_bag p" "free_signal_page K devs p h = (Inl e, h')"
    then consider "e = ABORT" | ids h1 where "Memory.push_all K 4 4 [] (gpu_ids devs) h = (Inr ids, h1)"
      "op_assert (sys K (UnmapMemory (sm_handle p) ids)) (op_assert (sys K (FreeMemory (sm_handle p))) (region_destroy K ?r)) h1 = (Inl e, h')"
      using False unfolding free_signal_page_def by (auto simp: op_else_eq op_fail_def)
    then show "fatal e"
    proof cases
      case 2
      have "bag h1 = B + page_bag p" using ids 2(1) a(1) by (simp add: neutral_def bag_def)
      then show ?thesis by (rule dropsD(2) [OF rest _ 2(2)])
    qed (simp add: fatal_def)
  qed
qed (simp add: free_signal_page_def page_bag_def drops_ret)

lemma allocated_buffer:
  assumes "os_contract K" and "yields (buffer_allocate K page d sz type flags 0) b"
  shows "b_handle b \<noteq> 0" and "rg_addr (b_mapping b) \<noteq> 0" and "rg_len (b_mapping b) = b_len b"
    and "unat (rg_addr (b_mapping b)) + unat (rg_len (b_mapping b)) \<le> 2 ^ 64"
proof -
  note C = os_contractD [OF assms(1)]
  from assms(2) obtain r h h1 out h2 prot p h3 where
    r: "region_reserve K (align_up sz page) 0 h = (Inr r, h1)"
    and a: "sys K (AllocMemory (rg_addr r) (align_up sz page) 0 (md_gpu d) (mem_type_bits type OR flags)) h1 = (Inr out, h2)"
    and p: "region_rebind K r (md_render_fd d) prot (out_word out 1) h2 = (Inr p, h3)"
    and b: "b_handle b = out_word out 0" "b_mapping b = fst p" "b_len b = align_up sz page"
    unfolding yields_def buffer_allocate_def Let_def
    by (elim exE) (auto simp: op_when_def op_try_eq op_else_eq op_assert_eq op_ret_eq op_fail_def split: if_splits; blast)
  have r0: "rg_addr r \<noteq> 0 \<and> rg_len r = align_up sz page"
    by (rule reserved_region [OF C(1)]) (use r in \<open>auto simp: yields_def\<close>)
  then have "p = (r, null_region)" using rebound [OF C(1), of r "md_render_fd d" prot "out_word out 1" p] p by (auto simp: yields_def)
  with b r0 show "rg_addr (b_mapping b) \<noteq> 0" "rg_len (b_mapping b) = b_len b" by simp_all
  obtain f xs where "K h (Mmap 0 (align_up sz page) PROT_NONE f (- 1) 0) = Done xs" "rg_addr r = out_word xs 0"
    using r by (auto simp: region_reserve_def op_eqs Let_def)
  with mmap_anywhere(2) [OF C(1)] r0 \<open>p = (r, null_region)\<close> b(2)
  show "unat (rg_addr (b_mapping b)) + unat (rg_len (b_mapping b)) \<le> 2 ^ 64" by simp
  show "b_handle b \<noteq> 0" using C(9) a b(1) by (auto simp: sys_eq)
qed

lemma holds_alloc_page:
  assumes "os_contract (en_kernel en)"
  shows "holds {#} {#} (alloc_signal_page en devs sz) page_bag"
proof (cases devs)
  case (Cons d ds)
  let ?K = "en_kernel en"
  show ?thesis unfolding alloc_signal_page_def Let_def Cons list.case
  proof (rule holds_try [OF holds_buffer_allocate [OF assms]])
    fix bo assume "yields (buffer_allocate ?K (en_page en) (mem_dev_of d) sz GTT SIGNAL_PAGE_FLAGS 0) bo"
    note bo = allocated_buffer [OF assms this]
    have map: "holds (buffer_bag bo) {#} (op_try (buffer_map ?K bo ts) (\<lambda>(r, bo'). on_error (buffer_drop ?K bo') (op_try (op_res r) (\<lambda>_.
             op_ret \<lparr>sm_addr = rg_addr (b_mapping bo'), sm_handle = fst (buffer_release bo'), sm_size = b_len bo'\<rparr>)))) page_bag" for ts
    proof -
      have "holds ({#} + buffer_bag bo) {#} (op_try (buffer_map ?K bo ts) (\<lambda>(r, bo'). on_error (buffer_drop ?K bo') (op_try (op_res r) (\<lambda>_.
             op_ret \<lparr>sm_addr = rg_addr (b_mapping bo'), sm_handle = fst (buffer_release bo'), sm_size = b_len bo'\<rparr>)))) page_bag"
        by (rule holds_map_scope, rule holds_ret)
           (use bo in \<open>simp add: page_bag_def buffer_bag_def buffer_release_def region_bag_def region_bytes_def\<close>)
      then show ?thesis by simp
    qed
    show "holds (buffer_bag bo) {#} (op_try (on_error (buffer_drop ?K bo) (Memory.push_all ?K 8 4 [] (gpu_ids (d # ds)))) (\<lambda>targets.
             op_try (buffer_map ?K bo targets) (\<lambda>(r, bo'). on_error (buffer_drop ?K bo') (op_try (op_res r) (\<lambda>_.
             op_ret \<lparr>sm_addr = rg_addr (b_mapping bo'), sm_handle = fst (buffer_release bo'), sm_size = b_len bo'\<rparr>))))) page_bag"
      by (rule holds_try [OF holds_on_error [OF _ drops_buffer] map])
         (use neutral_holds [OF neutral_push(2), of "buffer_bag bo"] in simp)
  qed
qed (simp add: alloc_signal_page_def holds_ret page_bag_def no_page_def)

lemma holds_new_pages:
  assumes "os_contract (en_kernel en)"
  shows "holds {#} {#} (op_try (alloc_signal_page en devs sz) (\<lambda>ep.
             op_try (register_page (en_kernel en) devs ep) (\<lambda>_.
             op_try (on_error (free_signal_page (en_kernel en) devs ep) (alloc_signal_page en devs sz)) (\<lambda>fp.
             op_ret (ep, fp))))) (\<lambda>(ep, fp). page_bag ep + page_bag fp)"
proof (rule holds_try [OF holds_alloc_page [OF assms]])
  fix ep
  let ?K = "en_kernel en"
  have create: "holds (page_bag ep) {#} (on_error (free_signal_page ?K devs ep)
      (sys ?K (CreateEvent (sm_handle ep) (event_type_bits SIGNAL) 1))) (\<lambda>out. page_bag ep + {#Evt (ucast (out_word out 0))#})"
    by (rule holds_on_error [OF _ drops_page]) (use holds_calls(2) [OF assms] in simp)
  have reg: "holds (page_bag ep) {#} (register_page ?K devs ep) (\<lambda>_. page_bag ep)"
    unfolding register_page_def
    by (rule holds_try [OF create], subst op_assert_try, rule holds_drop [OF drops_calls(2) holds_ret]) simp
  have fence: "holds (page_bag ep) {#} (on_error (free_signal_page ?K devs ep) (alloc_signal_page en devs sz)) (\<lambda>fp. page_bag ep + page_bag fp)"
    by (rule holds_on_error [OF _ drops_page]) (use holds_gain [OF holds_alloc_page [OF assms] refl, of "page_bag ep"] in simp)
  show "holds (page_bag ep) {#} (op_try (register_page ?K devs ep) (\<lambda>_.
             op_try (on_error (free_signal_page ?K devs ep) (alloc_signal_page en devs sz)) (\<lambda>fp.
             op_ret (ep, fp)))) (\<lambda>(ep, fp). page_bag ep + page_bag fp)"
    by (rule holds_try [OF reg], rule holds_try [OF fence], rule holds_ret) simp
qed

lemma page_null:
  assumes "os_contract (en_kernel en)" and "yields (alloc_signal_page en devs sz) p"
  shows "sm_addr p = 0 \<longleftrightarrow> devs = []"
proof (cases devs)
  case (Cons d ds)
  with assms(2) obtain bo ts r bo' h h' where bo: "yields (buffer_allocate (en_kernel en) (en_page en) (mem_dev_of d) sz GTT SIGNAL_PAGE_FLAGS 0) bo"
    and m: "buffer_map (en_kernel en) bo ts h = (Inr (r, bo'), h')" and p: "sm_addr p = rg_addr (b_mapping bo')"
    unfolding alloc_signal_page_def Let_def yields_def
    by (auto simp: op_try_eq on_error_eq op_ret_eq op_res_eq) blast
  have "b_mapping bo' = b_mapping bo" using mapped_buffer [of "en_kernel en" bo ts "(r, bo')"] m by (auto simp: yields_def)
  with allocated_buffer(2) [OF assms(1) bo] p Cons show ?thesis by simp
qed (use assms(2) in \<open>auto simp: alloc_signal_page_def yields_def op_ret_eq no_page_def\<close>)

lemma owns_init_pages:
  assumes "os_contract (en_kernel en)"
  shows "s_owns globals_bag T T (init_signal_pages en devs) (\<lambda>_. T)"
proof -
  let ?m = "op_try (alloc_signal_page en devs SIGNAL_PAGE_SIZE) (\<lambda>ep.
             op_try (register_page (en_kernel en) devs ep) (\<lambda>_.
             op_try (on_error (free_signal_page (en_kernel en) devs ep) (alloc_signal_page en devs SIGNAL_PAGE_SIZE)) (\<lambda>fp.
             op_ret (ep, fp))))"
  have null: "sm_addr (fst p) = 0 \<longleftrightarrow> devs = []" "sm_addr (snd p) = 0 \<longleftrightarrow> devs = []" if "yields ?m p" for p
  proof -
    have alloc: "sm_addr q = 0 \<longleftrightarrow> devs = []" if "alloc_signal_page en devs SIGNAL_PAGE_SIZE h = (Inr q, h')" for q h h'
      by (rule page_null [OF assms]) (use that in \<open>auto simp: yields_def\<close>)
    from that obtain h h1 h2 h3 h4 where "alloc_signal_page en devs SIGNAL_PAGE_SIZE h = (Inr (fst p), h1)"
      "alloc_signal_page en devs SIGNAL_PAGE_SIZE h2 = (Inr (snd p), h3)"
      by (auto simp: yields_def op_try_eq on_error_eq op_ret_eq)
    from alloc [OF this(1)] alloc [OF this(2)]
    show "sm_addr (fst p) = 0 \<longleftrightarrow> devs = []" "sm_addr (snd p) = 0 \<longleftrightarrow> devs = []" by simp_all
  qed
  have new: "holds (globals_bag g + T) V
      (s_try (s_lift ?m) (\<lambda>p. s_upd (\<lambda>g. g\<lparr>gl_fences := snd p, gl_events := fst p\<rparr>)) g) (outcome_bag globals_bag T (\<lambda>_. T))"
    if g: "sm_addr (gl_events g) = 0" for g V
  proof (rule owns_lift_upd [where R = "\<lambda>(ep, fp). T + (page_bag ep + page_bag fp)"])
    show "holds T T ?m (\<lambda>(ep, fp). T + (page_bag ep + page_bag fp))"
      using holds_gain [OF holds_new_pages [OF assms], where F = "\<lambda>(ep, fp). T + (page_bag ep + page_bag fp)"] by auto
    fix p assume "yields ?m p"
    from null [OF this] show "globals_bag (g\<lparr>gl_fences := snd p, gl_events := fst p\<rparr>) + T =
        globals_bag g + (case p of (ep, fp) \<Rightarrow> T + (page_bag ep + page_bag fp))"
      using g by (cases p) (auto simp: globals_bag_def page_bag_def ac_simps)
  qed
  show ?thesis unfolding init_signal_pages_def s_owns_def case_prod_unfold
    using new owns_ret [of "\<lambda>_. T" "()" T globals_bag T] by (auto simp: s_owns_def)
qed

lemma owns_enable_runtime: "s_owns globals_bag T T (enable_runtime K) (\<lambda>_. T)"
proof -
  have "holds T T (sys K (RuntimeEnable 0 RUNTIME_MODE_MASK)) (\<lambda>_. T)"
    by (rule neutral_holds) (auto intro!: own_rules)
  then have "holds (globals_bag g + T) V
      (s_try (s_lift (sys K (RuntimeEnable 0 RUNTIME_MODE_MASK))) (\<lambda>_. s_upd (\<lambda>g. g\<lparr>gl_runtime := True\<rparr>)) g)
      (outcome_bag globals_bag T (\<lambda>_. T))" for g V
    by (rule owns_lift_upd) (simp add: globals_bag_def)
  then show ?thesis unfolding enable_runtime_def s_owns_def
    using owns_ret [of "\<lambda>_. T" "()" T globals_bag T] by (auto simp: s_owns_def)
qed

text \<open>The descriptor of an open that succeeded is not negative.\<close>

definition sane_descriptors :: "kernel \<Rightarrow> bool" where
  "sane_descriptors K \<longleftrightarrow> (\<forall>h p out. K h (Open p) = Done out \<longrightarrow> 0 \<le> out_fd out)"

lemma holds_open_kfd:
  assumes "os_contract K"
  shows "holds {#} {#} (open_kfd K topo) (\<lambda>(fd, _). {#Fd fd#})"
  unfolding open_kfd_def Let_def
proof (rule holds_try [OF holds_calls(4) [OF assms, of "{#}"]])
  fix out
  have version: "neutral (kfd_version K)" by (auto simp: kfd_version_def intro!: own_rules)
  have xnack: "neutral (op_catch (sys K (SetXnackMode (- 1))) (\<lambda>_. op_ret (fd, False, nodes))
          (\<lambda>out. op_ret (fd, sint (ucast (out_word out 0) :: u32) > 0, nodes)))" for fd :: int and nodes :: "node_info list"
    by (auto intro!: own_rules)
  show "holds ({#} + {#Fd (out_fd out)#}) {#} (on_error (close_fd K (out_fd out) (op_ret ()))
        (op_try (kfd_version K) (\<lambda>ver. op_when (too_old ver) ENOTSUP (op_try (op_res topo) (\<lambda>nodes.
        op_catch (sys K (SetXnackMode (- 1))) (\<lambda>_. op_ret (out_fd out, False, nodes))
          (\<lambda>out'. op_ret (out_fd out, sint (ucast (out_word out' 0) :: u32) > 0, nodes))))))) (\<lambda>(fd, _). {#Fd fd#})"
    apply (rule holds_on_error [OF _ drops_close])
    apply simp
    apply (rule holds_neutral [OF version], rule holds_when [OF refl], rule holds_neutral [OF neutral_basic(3)])
    apply (rule holds_post [OF neutral_holds [OF xnack]])
    apply (auto simp: yields_def op_catch_eq op_eqs split: if_splits)
    done
qed

lemma owns_add_device:
  assumes "os_contract (en_kernel en)" and "sane_apertures (en_kernel en)"
  shows "s_owns globals_bag {#} (context_bag cx) (add_device en cx n) context_bag"
proof -
  let ?K = "en_kernel en"
  let ?new = "\<lambda>g :: globals. op_try (device_create (en_malloc en) ?K (en_page en) (en_images en) (gl_cache g) n) (\<lambda>(r, c). op_ret (r, g\<lparr>gl_cache := c\<rparr>))"
  have new: "s_owns globals_bag (context_bag cx) (context_bag cx) ?new (\<lambda>dv. device_bag dv + context_bag cx)"
    unfolding s_owns_def
  proof (intro allI)
    fix g :: globals and V
    let ?W = "(if sm_addr (gl_events g) = 0 then {#} else page_bag (gl_events g) + page_bag (gl_fences g)) + context_bag cx"
    have "holds (cache_bag (gl_cache g) + ?W) V (device_create (en_malloc en) ?K (en_page en) (en_images en) (gl_cache g) n)
        (\<lambda>p. (case p of (r, c') \<Rightarrow> cache_bag c' + (case r of Inl _ \<Rightarrow> {#} | Inr dv \<Rightarrow> device_bag dv)) + ?W)"
      by (rule holds_frame_any) (rule holds_device_create [OF assms])
    then show "holds (globals_bag g + context_bag cx) V (?new g) (outcome_bag globals_bag (context_bag cx) (\<lambda>dv. device_bag dv + context_bag cx))"
      unfolding globals_bag_def add.assoc
      by (rule holds_try) (auto intro!: holds_ret simp: outcome_bag_def globals_bag_def ac_simps split: sum.splits)
  qed
  have push: "holds (device_bag dv + context_bag cx) (device_bag dv + context_bag cx)
      (push_one ?K (en_device_size en) (cx_cap cx) (cx_nodes cx) dv) (\<lambda>(cap, nodes). context_bag (cx\<lparr>cx_nodes := nodes, cx_cap := cap\<rparr>))" for dv
    by (rule holds_post [OF neutral_holds [OF neutral_push(1)]])
       (auto simp: yields_def push_one_def op_eqs context_bag_def devices_bag_def ac_simps split: if_splits)
  show ?thesis unfolding add_device_def
    apply (rule owns_try)
     apply (rule owns_on_error [OF _ s_drops_free [OF drops_context]], simp, rule new)
    apply (rule owns_try)
     apply (rule owns_on_error [OF _ s_drops_free [OF drops_seq [OF drops_device drops_context]]], simp, rule owns_lift [OF push])
    apply (auto intro!: owns_ret)
    done
qed

lemma owns_add_devices:
  assumes "os_contract (en_kernel en)" and "sane_apertures (en_kernel en)"
  shows "s_owns globals_bag {#} (context_bag cx) (add_devices en cx ns) context_bag"
  by (induction ns arbitrary: cx) (auto intro!: owns_ret owns_try [OF owns_add_device [OF assms]])

lemma added_devices:
  assumes "yields (add_devices en cx ns g) (Inr cx', g')"
  shows "cx_watcher cx' = cx_watcher cx \<and> cx_fd cx' = cx_fd cx \<and> length (cx_nodes cx') = length (cx_nodes cx) + length ns"
  using assms
proof (induction ns arbitrary: cx g)
  case (Cons n ns)
  then obtain cx1 g1 where one: "yields (add_device en cx n g) (Inr cx1, g1)" and rest: "yields (add_devices en cx1 ns g1) (Inr cx', g')"
    by (auto simp: yields_def s_Inr)
  from one have "cx_watcher cx1 = cx_watcher cx \<and> cx_fd cx1 = cx_fd cx \<and> length (cx_nodes cx1) = length (cx_nodes cx) + 1"
    by (auto simp: yields_def add_device_def s_Inr push_one_def op_eqs split: if_splits)
  with Cons.IH [OF rest] show ?case by simp
qed (auto simp: yields_def s_Inr)

lemma owns_context_create:
  assumes "os_contract (en_kernel en)" and "sane_apertures (en_kernel en)" and "sane_descriptors (en_kernel en)"
  shows "s_owns globals_bag {#} {#} (context_create en topo) context_bag"
  unfolding context_create_def
proof (rule owns_try_yields [OF owns_lift [OF holds_open_kfd [OF assms(1)]]])
  fix p :: "int \<times> bool \<times> node_info list" and s s' :: globals
  obtain fd xnack nodes where p: "p = (fd, xnack, nodes)" by (metis prod_cases3)
  let ?K = "en_kernel en"
  let ?cx = "\<lparr>cx_fd = fd, cx_xnack = xnack, cx_nodes = [], cx_cap = 4, cx_watcher = None\<rparr>"
  assume "yields (s_lift (open_kfd ?K topo) s) (Inr p, s')"
  then have "yields (open_kfd ?K topo) (fd, xnack, nodes)" unfolding p by (rule yields_lift)
  then have "0 \<le> fd"
    using assms(3)
    by (auto simp: yields_def open_kfd_def Let_def op_try_eq on_error_eq op_when_eq op_catch_eq op_eqs sys_eq
        sane_descriptors_def split: if_splits)
  then have start: "context_bag ?cx = {#Fd fd#}" by (simp add: context_bag_def watcher_part_def devices_bag_def)
  have stage: "s_owns globals_bag {#} (context_bag cx) (s_on_error (s_free (context_drop en cx)) m) R"
    if "s_owns globals_bag (context_bag cx) (context_bag cx) m R" for cx and m :: "(globals, 'a) sop" and R
    by (rule owns_on_error [OF _ s_drops_free [OF drops_context]]) (use that in simp)
  have stage_w: "s_owns globals_bag {#} (context_bag cx) (s_on_error (s_free (context_drop en cx)) m) R"
    if "s_owns globals_bag (context_bag cx) (context_bag cx) m R" for cx and m :: "(globals, fault_watcher) sop" and R
    by (rule owns_on_error [OF _ s_drops_free [OF drops_context]]) (use that in simp)
  have watch: "s_owns globals_bag (context_bag cx) (context_bag cx) (\<lambda>g. s_lift (start_fault_watcher ?K fd (pages_of g)) g)
      (\<lambda>w. context_bag cx + watcher_bag w)" for cx
    by (rule owns_state, rule owns_lift_gain, rule holds_start_watcher [OF assms(1) \<open>0 \<le> fd\<close>])
  have rest: "s_owns globals_bag {#} (context_bag cx)
     (s_try (s_on_error (s_free (context_drop en cx)) (init_signal_pages en (cx_nodes cx))) (\<lambda>_.
      s_try (s_on_error (s_free (context_drop en cx)) (enable_runtime ?K)) (\<lambda>_.
      s_try (s_on_error (s_free (context_drop en cx)) (\<lambda>g. s_lift (start_fault_watcher ?K fd (pages_of g)) g)) (\<lambda>w.
      s_ret (cx\<lparr>cx_watcher := Some w\<rparr>))))) context_bag" if "cx_watcher cx = None" for cx
    by (rule owns_try [OF stage [OF owns_init_pages [OF assms(1)]]], rule owns_try [OF stage [OF owns_enable_runtime]],
        rule owns_try [OF stage_w [OF watch]], rule owns_ret)
       (use that in \<open>simp add: context_bag_def watcher_part_def ac_simps\<close>)
  show "s_owns globals_bag {#} (case p of (fd, _) \<Rightarrow> {#Fd fd#}) (case p of (fd, xnack, nodes) \<Rightarrow>
     s_try (add_devices en \<lparr>cx_fd = fd, cx_xnack = xnack, cx_nodes = [], cx_cap = 4, cx_watcher = None\<rparr> nodes) (\<lambda>cx.
     s_try (s_on_error (s_free (context_drop en cx)) (init_signal_pages en (cx_nodes cx))) (\<lambda>_.
     s_try (s_on_error (s_free (context_drop en cx)) (enable_runtime ?K)) (\<lambda>_.
     s_try (s_on_error (s_free (context_drop en cx)) (\<lambda>g. s_lift (start_fault_watcher ?K fd (pages_of g)) g)) (\<lambda>w.
     s_ret (cx\<lparr>cx_watcher := Some w\<rparr>)))))) context_bag"
    unfolding p prod.case start [symmetric]
  proof (rule owns_try_yields [OF owns_add_devices [OF assms(1,2)]])
    fix cx s s' assume "yields (add_devices en ?cx nodes s) (Inr cx, s')"
    then have "cx_watcher cx = None" using added_devices by fastforce
    then show "s_owns globals_bag {#} (context_bag cx)
     (s_try (s_on_error (s_free (context_drop en cx)) (init_signal_pages en (cx_nodes cx))) (\<lambda>_.
      s_try (s_on_error (s_free (context_drop en cx)) (enable_runtime ?K)) (\<lambda>_.
      s_try (s_on_error (s_free (context_drop en cx)) (\<lambda>g. s_lift (start_fault_watcher ?K fd (pages_of g)) g)) (\<lambda>w.
      s_ret (cx\<lparr>cx_watcher := Some w\<rparr>))))) context_bag" by (rule rest)
  qed
qed

section \<open>What is initialised once\<close>

definition sticky :: "globals \<Rightarrow> globals \<Rightarrow> bool" where
  "sticky g g' \<longleftrightarrow>
     (sm_addr (gl_events g) \<noteq> 0 \<longrightarrow> gl_events g' = gl_events g \<and> gl_fences g' = gl_fences g) \<and>
     (gl_runtime g \<longrightarrow> gl_runtime g') \<and> (\<exists>cs. gl_cache g' = gl_cache g @ cs)"

lemma sticky_order: "reflp sticky" "transp sticky"
  by (auto simp: sticky_def reflp_def transp_def)

lemma device_create_cache: "device_create mal K page images c n h = (Inr (r, c'), h') \<Longrightarrow> \<exists>cs. c' = c @ cs"
  by (auto simp: device_create_def op_catch_eq op_eqs open_render_fd_def Let_def close_fd_def drm_deinit_def split: if_splits)

lemma sticky_create: "s_keeps sticky (context_create en topo)"
proof -
  note order = sticky_order
  have new: "s_keeps sticky (\<lambda>g. op_try (device_create (en_malloc en) (en_kernel en) (en_page en) (en_images en) (gl_cache g) n)
      (\<lambda>(r, c). op_ret (r, g\<lparr>gl_cache := c\<rparr>)))" for n
    by (auto simp: s_keeps_def sticky_def op_try_eq op_ret_eq dest: device_create_cache)
  have add: "s_keeps sticky (add_device en cx n)" for cx n
    unfolding add_device_def
    by (intro s_keeps_try order s_keeps_free new)
       (auto intro!: s_keeps_lift s_keeps_ret s_keeps_try s_keeps_free order)
  have adds: "s_keeps sticky (add_devices en cx ns)" for cx ns
    by (induction ns arbitrary: cx) (auto intro!: s_keeps_ret s_keeps_try order add)
  have init: "s_keeps sticky (init_signal_pages en devs)" for devs
    by (auto simp: s_keeps_def init_signal_pages_def s_try_def s_lift_def s_ret_def s_upd_def sticky_def op_catch_eq op_eqs
        split: if_splits)
  have runtime: "s_keeps sticky (enable_runtime K)" for K
    by (auto simp: s_keeps_def enable_runtime_def s_try_def s_lift_def s_ret_def s_upd_def sticky_def op_catch_eq op_eqs
        split: if_splits)
  have watch: "s_keeps sticky (\<lambda>g. s_lift (start_fault_watcher (en_kernel en) fd (pages_of g)) g)" for fd
    using s_keepsD [OF s_keeps_lift [OF order(1)]] unfolding s_keeps_def by blast
  show ?thesis unfolding context_create_def
    by (intro s_keeps_try order s_keeps_lift) 
       (auto intro!: s_keeps_try s_keeps_free s_keeps_ret order adds init runtime watch)
qed

lemma created_context:
  assumes "context_create en topo g h = (Inr (Inr cx, g'), h')"
  shows "\<exists>nodes w. topo = Inr nodes \<and> length (cx_nodes cx) = length nodes \<and> cx_watcher cx = Some w \<and> gl_runtime g'"
proof -
  from assms obtain fd xnack nodes g1 h1 cx1 g2 h2 g3 h3 g4 h4 w where o: "open_kfd (en_kernel en) topo h = (Inr (fd, xnack, nodes), h1)"
    and a: "add_devices en \<lparr>cx_fd = fd, cx_xnack = xnack, cx_nodes = [], cx_cap = 4, cx_watcher = None\<rparr> nodes g1 h1 = (Inr (Inr cx1, g2), h2)"
    and r: "enable_runtime (en_kernel en) g3 h3 = (Inr (Inr (), g4), h4)" and g: "g' = g4"
    and cx: "cx = cx1\<lparr>cx_watcher := Some w\<rparr>"
    by (simp add: context_create_def s_Inr split: prod.splits) blast
  have "gl_runtime g'"
    using r by (auto simp: g enable_runtime_def s_Inr s_upd_def op_ret_eq split: if_splits)
  have "topo = Inr nodes"
    using o by (auto simp: open_kfd_def Let_def op_try_eq on_error_eq op_when_eq op_catch_eq op_eqs op_res_def split: if_splits)
  moreover have "yields (add_devices en \<lparr>cx_fd = fd, cx_xnack = xnack, cx_nodes = [], cx_cap = 4, cx_watcher = None\<rparr> nodes g1) (Inr cx1, g2)"
    using a by (auto simp: yields_def)
  note added_devices [OF this]
  ultimately show ?thesis using cx \<open>gl_runtime g'\<close> by simp
qed


definition demo_environment :: environment where
  "demo_environment = \<lparr>en_malloc = \<lambda>_. True, en_kernel = fresh_kernel, en_page = 0x1000, en_images = [(0, demo_trap)],
     en_device_size = 512, en_polls = 1\<rparr>"

definition demo_globals :: globals where
  "demo_globals = \<lparr>gl_cache = [], gl_events = no_page, gl_fences = no_page, gl_runtime = False\<rparr>"

definition demo_context :: "(u64 \<times> u64) op" where
  "demo_context =
     op_try (context_create demo_environment (Inr [demo_node]) demo_globals) (\<lambda>(r, g').
       case r of Inl e \<Rightarrow> op_fail e
       | Inr cx \<Rightarrow> op_try (context_drop demo_environment cx) (\<lambda>_. op_ret (sm_addr (gl_events g'), sm_addr (gl_fences g'))))"

lemma demo_context_run: "fst (demo_context []) = Inr (0x151FFF, 0x169FFF)"
  by code_simp

lemma demo_descriptors: "sane_descriptors fresh_kernel"
proof (unfold sane_descriptors_def, intro allI impI)
  fix h p out assume "fresh_kernel h (Open p) = Done out"
  then have "fresh fd_name h (\<lambda>n. [n]) = Done out" by (simp add: fresh_kernel_def)
  from fresh_Done [OF this] obtain n :: u64 where "out_fd out = sint (ucast n :: u32)" "uint n < 2 ^ 31"
    by (auto simp: out_word_def out_fd_def)
  then show "0 \<le> out_fd out" using small_names(2) [of n] by simp
qed


end
