(* ===== verification/Loading.thy ===== *)
theory Loading
  imports Context Queue_Life
begin

text \<open>
  \<^verbatim>\<open>Executable::load\<close> as a whole: the copy of the file, the image on the device, staging, the transfer
  and the wait for it, with the destructors of every early return; and \<^verbatim>\<open>Kernel::alloc\<close>. The checks and
  the contents of the staging memory are those of \<^theory_text>\<open>Loader\<close>, the packets those of \<^theory_text>\<open>Queue_Ops\<close>.
\<close>

section \<open>State\<close>

text \<open>The two queues a load submits to.\<close>

record load_queues =
  lq_sdma :: queue_base
  lq_compute :: compute_queue

text \<open>The executable with what it owns, and as ghost state the memory it was transferred from.\<close>

record loaded =
  lx_data :: region
  lx_exec :: executable
  lx_image :: buffer
  lx_staging :: region
  lx_staged :: bytes

record load_setting =
  lo_kernel :: kernel
  lo_kfd :: int
  lo_pages :: signal_pages
  lo_page :: u64
  lo_dev :: mem_dev
  lo_target :: load_dev
  lo_polls :: nat

text \<open>An error of a submission that ends the process ends it here as well.\<close>

definition on_sdma :: "(queue_base \<Rightarrow> unit res \<times> queue_base) \<Rightarrow> (load_queues, unit) sop" where
  "on_sdma f s = (case f (lq_sdma s) of (r, q) \<Rightarrow>
     op_catch (op_res r) (\<lambda>e. op_ret (Inl e, s\<lparr>lq_sdma := q\<rparr>)) (\<lambda>_. op_ret (Inr (), s\<lparr>lq_sdma := q\<rparr>)))"

definition on_compute :: "(compute_queue \<Rightarrow> unit res \<times> compute_queue) \<Rightarrow> (load_queues, unit) sop" where
  "on_compute f s = (case f (lq_compute s) of (r, q) \<Rightarrow>
     op_catch (op_res r) (\<lambda>e. op_ret (Inl e, s\<lparr>lq_compute := q\<rparr>)) (\<lambda>_. op_ret (Inr (), s\<lparr>lq_compute := q\<rparr>)))"

text \<open>The scope of a local object: its destructor runs on every way out.\<close>

definition s_scope :: "unit op \<Rightarrow> ('s, 'a) sop \<Rightarrow> ('s, 'a) sop" where
  "s_scope d m s = op_try (m s) (\<lambda>(r, s'). op_try d (\<lambda>_. op_ret (r, s')))"

definition CREATE_FLAGS :: u32 where "CREATE_FLAGS = MAP_PRIVATE OR MAP_ANONYMOUS"
definition SPIN_NS :: u64 where "SPIN_NS = 1000000"

section \<open>Loading\<close>

text \<open>The transfer and the invalidation of the caches, and the wait for both.\<close>

definition transfer_image :: "load_setting \<Rightarrow> u64 \<Rightarrow> u64 \<Rightarrow> u64 \<Rightarrow> signal \<Rightarrow> (load_queues, unit) sop" where
  "transfer_image ld dst src footprint sig =
     s_try (on_sdma (sq_copy_linear dst src footprint)) (\<lambda>_.
     s_try (on_sdma (sq_signal sig)) (\<lambda>_.
     s_try (on_compute (cq_wait sig EQ 1)) (\<lambda>_.
     s_try (on_compute (cq_acquire_mem ACQ_ALL)) (\<lambda>_.
     s_try (on_compute (cq_signal sig)) (\<lambda>_.
     s_lift (signal_wait (lo_kernel ld) (lo_polls ld) sig EQ 0 (- 1) SPIN_NS))))))"

definition stage_and_transfer ::
    "load_setting \<Rightarrow> bytes \<Rightarrow> u64 \<Rightarrow> u64 \<Rightarrow> u64 \<Rightarrow> region \<Rightarrow> (load_queues, bytes) sop" where
  "stage_and_transfer ld img lo footprint dst staging =
     s_try (s_lift (op_res (stage_image img lo footprint dst))) (\<lambda>staged.
     s_try (s_lift (signal_create (lo_kernel ld) (lo_kfd ld) (lo_pages ld) 2)) (\<lambda>sig.
     s_scope (signal_drop (lo_kernel ld) sig) (
     s_try (transfer_image ld dst (rg_addr staging) footprint sig) (\<lambda>_. s_ret staged))))"

definition executable_load :: "load_setting \<Rightarrow> bytes \<Rightarrow> (load_queues, loaded) sop" where
  "executable_load ld obj =
     (let K = lo_kernel ld
      in s_try (s_lift (region_create K (of_nat (length obj)) PROT_RW CREATE_FLAGS)) (\<lambda>data.
         s_on_error (s_free (region_destroy K data)) (
         s_try (s_lift (op_res (load_checks (lo_page ld) (lo_target ld) (rg_addr data) obj))) (\<lambda>(img, lo, hi, footprint).
         s_try (s_lift (allocate_mapped K (lo_page ld) (lo_dev ld) footprint VRAM (MF_WRITABLE OR MF_EXECUTABLE))) (\<lambda>image.
         s_on_error (s_free (buffer_drop K image)) (
         s_try (s_lift (region_create K footprint PROT_RW CREATE_FLAGS)) (\<lambda>staging.
         s_try (s_scope (region_destroy K staging) (
           s_try (s_lift (pin_mapped K (lo_page ld) (lo_dev ld) (rg_addr staging) footprint (MF_WRITABLE OR MF_EXECUTABLE))) (\<lambda>pinned.
           s_scope (buffer_drop K pinned) (
           stage_and_transfer ld img lo footprint (rg_addr (b_mapping image)) staging)))) (\<lambda>staged.
         s_ret \<lparr>lx_data = data,
           lx_exec = \<lparr>ex_elf = img, ex_addr = rg_addr (b_mapping image), ex_size = b_len image, ex_base = lo\<rparr>,
           lx_image = image, lx_staging = staging, lx_staged = staged\<rparr>))))))))"

definition executable_drop :: "kernel \<Rightarrow> loaded \<Rightarrow> unit op" where
  "executable_drop K x = op_try (buffer_drop K (lx_image x)) (\<lambda>_. region_destroy K (lx_data x))"

section \<open>Who owns what\<close>

abbreviation no_bag :: "load_queues \<Rightarrow> token multiset" where "no_bag \<equiv> \<lambda>_. {#}"

definition loaded_bag :: "loaded \<Rightarrow> token multiset" where
  "loaded_bag x = region_bag (lx_data x) + buffer_bag (lx_image x)"

lemma drops_loaded: "drops (loaded_bag x) (executable_drop K x)"
  unfolding executable_drop_def loaded_bag_def
  by (rule drops_post [OF drops_seq [OF drops_buffer drops_region]]) (simp add: add.commute)

lemma owns_scope:
  fixes m :: "('s, 'a) sop"
  assumes "s_owns I (U + D) T m (\<lambda>x. F x + D)" and "drops D d"
  shows "s_owns I U T (s_scope d m) F"
  unfolding s_owns_def s_scope_def
proof (intro allI, rule holds_try)
  fix s V
  show "holds (I s + T) V (m s) (outcome_bag I (U + D) (\<lambda>x. F x + D))" using assms(1) by (simp add: s_owns_def)
next
  fix s V and p :: "'a res \<times> 's"
  obtain r s' where p: "p = (r, s')" by fastforce
  have "holds (outcome_bag I U F (r, s') + D) V (op_try d (\<lambda>_. op_ret (r, s'))) (outcome_bag I U F)"
    by (rule holds_drop [OF assms(2) holds_ret]) simp
  moreover have "outcome_bag I (U + D) (\<lambda>x. F x + D) (r, s') = outcome_bag I U F (r, s') + D"
    by (cases r) (simp_all add: ac_simps)
  ultimately show "holds (outcome_bag I (U + D) (\<lambda>x. F x + D) p) V (case p of (r, s') \<Rightarrow> op_try d (\<lambda>_. op_ret (r, s')))
      (outcome_bag I U F)"
    by (simp add: p)
qed

lemma owns_submit: "s_owns no_bag T T (on_sdma f) (\<lambda>_. T)" "s_owns no_bag T T (on_compute g) (\<lambda>_. T)"
  unfolding s_owns_def on_sdma_def on_compute_def
  by (auto split: prod.split intro!: holds_catch [where R = "\<lambda>_. T" and V = T] holds_ret neutral_holds neutral_basic)

lemma owns_neutral: "neutral m \<Longrightarrow> s_owns I T T (s_lift m) (\<lambda>_. T)"
  by (rule owns_lift [OF neutral_holds])

lemma neutral_signal_wait: "neutral (signal_wait K n s c v t sp)"
proof -
  have load: "neutral (load_fence K s)" "neutral (now_ns K)" for s
    by (auto simp: load_fence_def now_ns_def intro!: own_rules)
  have check: "neutral (check_all K ss c v)" for ss
    by (induction ss) (auto intro!: own_rules load)
  have spin: "neutral (spin_all K n ss c v d)" for n ss d
    by (induction n) (auto intro!: own_rules load check)
  have event: "neutral (signal_event_wait K ss w t)" for ss w t
    by (auto simp: signal_event_wait_def wait_all_events_def wait_any_events_def do_wait_events_def check_wait_result_def Let_def
        intro!: own_rules neutral_push)
  have "neutral (block_all K n ss c v d)" for n ss d
    by (induction n) (auto intro!: own_rules load check event)
  then show ?thesis unfolding signal_wait_def wait_all_def by (auto intro!: own_rules load spin)
qed

lemma owns_transfer: "s_owns no_bag T T (transfer_image ld dst src footprint sig) (\<lambda>_. T)"
  unfolding transfer_image_def
  by (intro owns_try [where R = "\<lambda>_. T"] owns_submit owns_neutral neutral_signal_wait)

text \<open>A store to the signal page, which is mapped memory, does not report an error.\<close>

definition stores_succeed :: "kernel \<Rightarrow> bool" where
  "stores_succeed K \<longleftrightarrow> (\<forall>h a v. \<exists>xs. K h (StoreFence a v) = Done xs)"

lemma holds_signal_create:
  assumes "os_contract K" and "stores_succeed K" and "0 \<le> kfd"
  shows "holds {#} {#} (signal_create K kfd pages v) (\<lambda>s. event_bag (sg_event s))"
  unfolding signal_create_def
proof (rule holds_try [OF holds_event_create [OF assms(1,3)]])
  fix ev
  have undo: "holds (event_bag ev) {#} (op_try (event_drop K ev) (\<lambda>_. op_fail e)) F" for e and F :: "signal \<Rightarrow> _"
    using holds_drop [OF drops_event holds_fail [OF refl], of "{#}" ev K] by simp
  have store: "holds (event_bag ev) {#} (op_try (sys K (StoreFence slot v)) (\<lambda>_. op_ret \<lparr>sg_event = ev, sg_fence = slot\<rparr>))
      (\<lambda>s. event_bag (sg_event s))" for slot
  proof (rule holdsI)
    fix B h e h' assume "op_try (sys K (StoreFence slot v)) (\<lambda>_. op_ret \<lparr>sg_event = ev, sg_fence = slot\<rparr>) h = (Inl e, h')"
    moreover have "\<exists>xs. K h (StoreFence slot v) = Done xs" using assms(2) by (simp add: stores_succeed_def)
    then obtain xs where "K h (StoreFence slot v) = Done xs" ..
    ultimately show "bag h' = B + {#}" by (simp add: op_eqs)
  next
    fix B h y h' assume "bag h = B + event_bag ev"
      and "op_try (sys K (StoreFence slot v)) (\<lambda>_. op_ret \<lparr>sg_event = ev, sg_fence = slot\<rparr>) h = (Inr y, h')"
    then show "bag h' = B + event_bag (sg_event y)" by (auto simp: op_eqs bag_def owned_snoc token_step_def)
  qed
  show "holds (event_bag ev) {#} (op_else (op_res (fence_slot pages (ev_slot_idx ev)))
       (\<lambda>e. op_try (event_drop K ev) (\<lambda>_. op_fail e))
       (\<lambda>slot. op_try (sys K (StoreFence slot v)) (\<lambda>_. op_ret \<lparr>sg_event = ev, sg_fence = slot\<rparr>))) (\<lambda>s. event_bag (sg_event s))"
    by (rule holds_else [OF neutral_holds [OF neutral_basic(3)] undo store]) (auto simp: survives_def op_res_def fence_slot_def fail_if_def fatal_def)
qed

lemma owns_stage:
  assumes "os_contract (lo_kernel ld)" and "stores_succeed (lo_kernel ld)" and "0 \<le> lo_kfd ld"
  shows "s_owns no_bag T T (stage_and_transfer ld img lo footprint dst staging) (\<lambda>_. T)"
proof -
  have sig: "s_owns no_bag T T (s_lift (signal_create (lo_kernel ld) (lo_kfd ld) (lo_pages ld) 2)) (\<lambda>s. T + event_bag (sg_event s))"
    by (rule owns_lift_gain [OF holds_signal_create [OF assms]])
  have send: "s_owns no_bag (T + event_bag (sg_event sig)) (T + event_bag (sg_event sig))
      (s_try (transfer_image ld dst (rg_addr staging) footprint sig) (\<lambda>_. s_ret staged)) (\<lambda>_. T + event_bag (sg_event sig))" for sig staged
    by (rule owns_try [OF owns_transfer owns_ret]) simp
  show ?thesis unfolding stage_and_transfer_def
    by (rule owns_try [OF owns_neutral [OF neutral_basic(3)]], rule owns_try [OF sig], rule owns_scope [OF send])
       (simp add: signal_drop_def drops_event)
qed

lemma owns_load:
  assumes "os_contract (lo_kernel ld)" and "stores_succeed (lo_kernel ld)" and "0 \<le> lo_kfd ld"
  shows "s_owns no_bag {#} {#} (executable_load ld obj) loaded_bag"
proof -
  let ?K = "lo_kernel ld"
  note C = os_contractD(1) [OF assms(1)]
  have region: "s_owns no_bag T T (s_lift (region_create ?K n p f)) (\<lambda>r. T + region_bag r)" for T n p f
    by (rule owns_lift_gain [OF holds_region_create [OF C]])
  have pin: "s_owns no_bag T T (s_lift (pin_mapped ?K (lo_page ld) (lo_dev ld) a n f)) (\<lambda>b. T + buffer_bag b)" for T a n f
    by (rule owns_lift_gain [OF holds_pin_mapped [OF assms(1)]])
  have image: "s_owns no_bag T T (s_lift (allocate_mapped ?K (lo_page ld) (lo_dev ld) n ty f)) (\<lambda>b. T + buffer_bag b)" for T n ty f
    by (rule owns_lift_gain [OF holds_allocate_mapped [OF assms(1)]])
  have staged: "s_owns no_bag T (T + region_bag staging) (s_scope (region_destroy ?K staging) (
           s_try (s_lift (pin_mapped ?K (lo_page ld) (lo_dev ld) (rg_addr staging) n f)) (\<lambda>pinned.
           s_scope (buffer_drop ?K pinned) (stage_and_transfer ld img lo n dst staging)))) (\<lambda>_. T)" for T staging n f img lo dst
    by (rule owns_scope [OF _ drops_region], rule owns_try [OF pin], rule owns_scope [OF owns_stage [OF assms] drops_buffer])
  show ?thesis unfolding executable_load_def Let_def
    apply (rule owns_try [OF region [of "{#}"]], simp only: add_0)
    apply (rule owns_on_error [OF _ s_drops_free [OF drops_region]], simp only: add_0)
    apply (rule owns_try [OF owns_neutral [OF neutral_basic(3)]])
    apply (simp only: split_paired_all prod.case)
    apply (rule owns_try [OF image])
    apply (rule owns_on_error [OF _ s_drops_free [OF drops_buffer]])
    apply (rule owns_try [OF region])
    apply (rule owns_try [OF staged])
    apply (rule owns_ret, simp add: loaded_bag_def)
    done
qed


section \<open>A load that succeeds\<close>

lemma s_scope_Inr:
  "s_scope d m s h = (Inr (Inr y, s'), h') \<longleftrightarrow> (\<exists>h1 u. m s h = (Inr (Inr y, s'), h1) \<and> d h1 = (Inr u, h'))"
  unfolding s_scope_def by (auto simp: op_try_eq op_ret_eq)

lemma load_run:
  assumes "executable_load ld obj s h = (Inr (Inr x, s'), h')"
  shows "\<exists>data h1 img lo hi footprint image h2 staging h3 h4 staged h5.
    region_create (lo_kernel ld) (of_nat (length obj)) PROT_RW CREATE_FLAGS h = (Inr data, h1) \<and>
    load_checks (lo_page ld) (lo_target ld) (rg_addr data) obj = Inr (img, lo, hi, footprint) \<and>
    allocate_mapped (lo_kernel ld) (lo_page ld) (lo_dev ld) footprint VRAM (MF_WRITABLE OR MF_EXECUTABLE) h1 = (Inr image, h2) \<and>
    region_create (lo_kernel ld) footprint PROT_RW CREATE_FLAGS h2 = (Inr staging, h3) \<and>
    stage_and_transfer ld img lo footprint (rg_addr (b_mapping image)) staging s h4 = (Inr (Inr staged, s'), h5) \<and>
    x = \<lparr>lx_data = data,
      lx_exec = \<lparr>ex_elf = img, ex_addr = rg_addr (b_mapping image), ex_size = b_len image, ex_base = lo\<rparr>,
      lx_image = image, lx_staging = staging, lx_staged = staged\<rparr>"
  using assms unfolding executable_load_def Let_def
  apply (simp only: s_Inr s_scope_Inr split_paired_Ex op_res_eq prod.case)
  apply (elim exE conjE)
  apply (intro exI conjI)
  apply (assumption | rule sym, assumption | simp)+
  done

lemma on_queue_Inr:
  "on_sdma f s h = (Inr (Inr u, s'), h') \<longleftrightarrow> (\<exists>q. f (lq_sdma s) = (Inr u, q) \<and> s' = s\<lparr>lq_sdma := q\<rparr> \<and> h' = h)"
  "on_compute g s h = (Inr (Inr u, s'), h') \<longleftrightarrow> (\<exists>q. g (lq_compute s) = (Inr u, q) \<and> s' = s\<lparr>lq_compute := q\<rparr> \<and> h' = h)"
  unfolding on_sdma_def on_compute_def
  by (auto simp: op_catch_eq op_eqs op_res_eq split: prod.splits if_splits)

lemma chunk_loop_gfx:
  "qb_gfx (snd (chunk_loop base_submit mk mx d s n q)) = qb_gfx q"
proof (induction "unat n" arbitrary: n d s q rule: less_induct)
  case less
  have step: "base_submit xs q = (r, q1) \<Longrightarrow> qb_gfx q1 = qb_gfx q" for xs r q1
    using base_submit_frame [of xs q] by simp
  show ?case
    by (subst chunk_loop.simps) (auto simp: Let_def chunk_smaller less step split: prod.splits sum.splits)
qed

lemma all_copy_blocks:
  fixes n :: u64
  assumes "disjoint_ranges dst src (unat n)"
  shows "fold (sdma_copy_effect gfx) (chunk_blocks copy_linear (ucast (max_copy_linear_bytes gfx)) dst src n) m =
    copy_bytes dst src (unat n) m"
proof -
  let ?mx = "ucast (max_copy_linear_bytes gfx) :: u64"
  let ?all = "chunk_blocks copy_linear ?mx dst src n"
  let ?k = "length ?all + unat n"
  have "fold (sdma_copy_effect gfx) (take ?k ?all) m = copy_bytes dst src (min (unat n) (?k * unat ?mx)) m"
    by (rule chunk_blocks_copy [OF _ max_copy_linear_u64 sdma_copy_block assms]) simp_all
  moreover have "1 \<le> unat ?mx" using max_copy_linear_u64 [of gfx] by (simp only: One_nat_def Suc_le_eq unat_gt_0 not_False_eq_True)
  then have "?k * 1 \<le> ?k * unat ?mx" by (rule mult_le_mono2)
  then have "unat n \<le> ?k * unat ?mx" by (rule order_trans [rotated]) simp
  then have "min (unat n) (?k * unat ?mx) = unat n" by (rule min_absorb1)
  ultimately show ?thesis by simp
qed

lemma submit_compute:
  fixes q :: compute_queue
  assumes "base_submit xs q = (Inr u, q')" and "pm4_block xs"
  shows "qb_sent q' = qb_sent q @ [xs]" and "qb_gfx q' = qb_gfx q"
    and "cq_eop_seq q' = cq_eop_seq q" and "cq_next_eop_seq q' = cq_next_eop_seq q"
proof -
  show "qb_sent q' = qb_sent q @ [xs]" using sink.submits [OF pm4_block_ok [OF assms(2)] assms(1)] by simp
  show "qb_gfx q' = qb_gfx q" "cq_eop_seq q' = cq_eop_seq q" "cq_next_eop_seq q' = cq_next_eop_seq q"
    using assms(1) by (auto simp: base_submit_def split: list.splits prod.splits option.splits sum.splits)
qed

text \<open>What the compute queue is told: wait for the copy, drop the caches, signal in turn.\<close>

definition load_barrier :: "compute_queue \<Rightarrow> signal \<Rightarrow> u32 list list" where
  "load_barrier c sig =
     [wait_reg_mem (qb_gfx c) (sg_fence sig) EQ 1 0xFFFFFFFF True, acquire_mem (qb_gfx c) ACQ_ALL,
      cq_signal_packets (qb_gfx c) (cq_eop_seq c) (cq_next_eop_seq c + 1) sig]"

lemma barrier_sent:
  assumes "cq_wait sig EQ 1 c = (Inr (), c1)" and "cq_acquire_mem ACQ_ALL c1 = (Inr (), c2)"
    and "cq_signal sig c2 = (Inr (), c3)"
  shows "qb_sent c3 = qb_sent c @ load_barrier c sig"
proof -
  note w = submit_compute [OF assms(1) [unfolded cq_wait_def] pm4_blocks(6)]
  note a = submit_compute [OF assms(2) [unfolded cq_acquire_mem_def] pm4_blocks(5)]
  note g = submit_compute [OF assms(3) [unfolded cq_signal_def Let_def] pm4_blocks(9)]
  show ?thesis using w a g by (simp add: load_barrier_def)
qed

text \<open>The commands a load sends: the copy and the signal behind it, then the barrier.\<close>

lemma transfer_sends:
  assumes "transfer_image ld dst src n sig s h = (Inr (Inr u, s'), h')" and "disjoint_ranges dst src (unat n)"
  shows "qb_sent (lq_compute s') = qb_sent (lq_compute s) @ load_barrier (lq_compute s) sig"
    and "\<exists>ps. qb_sent (lq_sdma s') = qb_sent (lq_sdma s) @ ps @ [sq_signal_packets (qb_gfx (lq_sdma s)) sig] \<and>
      (\<forall>m. fold (sdma_copy_effect (qb_gfx (lq_sdma s))) ps m = copy_bytes dst src (unat n) m)"
proof -
  let ?q = "lq_sdma s" and ?c = "lq_compute s"
  from assms(1) obtain q1 q2 c1 c2 c3 where c: "sq_copy_linear dst src n ?q = (Inr (), q1)"
    and g: "sq_signal sig q1 = (Inr (), q2)" and s': "lq_sdma s' = q2" "lq_compute s' = c3"
    and b: "cq_wait sig EQ 1 ?c = (Inr (), c1)" "cq_acquire_mem ACQ_ALL c1 = (Inr (), c2)" "cq_signal sig c2 = (Inr (), c3)"
    unfolding transfer_image_def by (auto simp: s_Inr on_queue_Inr)
  show "qb_sent (lq_compute s') = qb_sent ?c @ load_barrier ?c sig" using barrier_sent [OF b] s'(2) by simp
  define ps where "ps = chunk_blocks copy_linear (ucast (max_copy_linear_bytes (qb_gfx ?q)) :: u64) dst src n"
  have sent: "qb_sent q1 = qb_sent ?q @ ps"
    using sink.chunk_loop_sent [where mk = copy_linear, OF block_ok_builders(1) max_copy_linear_u64
        c [unfolded sq_copy_linear_def]] unfolding ps_def by fastforce
  have eff: "\<forall>m. fold (sdma_copy_effect (qb_gfx ?q)) ps m = copy_bytes dst src (unat n) m"
    using all_copy_blocks [OF assms(2)] by (simp add: ps_def)
  have "qb_sent q2 = qb_sent q1 @ [sq_signal_packets (qb_gfx q1) sig]"
    using sink.submits [OF sdma_block_ok [OF sdma_blocks(8)] g [unfolded sq_signal_def]] by simp
  moreover have "qb_gfx q1 = qb_gfx ?q" using chunk_loop_gfx [of copy_linear] c by (metis snd_conv sq_copy_linear_def)
  ultimately show "\<exists>ps. qb_sent (lq_sdma s') = qb_sent ?q @ ps @ [sq_signal_packets (qb_gfx ?q) sig] \<and>
      (\<forall>m. fold (sdma_copy_effect (qb_gfx ?q)) ps m = copy_bytes dst src (unat n) m)"
    using sent eff s'(1) by auto
qed

lemma reloc_loop_length:
  "reloc_loop lo footprint bias off n st = Inr st' \<Longrightarrow> length st' = length st"
  by (induction n arbitrary: off st)
     (fastforce simp: res_simps relocate_one_def Let_def dest: mem_write_length split: if_splits)+

lemma stage_length:
  assumes "stage_image img lo footprint a = Inr st"
  shows "length st = unat footprint"
proof -
  have reloc: "relocate_image img lo footprint bias phs st = Inr st' \<Longrightarrow> length st' = length st" for bias phs st st'
  proof (induction phs)
    case (Cons ph phs)
    have "apply_rela lo footprint bias p z st = Inr st' \<Longrightarrow> length st' = length st" for p z
      by (auto simp: apply_rela_def res_simps dest!: reloc_loop_length split: if_splits)
    then show ?case using Cons by (auto simp: res_simps case_prod_beta split: if_splits)
  qed simp
  from assms show ?thesis
    by (auto simp: stage_image_def res_simps dest!: reloc copy_segments_stores write_all_length)
qed


text \<open>Where the image and its staging memory lie.\<close>

lemma mapped_allocation:
  assumes "os_contract K" and "allocate_mapped K page d sz type flags h = (Inr b, h')"
  shows "rg_addr (b_mapping b) \<noteq> 0" and "rg_len (b_mapping b) = align_up sz page"
    and "unat (rg_addr (b_mapping b)) + unat (align_up sz page) \<le> 2 ^ 64"
proof -
  from assms(2) obtain b0 r where b0: "yields (buffer_allocate K page d sz type flags 0) b0"
    and m: "yields (buffer_map K b0 [md_gpu d]) (r, b)"
    by (fastforce simp: yields_def allocate_mapped_def op_try_eq op_res_eq op_ret_eq on_error_eq)
  from mapped_buffer [OF m] have b: "b_mapping b = b_mapping b0" "b_len b = b_len b0" by simp_all
  note a = allocated_buffer [OF assms(1) b0]
  have len: "b_len b = align_up sz page" using assms(2) by (intro allocate_mapped_len) (auto simp: yields_def)
  show "rg_addr (b_mapping b) \<noteq> 0" using a(2) b by simp
  show "rg_len (b_mapping b) = align_up sz page" using a(3) b len by simp
  then show "unat (rg_addr (b_mapping b)) + unat (align_up sz page) \<le> 2 ^ 64" using a(4) b by simp
qed

lemma regions_apart:
  assumes "bag h = B + region_bag r1 + region_bag r2" and "rg_addr r1 \<noteq> 0" and "rg_addr r2 \<noteq> 0"
  shows "region_bytes r1 \<inter> region_bytes r2 = {}"
proof (rule ccontr)
  assume "region_bytes r1 \<inter> region_bytes r2 \<noteq> {}"
  then obtain k where k: "k \<in> region_bytes r1" "k \<in> region_bytes r2" by blast
  have "count (region_bag r) (Byte k) = 1" if "rg_addr r \<noteq> 0" "k \<in> region_bytes r" for r
    using that by (simp add: region_bag_def region_bytes_def)
  then have "2 \<le> count (bag h) (Byte k)" using assms k by simp
  then show False by (simp add: bag_def count_mset_set' split: if_splits)
qed

lemma regions_disjoint:
  assumes "region_bytes r1 \<inter> region_bytes r2 = {}"
    and "unat (rg_addr r1) + unat (rg_len r1) \<le> 2 ^ 64" and "unat (rg_addr r2) + unat (rg_len r2) \<le> 2 ^ 64"
    and "n \<le> unat (rg_len r1)" and "n \<le> unat (rg_len r2)"
  shows "disjoint_ranges (rg_addr r1) (rg_addr r2) n"
  unfolding disjoint_ranges_def
proof (intro allI impI, rule ccontr)
  fix i assume i: "i < n" and "\<not> n \<le> unat (rg_addr r2 + of_nat i - rg_addr r1)"
  let ?j = "unat (rg_addr r2 + of_nat i - rg_addr r1)"
  have j: "?j < n" using \<open>\<not> n \<le> ?j\<close> by simp
  have off: "unat (a + of_nat k) = unat a + k" if "unat a + unat l \<le> 2 ^ 64" "k < n" "n \<le> unat l" for a l :: u64 and k
  proof -
    have "k < 2 ^ 64" using that unat64_less [of l] by linarith
    then have "unat (of_nat k :: u64) = k" by (simp add: unat_of_nat)
    with that show ?thesis by (subst unat_add_no_wrap) simp_all
  qed
  have "rg_addr r1 + of_nat ?j = rg_addr r2 + of_nat i" by simp
  then have "unat (rg_addr r1) + ?j = unat (rg_addr r2) + i"
    using off [OF assms(2) j assms(4)] off [OF assms(3) i assms(5)] by metis
  moreover have "unat (rg_addr r1) + ?j \<in> region_bytes r1" "unat (rg_addr r2) + i \<in> region_bytes r2"
    using i j assms(4,5) by (simp_all add: region_bytes_def)
  ultimately show False using assms(1) by auto
qed


lemma checked_footprint:
  "load_checks page d a obj = Inr (img, lo, hi, footprint) \<Longrightarrow> unat footprint < 2 ^ 32"
  by (auto simp: load_checks_def res_simps Let_def word_less_nat_alt not_less split: if_splits)

lemma load_places:
  assumes "os_contract K" and "0 < page" and "page \<le> 0x100000000" and "unat footprint < 2 ^ 32"
    and "region_create K n p f h = (Inr data, h1)"
    and "allocate_mapped K page d footprint ty fl h1 = (Inr bo, h2)"
    and "region_create K footprint p f h2 = (Inr staging, h3)"
  shows "disjoint_ranges (rg_addr (b_mapping bo)) (rg_addr staging) (unat footprint)"
proof -
  note C = os_contractD(1) [OF assms(1)]
  note im = mapped_allocation [OF assms(1,6)] and st = region_create_ok [OF C assms(7)]
  have b1: "bag h1 = bag h + region_bag data"
    using holdsD(1) [OF holds_region_create [OF C] _ assms(5), of "bag h"] by simp
  have b2: "bag h2 = bag h1 + buffer_bag bo"
    using holdsD(1) [OF holds_allocate_mapped [OF assms(1)] _ assms(6), of "bag h1"] by simp
  have b3: "bag h3 = bag h2 + region_bag staging"
    using holdsD(1) [OF holds_region_create [OF C] _ assms(7), of "bag h2"] by simp
  have apart: "region_bytes (b_mapping bo) \<inter> region_bytes staging = {}"
  proof (rule regions_apart)
    show "bag h3 = (bag h1 + (if b_handle bo = 0 then {#} else {#Obj (b_handle bo)#})) +
        region_bag (b_mapping bo) + region_bag staging"
      using b2 b3 by (simp add: buffer_bag_def ac_simps)
  qed (use im st in simp_all)
  have "unat footprint + unat page \<le> 2 ^ LENGTH(64)" using assms(3,4) by (simp add: word_le_nat_alt)
  then have ge: "unat footprint \<le> unat (align_up footprint page)" using assms(2) by (intro align_up_ge) auto
  obtain xs where "K h2 (Mmap 0 footprint p f (- 1) 0) = Done xs" "rg_addr staging = out_word xs 0"
    using assms(7) by (auto simp: region_create_def op_eqs)
  then have "unat (rg_addr staging) + unat footprint \<le> 2 ^ 64" using mmap_anywhere(2) [OF C] by simp
  then show ?thesis using regions_disjoint [OF apart] im(2,3) st ge by simp
qed

definition memory_holds :: "vram \<Rightarrow> u64 \<Rightarrow> bytes \<Rightarrow> bool" where
  "memory_holds m a bs \<longleftrightarrow> (\<forall>i<length bs. m (a + of_nat i) = bs ! i)"

lemma copy_holds:
  assumes "memory_holds m src bs" and "length bs \<le> n" and "length bs \<le> 2 ^ 64"
  shows "memory_holds (copy_bytes dst src n m) dst bs"
  unfolding memory_holds_def
proof (intro allI impI)
  fix i assume i: "i < length bs"
  have "unat (of_nat i :: u64) = i" using i assms(3) by (simp add: unat_of_nat)
  with i assms(1,2) show "copy_bytes dst src n m (dst + of_nat i) = bs ! i"
    by (simp add: copy_bytes_def memory_holds_def)
qed

section \<open>Kernel arguments\<close>

definition kernel_alloc :: "kernel \<Rightarrow> u64 \<Rightarrow> mem_dev \<Rightarrow> kernel_descriptor \<Rightarrow> buffer op" where
  "kernel_alloc K page d kd =
     allocate_mapped K page d (align_up (kernarg_alloc_size (kernarg_size kd)) page) GTT
       (MF_WRITABLE OR MF_COHERENT OR MF_HOST_ACCESS OR MF_UNCACHED)"

text \<open>A buffer that was allocated for a kernel has room for all that filling it writes.\<close>

lemma kernel_alloc_fits:
  assumes "0 < page" and "page \<le> 0x100000000" and "kernel_alloc K page d kd h = (Inr b, h')"
  shows "unat (kernarg_alloc_size (kernarg_size kd)) \<le> unat (b_len b)"
proof -
  let ?n = "kernarg_alloc_size (kernarg_size kd)"
  have n: "unat ?n \<le> 2 ^ 33 + 64"
    using round_up_less [of 64 "unat (kernarg_size kd)"] unat32_less [of "kernarg_size kd"]
    by (simp add: unat_kernarg_alloc_size)
  have p: "unat page \<le> 2 ^ 32" using assms(2) by (simp add: word_le_nat_alt)
  have "unat ?n + unat page \<le> 2 ^ LENGTH(64)" using n p by simp
  then have ge: "unat ?n \<le> unat (align_up ?n page)" using assms(1) by (intro align_up_ge) auto
  have "unat (align_up ?n page) \<le> unat (?n + page - 1)"
    by (simp add: align_up_def word_and_le2 flip: word_le_nat_alt)
  also have "unat (?n + page - 1) \<le> unat ?n + unat page"
  proof -
    have "unat (?n + page) = unat ?n + unat page" using n p by (subst unat_add_no_wrap) simp_all
    moreover have "?n + page \<noteq> 0" using calculation assms(1) by (auto simp: word_less_nat_alt)
    ultimately show ?thesis by (simp add: unat_minus_one)
  qed
  finally have "unat (align_up ?n page) + unat page \<le> 2 ^ LENGTH(64)" using n p by simp
  then have "unat (align_up ?n page) \<le> unat (align_up (align_up ?n page) page)" using assms(1) by (intro align_up_ge) auto
  moreover have "b_len b = align_up (align_up ?n page) page"
    using assms(3) unfolding kernel_alloc_def by (intro allocate_mapped_len) (auto simp: yields_def)
  ultimately show ?thesis using ge by simp
qed

lemma holds_kernel_alloc: "os_contract K \<Longrightarrow> holds {#} {#} (kernel_alloc K page d kd) buffer_bag"
  unfolding kernel_alloc_def by (rule holds_allocate_mapped)

section \<open>Property\<close>


definition demo_load :: load_setting where
  "demo_load = \<lparr>lo_kernel = fresh_kernel, lo_kfd = 3, lo_pages = \<lparr>event_page = 0x9000, fence_page = 0xA000\<rparr>,
     lo_page = 0x1000, lo_dev = \<lparr>md_gpu = 7, md_host_visible = True, md_render_fd = 5\<rparr>,
     lo_target = \<lparr>ld_gfx = 110000, ld_sramecc = False, ld_xnack = False\<rparr>, lo_polls = 4\<rparr>"

definition demo_rooms :: "(room_env \<times> room_env) list" where
  "demo_rooms = replicate 3 ((0, [(0, 0)]), (0, [(0, 0)]))"

definition demo_queues :: load_queues where
  "demo_queues = \<lparr>lq_sdma = demo_sdma\<lparr>qb_ring := \<lparr>q_type = SDMA, ring = replicate 64 0, pending_wptr = 0,
       write_ptr = 0, doorbell = 0\<rparr>, qb_room := demo_rooms\<rparr>,
     lq_compute = demo_cq\<lparr>qb_room := demo_rooms\<rparr>\<rparr>"

lemma demo_stage: "stage_image demo_image 0 4096 a = Inr (demo_image @ replicate 3696 0)"
proof -
  have "segment_data demo_image demo_phdr = Inr demo_image"
    by (simp add: segment_data_def demo_phdr_def outside_def mem_read_def)
  moreover have "mem_write (replicate 4096 0) 0 demo_image = Inr (demo_image @ replicate 3696 0)"
    by (simp add: mem_write_def)
  ultimately show ?thesis
    by (simp add: stage_image_def demo_phdrs demo_phdr_def PT_LOAD_def PT_DYNAMIC_def)
qed

text \<open>The run without the contents of the staging memory, which no call depends on.\<close>

definition demo_calls :: "(load_queues, buffer \<times> region) sop" where
  "demo_calls =
     (let ld = demo_load; K = fresh_kernel; fl = MF_WRITABLE OR MF_EXECUTABLE
      in s_try (s_lift (region_create K 400 PROT_RW CREATE_FLAGS)) (\<lambda>data.
         s_try (s_lift (allocate_mapped K 0x1000 (lo_dev ld) 4096 VRAM fl)) (\<lambda>im.
         s_try (s_lift (region_create K 4096 PROT_RW CREATE_FLAGS)) (\<lambda>staging.
         s_try (s_scope (region_destroy K staging) (
           s_try (s_lift (pin_mapped K 0x1000 (lo_dev ld) (rg_addr staging) 4096 fl)) (\<lambda>pinned.
           s_scope (buffer_drop K pinned) (
           s_try (s_lift (signal_create K 3 (lo_pages ld) 2)) (\<lambda>sig.
           s_scope (signal_drop K sig) (
           s_try (transfer_image ld (rg_addr (b_mapping im)) (rg_addr staging) 4096 sig) (\<lambda>_. s_ret ())))))))
         (\<lambda>_. s_when (rg_addr data \<noteq> 0x10000) UB (s_ret (im, staging)))))))"

lemma demo_calls_succeed: "\<exists>x s' h'. demo_calls demo_queues [] = (Inr (Inr x, s'), h')"
proof -
  have "case demo_calls demo_queues [] of (Inr (Inr x, s'), h) \<Rightarrow> True | _ \<Rightarrow> False" by code_simp
  then show ?thesis by (auto split: prod.splits sum.splits) (metis sum.exhaust surj_pair)
qed

lemma s_when_Inr: "s_when c e m s h = (Inr (Inr y, s'), h') \<longleftrightarrow> \<not> c \<and> m s h = (Inr (Inr y, s'), h')"
  by (simp add: s_when_def s_fail_def op_ret_eq)

lemma demo_load_succeeds:
  "\<exists>x s' h'. executable_load demo_load demo_image demo_queues [] = (Inr (Inr x, s'), h') \<and>
     lx_staged x = demo_image @ replicate 3696 0"
proof -
  obtain y s' h' where "demo_calls demo_queues [] = (Inr (Inr y, s'), h')" using demo_calls_succeed by blast
  then obtain data h1 im h2 staging h3 pinned h4 sig h5 h6 h7 h8 u v w where
    a: "rg_addr data = 0x10000" "region_create fresh_kernel 400 PROT_RW CREATE_FLAGS [] = (Inr data, h1)"
    "allocate_mapped fresh_kernel 0x1000 (lo_dev demo_load) 4096 VRAM (MF_WRITABLE OR MF_EXECUTABLE) h1 = (Inr im, h2)"
    "region_create fresh_kernel 4096 PROT_RW CREATE_FLAGS h2 = (Inr staging, h3)"
    "pin_mapped fresh_kernel 0x1000 (lo_dev demo_load) (rg_addr staging) 4096 (MF_WRITABLE OR MF_EXECUTABLE) h3 = (Inr pinned, h4)"
    "signal_create fresh_kernel 3 (lo_pages demo_load) 2 h4 = (Inr sig, h5)"
    "transfer_image demo_load (rg_addr (b_mapping im)) (rg_addr staging) 4096 sig demo_queues h5 = (Inr (Inr u, s'), h6)"
    "signal_drop fresh_kernel sig h6 = (Inr v, h7)"
    "buffer_drop fresh_kernel pinned h7 = (Inr w, h8)"
    "region_destroy fresh_kernel staging h8 = (Inr (), h')"
    unfolding demo_calls_def Let_def s_Inr s_scope_Inr s_when_Inr by auto
  have "elf_create 0x10000 demo_image = Inr demo_image" by code_simp
  note checks = demo_checks [OF this]
  have ld: "lo_kernel demo_load = fresh_kernel" "lo_page demo_load = 0x1000" "lo_kfd demo_load = 3"
    "lo_target demo_load = \<lparr>ld_gfx = 110000, ld_sramecc = False, ld_xnack = False\<rparr>" by (simp_all add: demo_load_def)
  show ?thesis
    by (simp add: executable_load_def stage_and_transfer_def s_defs s_scope_def op_try_def op_catch_def op_else_def
        op_ret_def op_res_def ld a checks demo_stage)
qed


end
