(* ===== verification/Box.thy ===== *)
theory Box
  imports Kfd_Prelude
begin

text \<open>
  \<^verbatim>\<open>detail/box.h\<close>: the owning pointer. The heap is a map from addresses to the objects alive there,
  a box is the pointer it holds, 0 for none, and the boxes of a program have names. The other
  theories take a box as the address of its object with its value; here a program may move its
  boxes as it likes, itself included, and nothing is freed twice or lost.
\<close>

section \<open>The operations of one box\<close>

type_synonym 'a box_heap = "u64 \<rightharpoonup> 'a"

text \<open>\<open>mem\<close> is the answer of \<^verbatim>\<open>std::aligned_alloc\<close>.\<close>

definition box_new :: "u64 \<Rightarrow> 'a \<Rightarrow> 'a box_heap \<Rightarrow> (u64 \<times> 'a box_heap) res" where
  "box_new mem x H = fail_if (mem = 0) ENOMEM (Inr (mem, H(mem \<mapsto> x)))"

text \<open>The destructor of an object that is not alive is undefined.\<close>

definition box_reset :: "u64 \<Rightarrow> 'a box_heap \<Rightarrow> (u64 \<times> 'a box_heap) res" where
  "box_reset p H = (if p \<noteq> 0 then fail_if (H p = None) UB (Inr (0, H(p := None))) else Inr (p, H))"

text \<open>The new box and what is left of the other.\<close>

definition box_move :: "u64 \<Rightarrow> u64 \<times> u64" where "box_move other = (other, 0)"

section \<open>Programs over boxes\<close>

record 'a box_state =
  live :: "'a box_heap"
  boxes :: "nat \<rightharpoonup> u64"

datatype 'a box_op =
    Box_create nat u64 'a
  | Box_default nat
  | Box_move nat nat
  | Box_assign nat nat
  | Box_destroy nat

definition put_box :: "nat \<Rightarrow> u64 \<Rightarrow> 'a box_state \<Rightarrow> 'a box_state" where
  "put_box i p st = st\<lparr>boxes := (boxes st)(i \<mapsto> p)\<rparr>"

text \<open>A create that fails returns its error, and there is no box.\<close>

fun box_step :: "'a box_op \<Rightarrow> 'a box_state \<Rightarrow> 'a box_state res" where
  "box_step (Box_create i mem x) st =
     (case box_new mem x (live st) of Inl _ \<Rightarrow> Inr st | Inr (p, H) \<Rightarrow> Inr (put_box i p (st\<lparr>live := H\<rparr>)))"
| "box_step (Box_default i) st = Inr (put_box i 0 st)"
| "box_step (Box_move i j) st =
     (case box_move (the (boxes st j)) of (this, other) \<Rightarrow> Inr (put_box i this (put_box j other st)))"
| "box_step (Box_assign i j) st =
     (if i = j then Inr st
      else kfd_try (box_reset (the (boxes st i)) (live st)) (\<lambda>(p, H).
           case box_move (the (boxes st j)) of (this, other) \<Rightarrow>
             Inr (put_box i this (put_box j other (st\<lparr>live := H\<rparr>)))))"
| "box_step (Box_destroy i) st =
     kfd_try (box_reset (the (boxes st i)) (live st)) (\<lambda>(p, H).
       Inr (st\<lparr>live := H, boxes := (boxes st)(i := None)\<rparr>))"

fun box_run :: "'a box_op list \<Rightarrow> 'a box_state \<Rightarrow> 'a box_state res" where
  "box_run [] st = Inr st"
| "box_run (a # as) st = kfd_try (box_step a st) (box_run as)"

text \<open>
  What the language asks of a program, that it names a new box or one in scope, and what the
  allocator promises, a block that is not in use.
\<close>

fun box_allowed :: "'a box_op \<Rightarrow> 'a box_state \<Rightarrow> bool" where
  "box_allowed (Box_create i mem x) st \<longleftrightarrow> boxes st i = None \<and> live st mem = None"
| "box_allowed (Box_default i) st \<longleftrightarrow> boxes st i = None"
| "box_allowed (Box_move i j) st \<longleftrightarrow> boxes st i = None \<and> boxes st j \<noteq> None"
| "box_allowed (Box_assign i j) st \<longleftrightarrow> boxes st i \<noteq> None \<and> boxes st j \<noteq> None"
| "box_allowed (Box_destroy i) st \<longleftrightarrow> boxes st i \<noteq> None"

fun run_allowed :: "'a box_op list \<Rightarrow> 'a box_state \<Rightarrow> bool" where
  "run_allowed [] st = True"
| "run_allowed (a # as) st \<longleftrightarrow> box_allowed a st \<and> (case box_step a st of Inl _ \<Rightarrow> True | Inr st' \<Rightarrow> run_allowed as st')"

definition no_boxes :: "'a box_state" where "no_boxes = \<lparr>live = Map.empty, boxes = Map.empty\<rparr>"

section \<open>Ownership\<close>

text \<open>The live blocks are the pointers of the boxes, and no two boxes share one.\<close>

definition box_ok :: "'a box_state \<Rightarrow> bool" where
  "box_ok st \<longleftrightarrow> (\<forall>i p. boxes st i = Some p \<longrightarrow> p \<noteq> 0 \<longrightarrow> live st p \<noteq> None) \<and>
     (\<forall>p. live st p \<noteq> None \<longrightarrow> p \<noteq> 0 \<and> (\<exists>i. boxes st i = Some p)) \<and>
     (\<forall>i j p. boxes st i = Some p \<longrightarrow> boxes st j = Some p \<longrightarrow> p \<noteq> 0 \<longrightarrow> i = j)"

lemma box_okI:
  assumes "\<And>i p. boxes st i = Some p \<Longrightarrow> p \<noteq> 0 \<Longrightarrow> live st p \<noteq> None"
    and "\<And>p. live st p \<noteq> None \<Longrightarrow> p \<noteq> 0 \<and> (\<exists>i. boxes st i = Some p)"
    and "\<And>i j p. boxes st i = Some p \<Longrightarrow> boxes st j = Some p \<Longrightarrow> p \<noteq> 0 \<Longrightarrow> i = j"
  shows "box_ok st"
  using assms unfolding box_ok_def by blast

lemma box_okD:
  assumes "box_ok st"
  shows "boxes st i = Some p \<Longrightarrow> p \<noteq> 0 \<Longrightarrow> live st p \<noteq> None"
    and "live st p \<noteq> None \<Longrightarrow> p \<noteq> 0" and "live st p \<noteq> None \<Longrightarrow> \<exists>i. boxes st i = Some p"
    and "boxes st i = Some p \<Longrightarrow> boxes st j = Some p \<Longrightarrow> p \<noteq> 0 \<Longrightarrow> i = j"
  using assms unfolding box_ok_def by blast+

lemma no_boxes_ok: "box_ok no_boxes"
  by (simp add: box_ok_def no_boxes_def)

lemma reset_ok:
  assumes "box_ok st" and "boxes st i = Some p"
  shows "box_reset p (live st) = Inr (0, (live st)(p := None))"
proof -
  have "live st 0 = None" using box_okD(2) [OF assms(1), of 0] by blast
  then have "(live st)(0 := None) = live st" by (simp add: fun_eq_iff)
  then show ?thesis using box_okD(1) [OF assms] by (cases "p = 0") (auto simp: box_reset_def fail_if_def)
qed

lemma move_ok:
  assumes "box_ok st" and "boxes st i = None \<or> boxes st i = Some 0" and "boxes st j = Some p" and "i \<noteq> j"
  shows "box_ok (put_box i p (put_box j 0 st))"
proof (rule box_okI)
  note ok = box_okD [OF assms(1)]
  fix k l q
  assume k: "boxes (put_box i p (put_box j 0 st)) k = Some q" "q \<noteq> 0"
  then have q: "k = i \<and> q = p \<or> k \<noteq> i \<and> k \<noteq> j \<and> boxes st k = Some q"
    by (auto simp: put_box_def split: if_splits)
  then show "live (put_box i p (put_box j 0 st)) q \<noteq> None" using ok(1) assms(3) k(2) by (auto simp: put_box_def)
  assume "boxes (put_box i p (put_box j 0 st)) l = Some q"
  then have "l = i \<and> q = p \<or> l \<noteq> i \<and> l \<noteq> j \<and> boxes st l = Some q"
    using k(2) by (auto simp: put_box_def split: if_splits)
  then show "k = l" using q ok(4) [OF _ _ k(2)] assms(3) by metis
next
  fix q assume "live (put_box i p (put_box j 0 st)) q \<noteq> None"
  then have l: "live st q \<noteq> None" by (simp add: put_box_def)
  from box_okD(3) [OF assms(1) l] obtain k where k: "boxes st k = Some q" ..
  have q0: "q \<noteq> 0" using box_okD(2) [OF assms(1) l] .
  then have "k \<noteq> i" using assms(2) k by auto
  then have "boxes (put_box i p (put_box j 0 st)) (if k = j then i else k) = Some q"
    using k assms(3,4) by (auto simp: put_box_def)
  then show "q \<noteq> 0 \<and> (\<exists>i'. boxes (put_box i p (put_box j 0 st)) i' = Some q)" using q0 by blast
qed

text \<open>A box that was reset but is still in scope, or has gone.\<close>

lemma emptied_ok:
  assumes "box_ok st" and "boxes st i = Some p" and "v = None \<or> v = Some 0"
  shows "box_ok (st\<lparr>live := (live st)(p := None), boxes := (boxes st)(i := v)\<rparr>)" (is "box_ok ?s")
proof (rule box_okI)
  note ok = box_okD [OF assms(1)]
  fix k l q assume k: "boxes ?s k = Some q" "q \<noteq> 0"
  then have q: "k \<noteq> i" "boxes st k = Some q" using assms(3) by (auto split: if_splits)
  then have "q \<noteq> p" using ok(4) [OF _ assms(2)] k(2) by blast
  then show "live ?s q \<noteq> None" using ok(1) [OF q(2) k(2)] by simp
  assume "boxes ?s l = Some q"
  then have "boxes st l = Some q" using assms(3) k(2) by (auto split: if_splits)
  then show "k = l" using ok(4) [OF q(2) _ k(2)] by simp
next
  note ok = box_okD [OF assms(1)]
  fix q assume "live ?s q \<noteq> None"
  then have q: "q \<noteq> p" "live st q \<noteq> None" by (auto split: if_splits)
  from ok(3) [OF q(2)] obtain k where k: "boxes st k = Some q" ..
  then have "k \<noteq> i" using assms(2) q(1) by auto
  then show "q \<noteq> 0 \<and> (\<exists>i'. boxes ?s i' = Some q)" using k ok(2) [OF q(2)] by auto
qed

lemma create_ok:
  assumes "box_ok st" and "boxes st i = None" and "live st p = None" and "p \<noteq> 0"
  shows "box_ok (put_box i p (st\<lparr>live := (live st)(p \<mapsto> x)\<rparr>))" (is "box_ok ?s")
proof (rule box_okI)
  note ok = box_okD [OF assms(1)]
  fix k l q assume k: "boxes ?s k = Some q" "q \<noteq> 0"
  then have q: "k = i \<and> q = p \<or> k \<noteq> i \<and> boxes st k = Some q \<and> q \<noteq> p"
    using ok(1) assms(3) by (fastforce simp: put_box_def split: if_splits)
  then show "live ?s q \<noteq> None" using ok(1) k(2) by (auto simp: put_box_def)
  assume "boxes ?s l = Some q"
  then show "k = l" using q ok(4) [OF _ _ k(2)] ok(1) [OF _ k(2)] assms(3) by (auto simp: put_box_def split: if_splits)
next
  note ok = box_okD [OF assms(1)]
  fix q assume "live ?s q \<noteq> None"
  then have "q = p \<or> live st q \<noteq> None" by (auto simp: put_box_def split: if_splits)
  then show "q \<noteq> 0 \<and> (\<exists>i'. boxes ?s i' = Some q)"
  proof
    assume "q = p" then show ?thesis using assms(4) by (auto simp: put_box_def)
  next
    assume l: "live st q \<noteq> None"
    from ok(3) [OF l] obtain k where k: "boxes st k = Some q" ..
    then have "k \<noteq> i" using assms(2) by auto
    then show ?thesis using k ok(2) [OF l] by (auto simp: put_box_def)
  qed
qed

lemma box_step_ok:
  assumes "box_ok st" and "box_allowed a st"
  shows "\<exists>st'. box_step a st = Inr st' \<and> box_ok st'"
proof (cases a)
  case (Box_create i mem x)
  then show ?thesis using assms create_ok [OF assms(1)]
    by (cases "mem = 0") (auto simp: box_new_def fail_if_def)
next
  case (Box_default i)
  have "box_ok (put_box i 0 st)" if fresh: "boxes st i = None"
  proof (rule box_okI)
    note ok = box_okD [OF assms(1)]
    fix k l q assume "boxes (put_box i 0 st) k = Some q" "q \<noteq> 0"
    then have k: "boxes st k = Some q" "q \<noteq> 0" by (auto simp: put_box_def split: if_splits)
    show "live (put_box i 0 st) q \<noteq> None" using ok(1) [OF k] by (simp add: put_box_def)
    assume "boxes (put_box i 0 st) l = Some q"
    then have "boxes st l = Some q" using k(2) by (auto simp: put_box_def split: if_splits)
    then show "k = l" using ok(4) k by blast
  next
    fix q assume "live (put_box i 0 st) q \<noteq> None"
    then have l: "live st q \<noteq> None" by (simp add: put_box_def)
    from box_okD(3) [OF assms(1) l] obtain k where k: "boxes st k = Some q" ..
    then have "boxes (put_box i 0 st) k = Some q" using fresh by (auto simp: put_box_def)
    then show "q \<noteq> 0 \<and> (\<exists>i'. boxes (put_box i 0 st) i' = Some q)" using box_okD(2) [OF assms(1) l] by blast
  qed
  then show ?thesis using Box_default assms(2) by simp
next
  case (Box_move i j)
  then show ?thesis using assms move_ok [OF assms(1)] by (cases "i = j") (auto simp: box_move_def)
next
  case (Box_assign i j)
  show ?thesis
  proof (cases "i = j")
    case False
    from Box_assign assms(2) obtain p q where b: "boxes st i = Some p" "boxes st j = Some q" by auto
    let ?s = "st\<lparr>live := (live st)(p := None), boxes := (boxes st)(i := Some 0)\<rparr>"
    have "box_ok ?s" by (rule emptied_ok [OF assms(1) b(1)]) simp
    then have "box_ok (put_box i q (put_box j 0 ?s))" by (rule move_ok) (use b False in auto)
    moreover have "put_box i q (put_box j 0 ?s) = put_box i q (put_box j 0 (st\<lparr>live := (live st)(p := None)\<rparr>))"
      by (simp add: put_box_def fun_upd_twist [OF False])
    ultimately show ?thesis using False b Box_assign by (simp add: reset_ok [OF assms(1) b(1)] box_move_def)
  qed (use Box_assign assms(1) in simp)
next
  case (Box_destroy i)
  then show ?thesis using assms emptied_ok [OF assms(1), of i _ None] reset_ok [OF assms(1), of i] by auto
qed

text \<open>
  C40. Whatever a program does with its boxes, no object is destroyed twice: every operation is
  defined. The objects alive at the end are exactly those some box points to, no two boxes share
  one, and once every box has gone out of scope nothing is left.
\<close>

theorem boxes_own_their_objects:
  assumes "run_allowed as no_boxes"
  shows "\<exists>st. box_run as no_boxes = Inr st \<and>
    (\<forall>p. live st p \<noteq> None \<longleftrightarrow> p \<noteq> 0 \<and> (\<exists>!i. boxes st i = Some p)) \<and>
    (\<forall>i j p. boxes st i = Some p \<and> boxes st j = Some p \<and> p \<noteq> 0 \<longrightarrow> i = j) \<and>
    (boxes st = Map.empty \<longrightarrow> live st = Map.empty)"
proof -
  have "run_allowed as st \<Longrightarrow> box_ok st \<Longrightarrow> \<exists>st'. box_run as st = Inr st' \<and> box_ok st'" for st :: "'a box_state"
  proof (induction as arbitrary: st)
    case (Cons a as)
    then obtain st1 where "box_step a st = Inr st1" "box_ok st1" using box_step_ok [of st a] by auto
    with Cons show ?case by simp
  qed simp
  from this [OF assms no_boxes_ok] obtain st where st: "box_run as no_boxes = Inr st" "box_ok st" by blast
  note ok = box_okD [OF st(2)]
  have "\<forall>p. live st p \<noteq> None \<longleftrightarrow> p \<noteq> 0 \<and> (\<exists>!i. boxes st i = Some p)"
  proof (intro allI iffI)
    fix p assume l: "live st p \<noteq> None"
    show "p \<noteq> 0 \<and> (\<exists>!i. boxes st i = Some p)" using ok(2,3) [OF l] ok(4) [of _ p] by blast
  next
    fix p assume "p \<noteq> 0 \<and> (\<exists>!i. boxes st i = Some p)"
    then show "live st p \<noteq> None" using ok(1) by blast
  qed
  moreover have "live st = Map.empty" if "boxes st = Map.empty"
    using ok(3) that by (fastforce simp: fun_eq_iff)
  moreover have "\<forall>i j p. boxes st i = Some p \<and> boxes st j = Some p \<and> p \<noteq> 0 \<longrightarrow> i = j" using ok(4) by blast
  ultimately show ?thesis using st(1) by auto
qed

definition demo_boxes :: "nat box_op list" where
  "demo_boxes = [Box_create 0 64 7, Box_create 1 128 8, Box_create 2 0 9, Box_default 2, Box_move 3 0,
     Box_assign 3 3, Box_assign 1 3, Box_assign 2 1, Box_destroy 0, Box_destroy 3]"

theorem boxes_own_their_objects_witness:
  "\<exists>st. box_run demo_boxes no_boxes = Inr st \<and> live st 64 = Some 7 \<and> live st 128 = None \<and> (\<exists>!i. boxes st i = Some 64)"
proof -
  have "run_allowed demo_boxes no_boxes"
    by (simp add: demo_boxes_def no_boxes_def box_new_def put_box_def box_reset_def box_move_def fail_if_def)
  from boxes_own_their_objects [OF this] obtain st where st: "box_run demo_boxes no_boxes = Inr st"
    "\<forall>p. live st p \<noteq> None \<longleftrightarrow> p \<noteq> 0 \<and> (\<exists>!i. boxes st i = Some p)" by blast
  moreover have "live st 64 = Some 7" "live st 128 = None"
    using st(1) by (auto simp: demo_boxes_def no_boxes_def box_new_def put_box_def box_reset_def box_move_def fail_if_def)
  ultimately show ?thesis by (metis option.simps(3))
qed

end
