(* ===== verification/Tool_Args.thy ===== *)
theory Tool_Args
  imports Loading Utility
begin

text \<open>
  \<^verbatim>\<open>tools/loader/main.cpp\<close>: the command line of the loader tool, and the argument and environment
  vectors it builds in memory of the device for the program it runs there.
\<close>

section \<open>The command line\<close>

record options =
  threads_x :: u32
  threads_y :: u32
  threads_z :: u32
  blocks_x :: u32
  blocks_y :: u32
  blocks_z :: u32
  file_idx :: nat

definition default_options :: options where
  "default_options = \<lparr>threads_x = 1, threads_y = 1, threads_z = 1, blocks_x = 1, blocks_y = 1, blocks_z = 1, file_idx = 0\<rparr>"

text \<open>\<^verbatim>\<open>std::strtoul\<close> to base ten: the value and the rest of the string.\<close>

definition is_blank :: "char \<Rightarrow> bool" where
  "is_blank c \<longleftrightarrow> c \<in> {CHR '' '', CHR 0x09, CHR 0x0A, CHR 0x0B, CHR 0x0C, CHR 0x0D}"

definition strip_sign :: "string \<Rightarrow> bool \<times> string" where
  "strip_sign s = (case s of [] \<Rightarrow> (False, []) | c # cs \<Rightarrow>
     if c = CHR ''-'' then (True, cs) else if c = CHR ''+'' then (False, cs) else (False, s))"

definition strtoul10 :: "string \<Rightarrow> u64 \<times> string" where
  "strtoul10 s =
     (case strip_sign (dropWhile is_blank s) of (neg, t) \<Rightarrow>
        let ds = takeWhile is_digit t; n = dec_value 0 ds
        in if ds = [] then (0, s)
           else (if n \<ge> 2 ^ 64 then - 1 else if neg then - of_nat n else of_nat n, dropWhile is_digit t))"

text \<open>A run that ends the process has its exit code on the left.\<close>

type_synonym 'a main = "nat + 'a"

text \<open>The value of a flag; \<open>rest\<close> is what follows the flag on the command line.\<close>

definition parse_uint :: "string list \<Rightarrow> u32 main" where
  "parse_uint rest =
     (case rest of
        [] \<Rightarrow> Inl 1
      | a # _ \<Rightarrow> (case strtoul10 a of (val, e) \<Rightarrow> if e \<noteq> [] \<or> val = 0 then Inl 1 else Inr (ucast val)))"

definition count_flag :: "string \<Rightarrow> (u32 \<Rightarrow> options \<Rightarrow> options) option" where
  "count_flag a =
     (if a = ''--threads-x'' \<or> a = ''--threads'' then Some (\<lambda>v o1. o1\<lparr>threads_x := v\<rparr>)
      else if a = ''--threads-y'' then Some (\<lambda>v o1. o1\<lparr>threads_y := v\<rparr>)
      else if a = ''--threads-z'' then Some (\<lambda>v o1. o1\<lparr>threads_z := v\<rparr>)
      else if a = ''--blocks-x'' \<or> a = ''--blocks'' then Some (\<lambda>v o1. o1\<lparr>blocks_x := v\<rparr>)
      else if a = ''--blocks-y'' then Some (\<lambda>v o1. o1\<lparr>blocks_y := v\<rparr>)
      else if a = ''--blocks-z'' then Some (\<lambda>v o1. o1\<lparr>blocks_z := v\<rparr>)
      else None)"

definition help_flag :: "string \<Rightarrow> bool" where
  "help_flag a \<longleftrightarrow> a = ''-h'' \<or> a = ''--help''"

text \<open>The loop at index \<open>i\<close>, on the arguments from there on; help exits with 0, no file with 1.\<close>

fun parse_loop :: "nat \<Rightarrow> string list \<Rightarrow> options \<Rightarrow> options main" where
  "parse_loop i [] opts = Inl 1"
| "parse_loop i (a # rest) opts =
     (if help_flag a then Inl 0
      else case count_flag a of
        None \<Rightarrow> Inr (opts\<lparr>file_idx := i\<rparr>)
      | Some upd \<Rightarrow>
          (case parse_uint rest of
             Inl e \<Rightarrow> Inl e
           | Inr v \<Rightarrow> parse_loop (i + 2) (tl rest) (upd v opts)))"

definition parse_args :: "string list \<Rightarrow> options main" where
  "parse_args argv = parse_loop 1 (tl argv) default_options"

lemma strtoul_show: "v < 2 ^ 64 \<Longrightarrow> strtoul10 (show_dec v) = (of_nat v, [])"
proof -
  assume v: "v < 2 ^ 64"
  have d: "\<forall>c\<in>set (show_dec v). is_digit c" by (rule show_dec_digits)
  obtain c cs where s: "show_dec v = c # cs" using show_dec_nonempty [of v] by (cases "show_dec v") auto
  with d have "is_digit c" by simp
  then have "\<not> is_blank c" "c \<noteq> CHR ''-''" "c \<noteq> CHR ''+''" by (auto simp: is_digit_def is_blank_def)
  then have "strip_sign (dropWhile is_blank (show_dec v)) = (False, show_dec v)" by (simp add: s strip_sign_def)
  then have e: "strip_sign (dropWhile is_blank (show_dec v)) = (False, show_dec v)" .
  have w: "takeWhile is_digit (show_dec v) = show_dec v" "dropWhile is_digit (show_dec v) = []"
    using d by (simp_all add: takeWhile_eq_all_conv dropWhile_eq_Nil_conv)
  show ?thesis unfolding strtoul10_def e prod.case Let_def w dec_value_show
    using v show_dec_nonempty [of v] by simp
qed

definition setting_args :: "(string \<times> nat) list \<Rightarrow> string list" where
  "setting_args ss = concat (map (\<lambda>(f, v). [f, show_dec v]) ss)"

definition apply_settings :: "(string \<times> nat) list \<Rightarrow> options \<Rightarrow> options" where
  "apply_settings ss opts = fold (\<lambda>(f, v). the (count_flag f) (of_nat v)) ss opts"

lemma flag_not_help: "count_flag f \<noteq> None \<Longrightarrow> \<not> help_flag f"
  by (auto simp: count_flag_def help_flag_def split: if_splits)

lemma parse_settings:
  assumes "\<forall>(f, v)\<in>set ss. count_flag f \<noteq> None \<and> 0 < v \<and> v < 2 ^ 32"
  shows "parse_loop i (setting_args ss @ rest) opts = parse_loop (i + 2 * length ss) rest (apply_settings ss opts)"
  using assms
proof (induction ss arbitrary: i opts)
  case (Cons s ss)
  obtain f v where s: "s = (f, v)" by (cases s)
  from Cons.prems s obtain upd where f: "count_flag f = Some upd" and v: "0 < v" "v < 2 ^ 32" by auto
  have "unat (of_nat v :: u64) = v" using v(2) by (simp add: unat_of_nat)
  then have "(of_nat v :: u64) \<noteq> 0" and u: "ucast (of_nat v :: u64) = (of_nat v :: u32)"
    using v by (auto simp: word_unat_eq_iff unat_ucast_mod unat_of_nat)
  then have "parse_uint (show_dec v # setting_args ss @ rest) = Inr (of_nat v)"
    using strtoul_show [of v] v u by (simp add: parse_uint_def)
  then show ?case
    using Cons.IH Cons.prems f flag_not_help [of f] by (simp add: s setting_args_def apply_settings_def)
qed (simp add: setting_args_def apply_settings_def)


text \<open>The value is cut to 32 bits after the check that it is not zero.\<close>

lemma huge_count_becomes_zero: "parse_uint [show_dec (2 ^ 32)] = Inr 0"
proof -
  have "(ucast (0x100000000 :: u64) :: u32) = 0" by code_simp
  then show ?thesis using strtoul_show [of "2 ^ 32"] by (simp add: parse_uint_def)
qed

text \<open>
  C0. The command line of the loader. Settings printed as flags with positive 32-bit numbers are
  taken over in order, and the first argument that is no flag is the file; the arguments from
  there on are the program's. Without a file the program ends with code 1.
\<close>

theorem options_round_trip:
  assumes "\<forall>(f, v)\<in>set ss. count_flag f \<noteq> None \<and> 0 < v \<and> v < 2 ^ 32"
    and "count_flag file = None" and "\<not> help_flag file"
  shows "parse_args (prog # setting_args ss @ file # args) =
      Inr ((apply_settings ss default_options)\<lparr>file_idx := 1 + 2 * length ss\<rparr>) \<and>
    drop (1 + 2 * length ss) (prog # setting_args ss @ file # args) = file # args \<and>
    parse_args (prog # setting_args ss) = Inl 1"
proof -
  have "length (setting_args ss) = 2 * length ss"
    by (induction ss) (auto simp: setting_args_def)
  then show ?thesis
    using parse_settings [OF assms(1), of 1 "file # args"] parse_settings [OF assms(1), of 1 "[]"] assms(2,3)
    by (simp add: parse_args_def)
qed

theorem options_round_trip_witness:
  "parse_args [''gpu-loader'', ''--threads'', ''64'', ''--blocks-y'', ''8'', ''image'', ''--blocks'', ''2''] =
    Inr (default_options\<lparr>threads_x := 64, blocks_y := 8, file_idx := 5\<rparr>)"
proof -
  have "show_dec 64 = ''64''" "show_dec 8 = ''8''" by code_simp+
  then show ?thesis
    using options_round_trip [of "[(''--threads'', 64), (''--blocks-y'', 8)]" "''image''" "''gpu-loader''" "[''--blocks'', ''2'']"]
    by (simp add: count_flag_def help_flag_def setting_args_def apply_settings_def default_options_def)
qed

section \<open>Argument vectors\<close>

text \<open>
  \<^verbatim>\<open>copy_arg_vector\<close>: the size of the buffer, and the loop that fills it. The buffer is mapped at
  \<open>base\<close>; string \<open>i\<close> goes to offset \<open>str\<close> and its address to slot \<open>i\<close>.
\<close>

definition arg_vector_size :: "bytes list \<Rightarrow> u64" where
  "arg_vector_size args = 8 * (of_nat (length args) + 1) + sum_list (map (\<lambda>a. of_nat (length a + 1)) args)"

fun copy_args :: "u64 \<Rightarrow> nat \<Rightarrow> nat \<Rightarrow> bytes list \<Rightarrow> bytes \<Rightarrow> bytes res" where
  "copy_args base i str [] buf = Inr buf"
| "copy_args base i str (a # as) buf =
     kfd_try (mem_write buf str (a @ [0])) (\<lambda>b.
     kfd_try (mem_write b (8 * i) (le_bytes 8 (base + of_nat str))) (\<lambda>b'.
     copy_args base (Suc i) (str + length a + 1) as b'))"

definition copy_arg_vector :: "u64 \<Rightarrow> bytes list \<Rightarrow> bytes \<Rightarrow> bytes res" where
  "copy_arg_vector base args buf =
     kfd_try (copy_args base 0 (8 * (length args + 1)) args buf) (\<lambda>b.
     mem_write b (8 * length args) (le_bytes 8 (0 :: u64)))"

text \<open>What a program on the device reads: slot \<open>i\<close>, and the string at an address.\<close>

definition arg_slot :: "bytes \<Rightarrow> nat \<Rightarrow> u64" where
  "arg_slot buf i = le_word (peek buf (8 * i) 8)"

definition string_at :: "u64 \<Rightarrow> bytes \<Rightarrow> u64 \<Rightarrow> bytes" where
  "string_at base buf p = takeWhile (\<lambda>c. c \<noteq> 0) (drop (unat (p - base)) buf)"

text \<open>The stores of the loop.\<close>

fun arg_stores :: "u64 \<Rightarrow> nat \<Rightarrow> nat \<Rightarrow> bytes list \<Rightarrow> (nat \<times> bytes) list" where
  "arg_stores base i str [] = []"
| "arg_stores base i str (a # as) =
     (str, a @ [0]) # (8 * i, le_bytes 8 (base + of_nat str)) # arg_stores base (Suc i) (str + length a + 1) as"

lemma copy_args_stores: "copy_args base i str as buf = write_all buf (arg_stores base i str as)"
  by (induction as arbitrary: i str buf) (simp_all add: kfd_try_def split: sum.splits)

lemma copy_arg_vector_stores:
  "copy_arg_vector base args buf =
     write_all buf (arg_stores base 0 (8 * (length args + 1)) args @ [(8 * length args, le_bytes 8 (0 :: u64))])"
  by (simp add: copy_arg_vector_def copy_args_stores write_all_append kfd_try_def split: sum.splits)

definition str_offset :: "nat \<Rightarrow> bytes list \<Rightarrow> nat \<Rightarrow> nat" where
  "str_offset str as k = str + sum_list (map (\<lambda>a. length a + 1) (take k as))"

lemma arg_stores_range:
  "w \<in> set (arg_stores base i str as) \<Longrightarrow>
     (8 * i \<le> fst w \<and> fst w + length (snd w) \<le> 8 * (i + length as)) \<or>
     (str \<le> fst w \<and> fst w + length (snd w) \<le> str_offset str as (length as))"
  by (induction as arbitrary: i str) (fastforce simp: str_offset_def)+

lemma arg_stores_apart:
  "8 * (i + length as) \<le> str \<Longrightarrow> sorted_wrt apart (arg_stores base i str as)"
proof (induction as arbitrary: i str)
  case (Cons a as)
  have rest: "(8 * Suc i \<le> fst w \<and> fst w + length (snd w) \<le> str) \<or> str + length a + 1 \<le> fst w"
    if "w \<in> set (arg_stores base (Suc i) (str + length a + 1) as)" for w
    using arg_stores_range [OF that] Cons.prems by auto
  have "\<forall>w\<in>set (arg_stores base (Suc i) (str + length a + 1) as).
      apart (str, a @ [0]) w \<and> apart (8 * i, le_bytes 8 (base + of_nat str)) w"
    using rest Cons.prems by (fastforce simp: apart_def)
  moreover have "apart (str, a @ [0]) (8 * i, le_bytes 8 (base + of_nat str))"
    using Cons.prems by (simp add: apart_def)
  ultimately show ?case using Cons by simp
qed simp

lemma arg_stores_mem:
  "k < length as \<Longrightarrow> (str_offset str as k, as ! k @ [0]) \<in> set (arg_stores base i str as) \<and>
     (8 * (i + k), le_bytes 8 (base + of_nat (str_offset str as k))) \<in> set (arg_stores base i str as)"
proof (induction as arbitrary: i str k)
  case (Cons a as)
  show ?case
  proof (cases k)
    case (Suc j)
    have "str_offset str (a # as) k = str_offset (str + length a + 1) as j" by (simp add: str_offset_def Suc)
    then show ?thesis using Cons.IH [of j "str + length a + 1" "Suc i"] Cons.prems Suc by simp
  qed (simp add: str_offset_def)
qed simp

lemma unat_arg_vector_size:
  assumes "8 * (length args + 1) + sum_list (map (\<lambda>a. length a + 1) args) < 2 ^ 64"
  shows "unat (arg_vector_size args) = 8 * (length args + 1) + sum_list (map (\<lambda>a. length a + 1) args)"
proof -
  have "sum_list (map (\<lambda>a. of_nat (length a + 1)) as) = (of_nat (sum_list (map (\<lambda>a. length a + 1) as)) :: u64)" for as :: "bytes list"
    by (induction as) simp_all
  then have "arg_vector_size args = of_nat (8 * (length args + 1) + sum_list (map (\<lambda>a. length a + 1) args))"
    by (simp add: arg_vector_size_def)
  moreover have "unat (of_nat m :: u64) = m" if "m < 2 ^ 64" for m using that by (simp add: unat_of_nat)
  ultimately show ?thesis using assms by (simp only:)
qed

lemma arg_vector_reads_back:
  assumes "\<forall>a\<in>set args. 0 \<notin> set a"
    and "8 * (length args + 1) + sum_list (map (\<lambda>a. length a + 1) args) \<le> length buf"
    and "base \<noteq> 0" and "unat base + length buf \<le> 2 ^ 64"
  shows "\<exists>buf'. copy_arg_vector base args buf = Inr buf' \<and> length buf' = length buf \<and>
    (\<forall>k<length args. arg_slot buf' k \<noteq> 0 \<and> string_at base buf' (arg_slot buf' k) = args ! k) \<and>
    arg_slot buf' (length args) = 0"
proof -
  let ?n = "length args" and ?s = "8 * (length args + 1)"
  let ?ws = "arg_stores base 0 ?s args @ [(8 * ?n, le_bytes 8 (0 :: u64))]"
  have all: "str_offset ?s args ?n \<le> length buf" using assms(2) by (simp add: str_offset_def)
  have range: "(fst w + length (snd w) \<le> 8 * ?n) \<or> (?s \<le> fst w \<and> fst w + length (snd w) \<le> length buf)"
    if "w \<in> set (arg_stores base 0 ?s args)" for w
    using arg_stores_range [OF that] all by auto
  have "\<forall>w\<in>set ?ws. fst w + length (snd w) \<le> length buf" using range assms(2) by fastforce
  then obtain buf' where w: "write_all buf ?ws = Inr buf'" using write_all_defined by blast
  have ap: "sorted_wrt apart ?ws"
    using arg_stores_apart [of 0 args ?s base] range by (fastforce simp: sorted_wrt_append apart_def)
  note stored = write_all_apart [OF w ap] and len = write_all_length [OF w]
  have null: "arg_slot buf' ?n = 0" using stored [of "8 * ?n" "le_bytes 8 (0 :: u64)"] by (simp add: arg_slot_def)
  have slot: "arg_slot buf' k \<noteq> 0 \<and> string_at base buf' (arg_slot buf' k) = args ! k" if k: "k < ?n" for k
  proof -
    let ?o = "str_offset ?s args k"
    note mem = arg_stores_mem [OF k, of ?s base 0]
    have str: "peek buf' ?o (length (args ! k) + 1) = args ! k @ [0]" using stored [of ?o "args ! k @ [0]"] mem by simp
    have p: "arg_slot buf' k = base + of_nat ?o"
      using stored [of "8 * k" "le_bytes 8 (base + of_nat ?o)"] mem by (simp add: arg_slot_def)
    have fits: "?o + (length (args ! k) + 1) \<le> length buf" using range [OF conjunct1 [OF mem]] k by (auto simp: str_offset_def)
    then have "?o < 2 ^ 64" using assms(4) by linarith
    then have o: "unat (of_nat ?o :: u64) = ?o" by (simp add: unat_of_nat)
    have "unat (base + of_nat ?o) = unat base + ?o" using fits assms(4) o by (subst unat_add_no_wrap) simp_all
    then have nz: "arg_slot buf' k \<noteq> 0" using assms(3) by (auto simp: p unat_eq_0 [symmetric])
    have "drop ?o buf' = (args ! k @ [0]) @ drop (length (args ! k) + 1) (drop ?o buf')"
      using str unfolding peek_def by (metis append_take_drop_id)
    moreover have "takeWhile (\<lambda>c. c \<noteq> 0) ((args ! k @ [0]) @ zs) = args ! k" for zs
      using assms(1) k by (simp add: takeWhile_tail) (metis (mono_tags, lifting) nth_mem takeWhile_eq_all_conv)
    ultimately have "takeWhile (\<lambda>c. c \<noteq> 0) (drop ?o buf') = args ! k" by metis
    then show ?thesis using nz o by (simp add: string_at_def p)
  qed
  show ?thesis using w len null slot by (auto simp: copy_arg_vector_stores)
qed


text \<open>The buffer with its contents; \<open>mem\<close> is what the fresh pages hold.\<close>

definition arg_buffer :: "kernel \<Rightarrow> u64 \<Rightarrow> mem_dev \<Rightarrow> (nat \<Rightarrow> u8) \<Rightarrow> bytes list \<Rightarrow> (buffer \<times> bytes) op" where
  "arg_buffer K page d mem args =
     op_try (allocate_mapped K page d (arg_vector_size args) GTT MF_WRITABLE) (\<lambda>b.
     op_try (op_res (copy_arg_vector (rg_addr (b_mapping b)) args (map mem [0..<unat (b_len b)]))) (\<lambda>bs.
     op_ret (b, bs)))"

text \<open>
  C39. The argument vector handed to the program on the device. Once its buffer is allocated, no
  store leaves it. Slot by slot the program then finds, behind the address stored there, exactly
  the string it was given, and a null pointer after the last.
\<close>

theorem arg_vector_round_trip:
  assumes "os_contract K" and "0 < page" and "\<forall>a\<in>set args. 0 \<notin> set a"
    and "8 * (length args + 1) + sum_list (map (\<lambda>a. length a + 1) args) + unat page < 2 ^ 64"
    and "allocate_mapped K page d (arg_vector_size args) GTT MF_WRITABLE h = (Inr b, h')"
  shows "\<exists>bs. arg_buffer K page d mem args h = (Inr (b, bs), h') \<and> length bs = unat (b_len b) \<and>
    (\<forall>k<length args. arg_slot bs k \<noteq> 0 \<and> string_at (rg_addr (b_mapping b)) bs (arg_slot bs k) = args ! k) \<and>
    arg_slot bs (length args) = 0"
proof -
  let ?n = "8 * (length args + 1) + sum_list (map (\<lambda>a. length a + 1) args)" and ?buf = "map mem [0..<unat (b_len b)]"
  note al = mapped_allocation [OF assms(1,5)]
  have len: "b_len b = align_up (arg_vector_size args) page" using assms(5) by (intro allocate_mapped_len) (auto simp: yields_def)
  have sz: "unat (arg_vector_size args) = ?n" using assms(4) by (intro unat_arg_vector_size) linarith
  then have "unat (arg_vector_size args) + unat page \<le> 2 ^ LENGTH(64)" using assms(4) by simp
  then have "?n \<le> length ?buf" using align_up_ge [of page "arg_vector_size args"] assms(2) sz len by simp
  moreover have "unat (rg_addr (b_mapping b)) + length ?buf \<le> 2 ^ 64" using al(3) len by simp
  ultimately show ?thesis
    using arg_vector_reads_back [OF assms(3), of ?buf "rg_addr (b_mapping b)"] al(1) assms(5)
    by (auto simp: arg_buffer_def op_try_def op_res_def op_ret_def)
qed

theorem arg_vector_round_trip_witness:
  "\<exists>b bs h'. arg_buffer fresh_kernel 0x1000 \<lparr>md_gpu = 7, md_host_visible = True, md_render_fd = 5\<rparr> (\<lambda>i. 7) [[0x61, 0x62], []] []
      = (Inr (b, bs), h') \<and> string_at (rg_addr (b_mapping b)) bs (arg_slot bs 0) = [0x61, 0x62] \<and> arg_slot bs (Suc (Suc 0)) = 0"
proof -
  let ?run = "allocate_mapped fresh_kernel 0x1000 \<lparr>md_gpu = 7, md_host_visible = True, md_render_fd = 5\<rparr>
      (arg_vector_size [[0x61, 0x62], []]) GTT MF_WRITABLE []"
  have "case fst ?run of Inl _ \<Rightarrow> False | Inr b \<Rightarrow> True" by code_simp
  then obtain b h' where run: "?run = (Inr b, h')" by (cases ?run) (auto split: sum.splits)
  have "\<forall>a\<in>set [[0x61, 0x62], [] :: bytes]. 0 \<notin> set a" by simp
  from arg_vector_round_trip [OF fresh_kernel_contract _ this _ run, of "\<lambda>i. 7"]
  obtain bs where "arg_buffer fresh_kernel 0x1000 \<lparr>md_gpu = 7, md_host_visible = True, md_render_fd = 5\<rparr> (\<lambda>i. 7) [[0x61, 0x62], []] []
      = (Inr (b, bs), h')" "\<forall>k<Suc (Suc 0). arg_slot bs k \<noteq> 0 \<and> string_at (rg_addr (b_mapping b)) bs (arg_slot bs k) = [[0x61, 0x62], []] ! k"
    "arg_slot bs (Suc (Suc 0)) = 0" by auto
  moreover from this(2) have "string_at (rg_addr (b_mapping b)) bs (arg_slot bs 0) = [0x61, 0x62]" by force
  ultimately show ?thesis by blast
qed

end
