(* ===== verification/Tool_Rpc.thy ===== *)
theory Tool_Rpc
  imports Loading
begin

text \<open>
  The server thread of \<^verbatim>\<open>tools/loader/main.cpp\<close>: the memory it allocates for the program on the device
  and releases again. A request it hands on to the remote-procedure library is not part of the model.
\<close>

section \<open>Memory for the device\<close>

text \<open>
  The two requests of \<^verbatim>\<open>rpc_server\<close> that the tool serves itself. \<open>allocs\<close> is the map from addresses to
  the buffers handed out.
\<close>

definition RPC_ALLOC_ALIGN :: u64 where "RPC_ALLOC_ALIGN = 2 * 1024 * 1024"

type_synonym rpc_allocs = "(u64 \<times> buffer) list"

text \<open>\<^verbatim>\<open>munmap\<close> with its result ignored.\<close>

definition munmap_ignored :: "kernel \<Rightarrow> u64 \<Rightarrow> u64 \<Rightarrow> unit op" where
  "munmap_ignored K a l = op_else (sys K (Munmap a l)) (\<lambda>_. op_ret ()) (\<lambda>_. op_ret ())"

text \<open>A buffer that does not get into the map is destroyed.\<close>

definition rpc_malloc :: "kernel \<Rightarrow> u64 \<Rightarrow> mem_dev \<Rightarrow> u64 \<Rightarrow> rpc_allocs \<Rightarrow> (u64 \<times> rpc_allocs) op" where
  "rpc_malloc K page d n allocs =
     (let sz = align_up n RPC_ALLOC_ALIGN
      in op_catch (region_reserve_aligned K sz RPC_ALLOC_ALIGN) (\<lambda>_. op_ret (0, allocs)) (\<lambda>region.
         let addr = rg_addr region
         in op_catch (buffer_allocate K page d sz VRAM MF_WRITABLE addr)
              (\<lambda>_. op_try (munmap_ignored K addr sz) (\<lambda>_. op_ret (0, allocs)))
              (\<lambda>buf. op_try (buffer_map K buf [md_gpu d]) (\<lambda>(r, buf').
                 case r of
                   Inl e \<Rightarrow> op_try (munmap_ignored K addr sz) (\<lambda>_. op_try (buffer_drop K buf') (\<lambda>_. op_ret (0, allocs)))
                 | Inr _ \<Rightarrow>
                     let ptr = rg_addr (b_mapping buf')
                     in if map_of allocs ptr \<noteq> None then op_try (buffer_drop K buf') (\<lambda>_. op_ret (ptr, allocs))
                        else op_ret (ptr, (ptr, buf') # allocs)))))"

definition rpc_free :: "kernel \<Rightarrow> u64 \<Rightarrow> rpc_allocs \<Rightarrow> rpc_allocs op" where
  "rpc_free K key allocs =
     (case map_of allocs key of
        None \<Rightarrow> op_ret allocs
      | Some b \<Rightarrow> op_try (buffer_drop K b) (\<lambda>_. op_ret (filter (\<lambda>kb. fst kb \<noteq> key) allocs)))"

datatype rpc_request = Rpc_malloc u64 | Rpc_free u64

text \<open>The answers to the allocations, in order, and the map at the end.\<close>

fun rpc_serve :: "kernel \<Rightarrow> u64 \<Rightarrow> mem_dev \<Rightarrow> rpc_request list \<Rightarrow> rpc_allocs \<Rightarrow> (u64 list \<times> rpc_allocs) op" where
  "rpc_serve K page d [] allocs = op_ret ([], allocs)"
| "rpc_serve K page d (Rpc_malloc n # rs) allocs =
     op_try (rpc_malloc K page d n allocs) (\<lambda>(a, allocs').
     op_try (rpc_serve K page d rs allocs') (\<lambda>(as, allocs''). op_ret (a # as, allocs'')))"
| "rpc_serve K page d (Rpc_free p # rs) allocs =
     op_try (rpc_free K p allocs) (\<lambda>allocs'. rpc_serve K page d rs allocs')"

text \<open>The thread ends and its map with it.\<close>

fun rpc_allocs_drop :: "kernel \<Rightarrow> rpc_allocs \<Rightarrow> unit op" where
  "rpc_allocs_drop K [] = op_ret ()"
| "rpc_allocs_drop K ((p, b) # allocs) = op_try (buffer_drop K b) (\<lambda>_. rpc_allocs_drop K allocs)"

subsection \<open>Ownership\<close>

text \<open>Unmapping whole pages of the own address space does not fail.\<close>

definition unmaps_succeed :: "kernel \<Rightarrow> bool" where
  "unmaps_succeed K \<longleftrightarrow> (\<forall>h a l. \<exists>xs. K h (Munmap a l) = Done xs)"

definition allocs_bag :: "rpc_allocs \<Rightarrow> token multiset" where
  "allocs_bag allocs = sum_list (map (buffer_bag \<circ> snd) allocs)"

abbreviation region_tokens :: "region \<Rightarrow> token set" where
  "region_tokens r \<equiv> Byte ` region_bytes r"

lemma munmap_ignored_owned:
  assumes "unmaps_succeed K" and "munmap_ignored K a l h = (x, h')"
  shows "x = Inr () \<and> owned h' = owned h - Byte ` {unat a..<unat a + unat l}"
proof -
  have "\<exists>xs. K h (Munmap a l) = Done xs" using assms(1) by (simp add: unmaps_succeed_def)
  then obtain xs where "K h (Munmap a l) = Done xs" ..
  then show ?thesis using assms(2) by (auto simp: munmap_ignored_def op_eqs op_simps)
qed

lemma buffer_drop_owned:
  assumes "buffer_drop K b h = (Inr u, h')" and "b_handle b \<noteq> 0" and "rg_addr (b_mapping b) \<noteq> 0"
  shows "owned h' = owned h - {Obj (b_handle b)} - region_tokens (b_mapping b)"
  using assms by (auto simp: buffer_drop_def buffer_destroy_def region_destroy_def op_eqs op_simps Let_def region_bytes_def
      token_step_inert simp del: append_assoc split: if_splits)

text \<open>An allocation in a range the caller has reserved.\<close>

lemma allocate_at:
  assumes "os_contract K" and "rg_addr r \<noteq> 0" and "align_up (rg_len r) page = rg_len r"
    and "region_tokens r \<subseteq> owned h"
    and run: "buffer_allocate K page d (rg_len r) VRAM MF_WRITABLE (rg_addr r) h = (x, h')"
  shows "case x of
     Inl e \<Rightarrow> fatal e \<or> owned h' - region_tokens r = owned h - region_tokens r
   | Inr b \<Rightarrow> b_mapping b = r \<and> b_handle b \<noteq> 0 \<and> Obj (b_handle b) \<notin> owned h \<and> owned h' = insert (Obj (b_handle b)) (owned h)"
proof -
  let ?sz = "rg_len r" and ?X = "region_tokens r"
  note C = os_contractD [OF assms(1)]
  have reserve: "owned h1 = owned h \<and> r1 = r" if "region_reserve K ?sz (rg_addr r) h = (Inr r1, h1)" for r1 h1
  proof -
    from that assms(2) obtain f xs where x: "K h (Mmap (rg_addr r) ?sz PROT_NONE f (- 1) 0) = Done xs"
      "r1 = \<lparr>rg_addr = out_word xs 0, rg_len = ?sz\<rparr>" "h1 = h @ [(Mmap (rg_addr r) ?sz PROT_NONE f (- 1) 0, Done xs)]"
      by (auto simp: region_reserve_def op_eqs Let_def)
    have "out_word xs 0 = rg_addr r" using mmap_fixed [OF C(1) assms(2) x(1)] .
    then show ?thesis using x(2,3) assms(4) by (cases r) (auto simp: op_simps region_bytes_def)
  qed
  have failed: "owned h1 = owned h" if "region_reserve K ?sz (rg_addr r) h = (Inl e, h1)" for e h1
    using that by (auto simp: region_reserve_def op_eqs Let_def op_simps token_step_failed)
  have destroy: "(case y of Inl e' \<Rightarrow> fatal e' \<or> e' = e \<and> owned h2 = owned h1 - ?X | Inr _ \<Rightarrow> False)"
    if "op_try (region_destroy K r) (\<lambda>_. op_fail e) h1 = (y, h2)" for e h1 h2 and y :: "buffer res"
    using that assms(2) by (auto simp: region_destroy_def op_eqs op_simps region_bytes_def fatal_def)
  have flags: "MF_WRITABLE AND MF_HOST_ACCESS = 0" by code_simp
  obtain x1 h1 where r1: "region_reserve K ?sz (rg_addr r) h = (x1, h1)" by fastforce
  show ?thesis
  proof (cases x1)
    case (Inl e)
    then have "x = Inl e" "h' = h1" using run flags r1 by (simp_all add: buffer_allocate_def op_when_def op_try_def assms(3) Let_def)
    then show ?thesis using failed r1 Inl by simp
  next
    case (Inr r2)
    have o1: "owned h1 = owned h" and r2: "r2 = r" using reserve r1 Inr by auto
    let ?alloc = "AllocMemory (rg_addr r) ?sz 0 (md_gpu d) (mem_type_bits VRAM OR MF_WRITABLE)"
    let ?free = "\<lambda>out. op_assert (sys K (FreeMemory (out_word out 0)))"
    have rest: "op_else (sys K ?alloc) (\<lambda>e. op_try (region_destroy K r) (\<lambda>_. op_fail e)) (\<lambda>out.
        op_else (region_rebind K r (md_render_fd d) PROT_NONE (out_word out 1))
          (\<lambda>e. ?free out (op_try (region_destroy K r) (\<lambda>_. op_fail e)))
          (\<lambda>(m, _). op_else (mutex_box K) (\<lambda>e. op_try (region_destroy K m) (\<lambda>_. op_fail e))
             (\<lambda>_. op_ret \<lparr>b_len = ?sz, b_handle = out_word out 0, b_mapping = m, b_ids = [], b_cap = 2,
                b_owner = Some (md_gpu d)\<rparr>))) h1 = (x, h')"
      using run flags r1 Inr r2 by (simp add: buffer_allocate_def op_when_def op_try_def assms(3) Let_def)
    show ?thesis
    proof (cases "K h1 ?alloc")
      case (Failed e)
      let ?h2 = "h1 @ [(?alloc, Failed e)]"
      have "owned ?h2 = owned h" using o1 by (simp add: owned_snoc token_step_failed)
      moreover have "op_try (region_destroy K r) (\<lambda>_. op_fail e) ?h2 = (x, h')"
        using rest Failed by (simp add: op_else_def sys_def)
      ultimately show ?thesis using destroy [of e ?h2 x h'] by (auto split: sum.splits)
    next
      case (Done out)
      let ?h2 = "h1 @ [(?alloc, Done out)]" and ?o = "Obj (out_word out 0)"
      have o2: "owned ?h2 = insert ?o (owned h)" using o1 by (simp add: op_simps)
      have new: "out_word out 0 \<noteq> 0" "?o \<notin> owned h" using C(9) [OF Done] o1 by auto
      obtain x3 h3 where r3: "region_rebind K r (md_render_fd d) PROT_NONE (out_word out 1) ?h2 = (x3, h3)" by fastforce
      show ?thesis
      proof (cases x3)
        case (Inl e)
        then have o3: "owned h3 = insert ?o (owned h)"
          using r3 o2 by (auto simp: region_rebind_def op_eqs owned_snoc token_step_failed simp del: append_assoc)
        have "?free out (op_try (region_destroy K r) (\<lambda>_. op_fail e)) h3 = (x, h')"
          using rest Done r3 Inl by (simp add: op_else_def sys_def)
        then consider "x = Inl ABORT" | xs where
          "op_try (region_destroy K r) (\<lambda>_. op_fail e) (h3 @ [(FreeMemory (out_word out 0), Done xs)]) = (x, h')"
          by (auto simp: op_assert_eq sys_eq)
        then show ?thesis
        proof cases
          case 2
          have "owned (h3 @ [(FreeMemory (out_word out 0), Done xs)]) = owned h" using o3 new(2) by (auto simp: op_simps)
          then show ?thesis using destroy [OF 2] by (auto split: sum.splits)
        qed (simp add: fatal_def)
      next
        case (Inr p)
        have p: "p = (r, null_region)" using rebound [OF C(1) assms(2), of "md_render_fd d" PROT_NONE "out_word out 1" p] r3 Inr
          by (auto simp: yields_def)
        have o3: "owned h3 = insert ?o (owned h)"
        proof -
          obtain xs where x: "K ?h2 (Mmap (rg_addr r) ?sz PROT_NONE (MAP_SHARED OR MAP_FIXED) (md_render_fd d) (out_word out 1)) = Done xs"
            "h3 = ?h2 @ [(Mmap (rg_addr r) ?sz PROT_NONE (MAP_SHARED OR MAP_FIXED) (md_render_fd d) (out_word out 1), Done xs)]"
            using r3 Inr by (auto simp: region_rebind_def op_eqs simp del: append_assoc)
          have "out_word xs 0 = rg_addr r" using mmap_fixed [OF C(1) assms(2) x(1)] .
          then show ?thesis using x(2) o2 assms(4) by (auto simp: op_simps region_bytes_def simp del: append_assoc)
        qed
        obtain ys where m: "K h3 (Malloc 4) = Done ys" using C(5) by blast
        then have "mutex_box K h3 = (Inr (), h3 @ [(Malloc 4, Done ys)])"
          by (simp add: mutex_box_def op_else_def sys_def op_ret_def)
        then have "x = Inr \<lparr>b_len = ?sz, b_handle = out_word out 0, b_mapping = r, b_ids = [], b_cap = 2, b_owner = Some (md_gpu d)\<rparr>"
          "h' = h3 @ [(Malloc 4, Done ys)]"
          using rest Done r3 Inr p by (auto simp: op_else_def sys_def op_ret_def)
        then show ?thesis using new o3 by (simp add: owned_snoc token_step_inert)
      qed
    qed
  qed
qed


lemma owned_split:
  assumes "bag h1 = bag h + mset_set X" and "finite X"
  shows "owned h1 = owned h \<union> X" and "X \<inter> owned h = {}"
proof -
  have fin: "finite (owned g)" for g by (rule finite_owned)
  have "set_mset (bag h1) = set_mset (bag h) \<union> set_mset (mset_set X)" by (simp add: assms(1))
  then show "owned h1 = owned h \<union> X" using fin assms(2) by (simp add: bag_def)
  have "count (bag h1) t \<le> 1" for t using fin by (simp add: bag_def count_mset_set')
  then have "count (bag h) t + count (mset_set X) t \<le> 1" for t by (simp add: assms(1))
  moreover have "count (bag h) t + count (mset_set X) t = 2" if "t \<in> X" "t \<in> owned h" for t
    using that fin assms(2) by (simp add: bag_def)
  ultimately show "X \<inter> owned h = {}" by (metis disjoint_iff numeral_le_one_iff semiring_norm(69))
qed

lemma buffer_drop_fatal: "buffer_drop K b h = (Inl e, h') \<Longrightarrow> fatal e"
  by (auto simp: buffer_drop_def buffer_destroy_def region_destroy_def op_eqs Let_def fatal_def split: if_splits)

lemma buffer_map_fatal: "buffer_map K b ts h = (Inl e, h') \<Longrightarrow> fatal e"
  by (auto simp: buffer_map_def op_eqs fatal_def dest!: note_ids_aborts split: if_splits)

lemma undone: "t \<notin> B \<Longrightarrow> B - X = C \<Longrightarrow> S = insert t B \<or> S = insert t B - X \<Longrightarrow> S - {t} - X = C"
  by auto

lemma bag_eqI: "owned h = owned h' \<Longrightarrow> bag h = bag h'"
  by (simp add: bag_def)

text \<open>What every entry of the map is: a buffer at its key, of whole 2 MiB blocks.\<close>

definition rpc_entry :: "u64 \<times> buffer \<Rightarrow> bool" where
  "rpc_entry kb \<longleftrightarrow> fst kb = rg_addr (b_mapping (snd kb)) \<and> fst kb \<noteq> 0 \<and> 2 ^ 21 dvd unat (fst kb) \<and>
     rg_len (b_mapping (snd kb)) \<noteq> 0 \<and> unat (fst kb) + unat (rg_len (b_mapping (snd kb))) \<le> 2 ^ 64"

definition rpc_ok :: "rpc_allocs \<Rightarrow> bool" where
  "rpc_ok allocs \<longleftrightarrow> distinct (map fst allocs) \<and> list_all rpc_entry allocs"

text \<open>Requests of at least one byte whose rounding does not wrap, on pages that divide 2 MiB.\<close>

definition rpc_sane :: "u64 \<Rightarrow> u64 \<Rightarrow> bool" where
  "rpc_sane page n \<longleftrightarrow> n \<noteq> 0 \<and> n \<le> align_up n RPC_ALLOC_ALIGN \<and>
     align_up (align_up n RPC_ALLOC_ALIGN) page = align_up n RPC_ALLOC_ALIGN"

lemma align_up_twice:
  assumes "k \<le> 21"
  shows "align_up (align_up n RPC_ALLOC_ALIGN) (2 ^ k) = align_up n RPC_ALLOC_ALIGN"
proof -
  define x where "x = align_up n RPC_ALLOC_ALIGN"
  have "RPC_ALLOC_ALIGN = 2 ^ 21" by (simp add: RPC_ALLOC_ALIGN_def)
  then have "x = (n + 2 ^ 21 - 1) AND NOT (mask 21)" by (simp add: x_def align_up_def mask_eq_exp_minus_1)
  then have clear: "x AND mask k = 0"
    using assms by (intro bit_word_eqI) (auto simp: bit_simps)
  have "x + (2 ^ k - 1) = x OR mask k" using disjunctive_add_eq_or [OF clear] by (simp add: mask_eq_exp_minus_1)
  then have "align_up x (2 ^ k) = (x OR mask k) AND NOT (mask k)"
    by (simp add: align_up_def mask_eq_exp_minus_1 add_diff_eq [symmetric])
  also have "\<dots> = x AND NOT (mask k)" by (intro bit_word_eqI) (auto simp: bit_simps)
  also have "\<dots> = x"
  proof (rule bit_word_eqI)
    fix i assume "i < LENGTH(64)"
    have "\<not> bit (x AND mask k) i" by (simp add: clear)
    then show "bit (x AND NOT (mask k)) i = bit x i" using \<open>i < LENGTH(64)\<close> by (auto simp: bit_simps)
  qed
  finally show ?thesis by (simp add: x_def)
qed

lemma rpc_saneI:
  assumes "k \<le> 21" and "n \<noteq> 0" and "unat n + 2 ^ 21 \<le> 2 ^ 64"
  shows "rpc_sane (2 ^ k) n"
proof -
  have "unat n + unat RPC_ALLOC_ALIGN \<le> 2 ^ LENGTH(64)" using assms(3) by (simp add: RPC_ALLOC_ALIGN_def)
  then have "unat n \<le> unat (align_up n RPC_ALLOC_ALIGN)" by (intro align_up_ge) (simp_all add: RPC_ALLOC_ALIGN_def)
  then show ?thesis using assms(2) align_up_twice [OF assms(1)] by (simp add: rpc_sane_def word_le_nat_alt)
qed

lemma malloc_owned:
  assumes "os_contract K" and "unmaps_succeed K" and "rpc_sane page n"
    and run: "rpc_malloc K page d n allocs h = (x, h')"
  shows "case x of
     Inl e \<Rightarrow> fatal e
   | Inr (a, allocs') \<Rightarrow>
       (a = 0 \<and> allocs' = allocs \<and> bag h' = bag h) \<or>
       (map_of allocs a \<noteq> None \<and> allocs' = allocs \<and> bag h' = bag h) \<or>
       (\<exists>b. allocs' = (a, b) # allocs \<and> map_of allocs a = None \<and> rpc_entry (a, b) \<and>
          rg_len (b_mapping b) = align_up n RPC_ALLOC_ALIGN \<and> bag h' = bag h + buffer_bag b)"
proof -
  let ?sz = "align_up n RPC_ALLOC_ALIGN"
  note C = os_contractD [OF assms(1)]
  have al: "RPC_ALLOC_ALIGN = 2 ^ 21" by (simp add: RPC_ALLOC_ALIGN_def)
  have sz: "0 < ?sz" "align_up ?sz page = ?sz" using assms(3) by (auto simp: rpc_sane_def word_gt_0)
  obtain y h1 where res: "region_reserve_aligned K ?sz RPC_ALLOC_ALIGN h = (y, h1)" by fastforce
  note H = holds_reserve_aligned [OF C(1) _ sz(1), of 21, folded al]
  show ?thesis
  proof (cases y)
    case (Inl e)
    have "\<not> fatal e \<Longrightarrow> bag h1 = bag h" using holdsD(2) [OF H, of h "bag h" e h1] res Inl by simp
    then show ?thesis using run res Inl by (auto simp: rpc_malloc_def op_catch_eq op_ret_eq op_fail_eq Let_def split: if_splits)
  next
    case (Inr r)
    let ?X = "region_tokens r"
    have r: "2 ^ 21 dvd unat (rg_addr r)" "rg_len r = ?sz" "unat (rg_addr r) + unat ?sz \<le> 2 ^ 64" "rg_addr r \<noteq> 0"
      using aligned_reservation [OF C(1) _ sz(1), of 21 h r h1] res unfolding Inr al by simp_all
    have b1: "bag h1 = bag h + region_bag r" using holdsD(1) [OF H, of h "bag h" r h1] res Inr by simp
    have fin: "finite ?X" by (simp add: region_bytes_def)
    then have rb: "region_bag r = mset_set ?X" using r(4) by (simp add: region_bag_def)
    have o1: "owned h1 - ?X = owned h" and sub: "?X \<subseteq> owned h1"
      using owned_split [OF b1 [unfolded rb] fin] by blast+
    have munmap: "m = Inr () \<and> owned h3 = owned h2 - ?X" if "munmap_ignored K (rg_addr r) ?sz h2 = (m, h3)" for h2 m h3
      using munmap_ignored_owned [OF assms(2) that] r(2) by (simp add: region_bytes_def)
    obtain z h2 where alloc: "buffer_allocate K page d ?sz VRAM MF_WRITABLE (rg_addr r) h1 = (z, h2)" by fastforce
    note A = allocate_at [OF assms(1) r(4) _ sub, unfolded r(2), OF sz(2) alloc]
    show ?thesis
    proof (cases z)
      case (Inl e)
      then show ?thesis
        using run res Inr alloc A munmap o1
        by (fastforce simp: rpc_malloc_def op_catch_eq op_eqs Let_def bag_def split: if_splits)
    next
      case z: (Inr b)
      obtain q h3 where map: "buffer_map K b [md_gpu d] h2 = (q, h3)" by fastforce
      from A z have b: "b_mapping b = r" "b_handle b \<noteq> 0" "Obj (b_handle b) \<notin> owned h1"
        and o2: "owned h2 = insert (Obj (b_handle b)) (owned h1)" by simp_all
      have o3: "owned h3 = owned h2" using neutral_buffer_map map unfolding neutral_def by blast
      show ?thesis
      proof (cases q)
        case (Inl e)
        then show ?thesis using run res Inr alloc z map buffer_map_fatal
          by (fastforce simp: rpc_malloc_def op_catch_eq op_try_eq Let_def)
      next
        case q: (Inr p)
        obtain rr b' where p: "p = (rr, b')" by fastforce
        have b': "b_handle b' = b_handle b" "b_mapping b' = r"
          using mapped_buffer [of K b "[md_gpu d]" p] map q p b(1) by (auto simp: yields_def)
        have dropped: "case v of Inl e \<Rightarrow> fatal e | Inr _ \<Rightarrow> bag h5 = bag h"
          if "buffer_drop K b' h4 = (v, h5)" "owned h4 = owned h3 \<or> owned h4 = owned h3 - ?X" for v h4 h5
        proof (cases v)
          case (Inl e)
          then show ?thesis using buffer_drop_fatal that(1) by auto
        next
          case (Inr u)
          have "owned h5 = owned h4 - {Obj (b_handle b)} - ?X"
            using buffer_drop_owned [OF that(1) [unfolded Inr]] b' b(2) r(4) by simp
          also have "\<dots> = owned h" by (rule undone [OF b(3) o1]) (use that(2) o2 o3 in simp)
          finally have "bag h5 = bag h" by (rule bag_eqI)
          then show ?thesis using Inr by simp
        qed
        note body = run [unfolded rpc_malloc_def Let_def]
        show ?thesis
        proof (cases rr)
          case (Inl e)
          obtain m h4 where m: "munmap_ignored K (rg_addr r) ?sz h3 = (m, h4)" by fastforce
          obtain v h5 where v: "buffer_drop K b' h4 = (v, h5)" by fastforce
          have "x = (case v of Inl e \<Rightarrow> Inl e | Inr _ \<Rightarrow> Inr (0, allocs))" "h' = h5"
            using body res \<open>y = Inr r\<close> alloc z map q p Inl m v munmap [OF m]
            by (simp_all add: op_catch_def op_else_def op_try_def op_ret_def split: sum.splits)
          with dropped [OF v] munmap [OF m] show ?thesis by (auto split: sum.splits)
        next
          case rr: (Inr u)
          show ?thesis
          proof (cases "map_of allocs (rg_addr r)")
            case None
            then have x: "x = Inr (rg_addr r, (rg_addr r, b') # allocs)" "h' = h3"
              using body res Inr alloc z map q p rr b'(2) by (auto simp: op_catch_eq op_eqs)
            have "bag h3 = bag h1 + {#Obj (b_handle b)#}" using bag_insert [OF b(3)] o2 o3 by simp
            then have "bag h3 = bag h + buffer_bag b'" using b1 b' b(2) by (simp add: buffer_bag_def ac_simps)
            moreover have "rpc_entry (rg_addr r, b')" using r b'(2) sz(1) by (simp add: rpc_entry_def word_gt_0)
            ultimately show ?thesis using x None b'(2) r(2) by simp
          next
            case (Some c)
            then obtain v where "buffer_drop K b' h3 = (v, h')" "x = (case v of Inl e \<Rightarrow> Inl e | Inr _ \<Rightarrow> Inr (rg_addr r, allocs))"
              using body res Inr alloc z map q p rr b'(2) by (fastforce simp: op_catch_eq op_eqs)
            then show ?thesis using dropped [of h3 v h'] Some by (auto split: sum.splits)
          qed
        qed
      qed
    qed
  qed
qed


lemma allocs_bag_Cons [simp]: "allocs_bag (kb # allocs) = buffer_bag (snd kb) + allocs_bag allocs"
  by (simp add: allocs_bag_def)

lemma allocs_bag_Nil [simp]: "allocs_bag [] = {#}"
  by (simp add: allocs_bag_def)

lemma allocs_bag_out:
  assumes "distinct (map fst allocs)" and "map_of allocs p = Some b"
  shows "allocs_bag allocs = allocs_bag (filter (\<lambda>kb. fst kb \<noteq> p) allocs) + buffer_bag b"
  using assms
proof (induction allocs)
  case (Cons kb allocs)
  show ?case
  proof (cases "fst kb = p")
    case True
    then have "p \<notin> fst ` set allocs" using Cons.prems(1) by auto
    then have "filter (\<lambda>kb. fst kb \<noteq> p) allocs = allocs" by (auto simp: filter_id_conv)
    then show ?thesis using True Cons.prems(2) by (simp add: ac_simps)
  next
    case False
    then show ?thesis using Cons by (auto simp: ac_simps split: if_splits)
  qed
qed simp

lemma free_owned:
  assumes "rpc_ok allocs" and "bag h = B + allocs_bag allocs" and "rpc_free K p allocs h = (x, h')"
  shows "case x of Inl e \<Rightarrow> fatal e | Inr allocs' \<Rightarrow> bag h' = B + allocs_bag allocs' \<and> rpc_ok allocs'"
proof (cases "map_of allocs p")
  case (Some b)
  let ?rest = "filter (\<lambda>kb. fst kb \<noteq> p) allocs"
  have "bag h = (B + allocs_bag ?rest) + buffer_bag b"
    using assms(1,2) allocs_bag_out [OF _ Some] by (simp add: rpc_ok_def ac_simps)
  moreover have "rpc_ok ?rest" using assms(1) by (auto simp: rpc_ok_def list_all_iff distinct_map_filter)
  ultimately show ?thesis
    using assms(3) Some dropsD [OF drops_buffer, of h "B + allocs_bag ?rest" b K]
    by (auto simp: rpc_free_def op_try_eq op_ret_eq)
qed (use assms in \<open>simp add: rpc_free_def op_ret_eq\<close>)

lemma allocs_apart:
  "list_all rpc_entry allocs \<Longrightarrow> bag h = B + allocs_bag allocs \<Longrightarrow>
   sorted_wrt (\<lambda>a c. region_bytes (b_mapping (snd a)) \<inter> region_bytes (b_mapping (snd c)) = {}) allocs"
proof (induction allocs arbitrary: B)
  case (Cons a allocs)
  have "region_bytes (b_mapping (snd a)) \<inter> region_bytes (b_mapping (snd c)) = {}" if c: "c \<in> set allocs" for c
  proof -
    obtain us vs where "allocs = us @ c # vs" using split_list [OF c] by blast
    then have "allocs_bag allocs = allocs_bag us + allocs_bag vs + buffer_bag (snd c)" by (simp add: allocs_bag_def ac_simps)
    then have "bag h = (B + allocs_bag us + allocs_bag vs +
        (if b_handle (snd a) = 0 then {#} else {#Obj (b_handle (snd a))#}) +
        (if b_handle (snd c) = 0 then {#} else {#Obj (b_handle (snd c))#})) +
        region_bag (b_mapping (snd a)) + region_bag (b_mapping (snd c))"
      using Cons.prems(2) by (simp add: buffer_bag_def ac_simps)
    then show ?thesis using Cons.prems(1) c by (intro regions_apart) (auto simp: list_all_iff rpc_entry_def)
  qed
  moreover have "bag h = (B + buffer_bag (snd a)) + allocs_bag allocs" using Cons.prems(2) by (simp add: ac_simps)
  ultimately show ?case using Cons.IH [of "B + buffer_bag (snd a)"] Cons.prems(1) by simp
qed simp

lemma drops_allocs: "drops (allocs_bag allocs) (rpc_allocs_drop K allocs)"
proof (induction allocs)
  case (Cons kb allocs)
  then show ?case using drops_seq [OF drops_buffer, of "allocs_bag allocs" "\<lambda>_. rpc_allocs_drop K allocs" "snd kb" K]
    by (cases kb) simp
qed (simp add: drops_ret)

lemma malloc_keeps:
  assumes "(a = 0 \<and> allocs' = allocs \<and> bag h' = bag h) \<or> (map_of allocs a \<noteq> None \<and> allocs' = allocs \<and> bag h' = bag h) \<or>
      (\<exists>b. allocs' = (a, b) # allocs \<and> map_of allocs a = None \<and> rpc_entry (a, b) \<and>
         rg_len (b_mapping b) = sz \<and> bag h' = bag h + buffer_bag b)"
    and "rpc_ok allocs" and "bag h = B + allocs_bag allocs"
  shows "bag h' = B + allocs_bag allocs' \<and> rpc_ok allocs' \<and> 2 ^ 21 dvd unat a"
  using assms(1)
proof (elim disjE)
  assume c: "map_of allocs a \<noteq> None \<and> allocs' = allocs \<and> bag h' = bag h"
  then obtain b where "(a, b) \<in> set allocs" using map_of_SomeD by fastforce
  then have "2 ^ 21 dvd unat a" using assms(2) by (auto simp: rpc_ok_def list_all_iff rpc_entry_def)
  then show ?thesis using c assms(2,3) by simp
next
  assume "\<exists>b. allocs' = (a, b) # allocs \<and> map_of allocs a = None \<and> rpc_entry (a, b) \<and>
         rg_len (b_mapping b) = sz \<and> bag h' = bag h + buffer_bag b"
  then show ?thesis using assms(2,3) by (auto simp: rpc_ok_def rpc_entry_def map_of_eq_None_iff ac_simps)
qed (use assms(2,3) in simp)

lemma serve_owned:
  assumes "os_contract K" and "unmaps_succeed K" and "k \<le> 21"
  shows "\<forall>n. Rpc_malloc n \<in> set rs \<longrightarrow> n \<noteq> 0 \<and> unat n + 2 ^ 21 \<le> 2 ^ 64 \<Longrightarrow>
    rpc_ok allocs \<Longrightarrow> bag h = B + allocs_bag allocs \<Longrightarrow> rpc_serve K (2 ^ k) d rs allocs h = (x, h') \<Longrightarrow>
    case x of Inl e \<Rightarrow> fatal e
    | Inr (as, allocs') \<Rightarrow> bag h' = B + allocs_bag allocs' \<and> rpc_ok allocs' \<and> (\<forall>a\<in>set as. 2 ^ 21 dvd unat a)"
proof (induction rs arbitrary: allocs h x h')
  case Nil
  then show ?case by (simp add: op_ret_eq)
next
  case (Cons r rs)
  have reqs: "\<forall>n. Rpc_malloc n \<in> set rs \<longrightarrow> n \<noteq> 0 \<and> unat n + 2 ^ 21 \<le> 2 ^ 64" using Cons.prems(1) by simp
  note IH = Cons.IH [OF reqs]
  show ?case
  proof (cases r)
    case (Rpc_free p)
    obtain y h1 where f: "rpc_free K p allocs h = (y, h1)" by fastforce
    note F = free_owned [OF Cons.prems(2,3) f]
    show ?thesis
    proof (cases y)
      case (Inl e)
      then show ?thesis using Cons.prems(4) Rpc_free f F by (auto simp: op_try_def)
    next
      case (Inr allocs1)
      then have run: "rpc_serve K (2 ^ k) d rs allocs1 h1 = (x, h')" using Cons.prems(4) Rpc_free f by (simp add: op_try_def)
      from F Inr have "bag h1 = B + allocs_bag allocs1" "rpc_ok allocs1" by simp_all
      from IH [OF this(2,1) run] show ?thesis .
    qed
  next
    case (Rpc_malloc n)
    have sane: "rpc_sane (2 ^ k) n" using Cons.prems(1) Rpc_malloc by (intro rpc_saneI [OF assms(3)]) auto
    obtain y h1 where f: "rpc_malloc K (2 ^ k) d n allocs h = (y, h1)" by fastforce
    note M = malloc_owned [OF assms(1,2) sane f]
    show ?thesis
    proof (cases y)
      case (Inl e)
      then show ?thesis using Cons.prems(4) Rpc_malloc f M by (auto simp: op_try_def)
    next
      case (Inr p)
      obtain a allocs1 where p: "p = (a, allocs1)" by fastforce
      have ok: "bag h1 = B + allocs_bag allocs1" "rpc_ok allocs1" "2 ^ 21 dvd unat a"
        using malloc_keeps [OF M [unfolded Inr p sum.case prod.case] Cons.prems(2,3)] by simp_all
      obtain z h2 where s: "rpc_serve K (2 ^ k) d rs allocs1 h1 = (z, h2)" by fastforce
      from IH [OF ok(2,1) s] show ?thesis
        using Cons.prems(4) Rpc_malloc f Inr p s ok(3) by (auto simp: op_try_def op_ret_def split: sum.splits)
    qed
  qed
qed



definition demo_requests :: "rpc_request list" where
  "demo_requests = [Rpc_malloc 100, Rpc_malloc 0x200001, Rpc_free 0x200000, Rpc_free 0x200000, Rpc_malloc 8]"


end
