(* ===== verification/Spec2Isabelle.thy ===== *)
theory Spec2Isabelle
  imports Pool_Allocator Small_Vector Abi Scratch Pm4 Pm4_Exec Scratch_Ib Sdma Queue_Ring Utility Topology
    Elf_Target Elf System Mapped_Region Memory Loader
    Futex_Mutex Event Resources Fresh_Kernel Signal Queue_Ops Dispatch Scratch_Protocol Device Watcher
    Shared_State Queue_Create Queue_Life Queue_Start Context Loading Box Tool_Args Tool_Rpc
begin

text \<open>
  A verification library for libkfd, a user-space driver library for AMDGPU compute. The library
  opens \<^verbatim>\<open>/dev/kfd\<close>, reads the topology of the machine from sysfs, maps memory and queues through
  ioctls, loads code objects, and writes packets into the rings of the queues. This development
  models the C++ library under \<^verbatim>\<open>src/include/libkfd\<close> and \<^verbatim>\<open>src/lib\<close> (named below without \<^verbatim>\<open>src/\<close>),
  definition by definition, with parts of the loader tool that uses it, and proves what makes its
  components correct.

  \<^bold>\<open>How the program is modelled.\<close> A class or struct is a record, an enumeration a datatype, an
  unsigned integer a word of its width, whose arithmetic wraps as the code's does. A function that
  can fail returns \<open>'a res\<close>, an error or a value; the macros \<^verbatim>\<open>KFD_TRY\<close>, \<^verbatim>\<open>KFD_CHECK\<close> and
  \<^verbatim>\<open>KFD_ASSERT\<close> are combinators, and so is the destructor of a scope that an early return leaves
  (\<^theory_text>\<open>on_error\<close>). Three errors are not values of the code: \<open>ABORT\<close> is the end of the process in a
  failed assertion, \<open>UB\<close> an access outside its object, \<open>HANGS\<close> a loop that has not ended within the
  bound the run was given. The operating system and the driver are not in the sources: a \<open>kernel\<close>
  is a function from the calls made so far and the next call to its reply, an argument of every
  operation that makes calls, and an operation returns the longer history. Formatted messages are
  not modelled, only the error code they come with.

  \<^bold>\<open>The theories\<close>, from the bottom up.
  \<^item> \<open>Kfd_Prelude\<close>: integers, errors, the early-return combinators, alignment (\<^verbatim>\<open>error.h\<close>,
    \<^verbatim>\<open>detail/utility.h\<close>). \<open>Byte_Memory\<close>: objects as byte lists with checked access.
    \<open>Utility\<close>: string views and \<^verbatim>\<open>consume_integer\<close>.
  \<^item> \<open>Small_Vector\<close> and \<open>Pool_Allocator\<close>: the vector with inline storage (\<^verbatim>\<open>detail/small_vector.h\<close>)
    and the first-fit allocator over its free list (\<^verbatim>\<open>detail/pool_allocator.cpp\<close>).
  \<^item> \<open>Abi\<close>, \<open>Scratch\<close>, \<open>Topology_Types\<close>, \<open>Topology\<close>: kernel descriptors and implicit arguments
    (\<^verbatim>\<open>abi.h\<close>, \<^verbatim>\<open>dispatch.h\<close>), scratch sizing (\<^verbatim>\<open>detail/scratch.cpp\<close>), the sysfs scan (\<^verbatim>\<open>topology.cpp\<close>).
  \<^item> \<open>Pm4\<close>, \<open>Pm4_Exec\<close>, \<open>Scratch_Ib\<close>, \<open>Sdma\<close>: the packet builders (\<^verbatim>\<open>packets/pm4.h\<close>,
    \<^verbatim>\<open>packets/sdma.h\<close>), what a command processor makes of them, and the indirect buffer that
    corrects the scratch registers of a launch.
  \<^item> \<open>Queue_Ring\<close>, \<open>Queue_Ops\<close>: the ring of a queue (\<^verbatim>\<open>submit_impl\<close>, \<^verbatim>\<open>wait_for_room\<close>) and the
    operations of \<^verbatim>\<open>ComputeQueue\<close> and \<^verbatim>\<open>SDMAQueue\<close> over it.
  \<^item> \<open>Elf_Target\<close>, \<open>Elf\<close>, \<open>Loader\<close>, \<open>Loading\<close>: targets and images (\<^verbatim>\<open>detail/elf.cpp\<close>), the contents
    and the look-ups of code objects, and \<^verbatim>\<open>Executable::load\<close> with its memory and its submissions
    (\<^verbatim>\<open>loader.cpp\<close>).
  \<^item> \<open>Box\<close>: programs over owning pointers (\<^verbatim>\<open>detail/box.h\<close>).
  \<^item> \<open>Tool_Args\<close>, \<open>Tool_Rpc\<close>: the command line and the argument vectors of the loader tool, and the
    memory it allocates for the program on the device (\<^verbatim>\<open>tools/loader/main.cpp\<close>).
  \<^item> \<open>System\<close>, \<open>Mapped_Region\<close>, \<open>Memory\<close>, \<open>Event\<close>, \<open>Signal\<close>: the calls, and the classes that own what
    they return (\<^verbatim>\<open>ioctl.h\<close>, \<^verbatim>\<open>mapped_region.cpp\<close>, \<^verbatim>\<open>memory.cpp\<close>, \<^verbatim>\<open>event.cpp\<close>, \<^verbatim>\<open>signal.cpp\<close>).
  \<^item> \<open>Futex_Mutex\<close>: the lock (\<^verbatim>\<open>detail/mutex.cpp\<close>), every atomic step of any number of threads.
  \<^item> \<open>Dispatch\<close>, \<open>Scratch_Protocol\<close>: \<^verbatim>\<open>ComputeQueue::dispatch\<close>, the handlers of the watcher thread, and
    their interleaving with the command processor.
  \<^item> \<open>Device\<close>, \<open>Watcher\<close>, \<open>Context\<close>, \<open>Queue_Create\<close>: the objects a process is made of, from
    \<^verbatim>\<open>Context::create\<close> over \<^verbatim>\<open>Device::create\<close> and the fault watcher to \<^verbatim>\<open>QueueBase::create\<close> and the
    destructors (\<^verbatim>\<open>device.cpp\<close>, \<^verbatim>\<open>context.cpp\<close>, \<^verbatim>\<open>queue.cpp\<close>).
  \<^item> \<open>Resources\<close>, \<open>Shared_State\<close>, \<open>Queue_Life\<close>, \<open>Queue_Start\<close>, \<open>Fresh_Kernel\<close>: no code of their own.
    The first two hold the ownership judgement, the next two apply it to queues, the last is a
    system on which the concrete runs of the witnesses are evaluated.

  \<^bold>\<open>How the parts interact.\<close> A context owns the descriptor of the driver, its devices and the fault
  watcher; the pages of the signals, the cached render nodes and the runtime switch belong to the
  process (\<open>globals\<close>). A queue shares its device, whose doorbell page and scratch allocator it
  changes, and the watcher, to whose list it adds its events (\<open>shared\<close>). A dispatch that needs more
  scratch memory leaves a request; the watcher thread runs \<^verbatim>\<open>scratch_handler\<close>, which takes memory
  from the allocator of the device and writes an indirect buffer; the command processor waits for
  it in the ring (\<open>Scratch_Protocol\<close>).

  \<^bold>\<open>What the lemmas show.\<close>
  \<^item> Data structures: invariants and exact results of the vector and the allocator; live ranges
    never overlap, and a request fails only when nothing fits.
  \<^item> Formats: packets are whole and program the registers of the calling convention; the
    implicit arguments fill the kernel's argument block; an accepted image is never read out of its
    bounds, its hash lookup answers as a linear search, and relocation changes only its targets.
  \<^item> Rings: a step relation between submitter and device in which the dwords read are a prefix of
    those published, and no unread dword is overwritten. A new queue starts in that relation.
  \<^item> Loading: the image is staged from the checked file, the packets sent to the SDMA queue put every
    staged byte in place, and the compute queue waits for them before it goes on.
  \<^item> Concurrency: mutual exclusion and no lost wake-up of the lock; the scratch protocol as a
    refinement of a first-in first-out service; no watch that the watcher thread sleeps through.
  \<^item> Resources: \<open>holds\<close>, \<open>drops\<close> and \<open>neutral\<close> judge an operation by the tokens (bytes, memory
    objects, events, queues, descriptors, DRM handles) it holds at its end, \<open>s_owns\<close> and \<open>s_drops\<close>
    one that changes shared state, \<open>keeps_watches\<close> one that changes the list of watches. Their rules
    follow the combinators, so each creation is a short derivation, and the result says that a
    failed creation leaves nothing behind and a destruction returns everything.
  \<^item> Interfaces: \<open>range_allocator\<close>, \<open>appendable\<close> and \<open>packet_sink\<close> are locales with the laws their
    clients rely on; the pool, the two vectors and the submission of a queue interpret them.

  \<^bold>\<open>Contracts.\<close> What the code relies on of the driver is a named hypothesis: a mapping that
  succeeds is not null, does not wrap and overlaps nothing that is mapped; handles and identifiers
  that are returned are not in use; no call replies with one of the three errors above; the lock of
  a buffer can be allocated (\<open>os_contract\<close>, with \<open>sane_apertures\<close> and \<open>sane_descriptors\<close> for the
  creation of devices and contexts); a store to the mapped signal page does not fail, nor does
  unmapping (\<open>stores_succeed\<close>, \<open>unmaps_succeed\<close>). \<open>Fresh_Kernel\<close> shows that they can hold together.

  \<^bold>\<open>Bounds and fuel.\<close> The polls of \<^verbatim>\<open>wait_for_room\<close> and of the blocking waits are inputs: a list of
  what the device shows, or a number; \<open>waits_return\<close> shows for the waits of a signal that an
  advancing clock makes some number enough. \<open>scratch_loop\<close>, the retry of the handler with fewer
  slots, has fuel because its slot count is unsigned and may wrap. \<open>join_thread\<close>
  takes the polls until the thread has cleared its identifier. \<^verbatim>\<open>CREATE_QUEUE\<close> is retried 20 times,
  as in the code. All other loops are structural or end by a proved measure.

  \<^bold>\<open>Not modelled.\<close> The texts of messages; the trap handler (GPU assembly, and a table of images that
  the build embeds, an argument of \<open>device_create\<close>); the contents that \<^verbatim>\<open>memset\<close> clears in fresh pages;
  the threads' memory model, in which the atomic accesses are taken as single steps; the execution
  of packets beyond copies, fills and register writes; of the loader tool the reading of the file,
  the remote-procedure library, which is a third-party header, and \<^verbatim>\<open>main\<close>, which calls the library
  in sequence and exits on the first error; and the programs \<^verbatim>\<open>kfdinfo\<close>, \<^verbatim>\<open>computetoy\<close> and
  \<^verbatim>\<open>sandbox\<close> under \<^verbatim>\<open>tools\<close> and the \<^verbatim>\<open>tests\<close>, which print, open windows or call the library.
\<close>

end
